(* ===== verification/Neptune_Prelude.thy ===== *)
theory Neptune_Prelude
  imports Main "HOL-Library.Word" "HOL-Library.Char_ord"
begin

text \<open>
  Shared vocabulary of the development.

  \<^item> A C++ \<^verbatim>\<open>std::string\<close>, \<^verbatim>\<open>StringPiece\<close> or byte buffer is a HOL \<^typ>\<open>string\<close>: a list of
    8-bit characters, in which the NUL byte may occur. A C string (\<^verbatim>\<open>const char*\<close>) is the part of
    such a list before its first NUL byte.
  \<^item> Undefined behaviour and failed assertions are values of \<open>cpp_error\<close>; an operation that can
    run into them returns a \<open>result\<close>.
  \<^item> The functions of \<^verbatim>\<open><ctype.h>\<close> and the searching members of \<^verbatim>\<open>std::string\<close> that the sources
    call are defined here, for the "C" locale.
\<close>

section \<open>Errors\<close>

datatype cpp_error =
    Out_of_bounds      \<comment> \<open>a read or write outside a buffer\<close>
  | Assertion_failed   \<comment> \<open>a failed \<^verbatim>\<open>assert\<close> or \<^verbatim>\<open>CHECK\<close>\<close>
  | Uninitialised      \<comment> \<open>use of an indeterminate value\<close>
  | Undefined_arith    \<comment> \<open>signed overflow, or a shift by a negative or too large amount\<close>
  | Exception_thrown   \<comment> \<open>a C++ exception leaves the operation\<close>

type_synonym 'a result = "cpp_error + 'a"

definition checked_nth :: "'a list \<Rightarrow> nat \<Rightarrow> 'a result" where
  "checked_nth xs i = (if i < length xs then Inr (xs ! i) else Inl Out_of_bounds)"

text \<open>Sequencing: the first error ends the operation.\<close>

definition bindR :: "'a result \<Rightarrow> ('a \<Rightarrow> 'b result) \<Rightarrow> 'b result" where
  "bindR r f = (case r of Inl e \<Rightarrow> Inl e | Inr x \<Rightarrow> f x)"

lemma bindR_simps [simp]:
  "bindR (Inr x) f = f x"
  "bindR (Inl e) f = Inl e"
  by (simp_all add: bindR_def)

lemma bindR_eq_Inr: "bindR r f = Inr y \<longleftrightarrow> (\<exists>x. r = Inr x \<and> f x = Inr y)"
  by (cases r) auto

section \<open>Collections of rewrite rules\<close>

named_theorems char_class \<open>what the character classes contain\<close>
named_theorems model_defs \<open>definitions to unfold when a model is evaluated on a concrete input\<close>

section \<open>Characters\<close>

abbreviation code :: "char \<Rightarrow> nat" where
  "code c \<equiv> of_char c"

abbreviation NUL :: char where
  "NUL \<equiv> CHR 0x00"

text \<open>The value of a \<^verbatim>\<open>char\<close> that is converted to \<^verbatim>\<open>int\<close>: \<^verbatim>\<open>char\<close> is signed on the target.\<close>

definition schar :: "char \<Rightarrow> int" where
  "schar c = (if code c < 128 then int (code c) else int (code c) - 256)"

text \<open>An \<^verbatim>\<open>int\<close> stored into a \<^verbatim>\<open>char\<close> keeps its low eight bits.\<close>

definition char_of_int :: "int \<Rightarrow> char" where
  "char_of_int n = char_of (nat (n mod 256))"

lemma code_less_256: "code c < 256"
  by simp

lemma char_eq_iff_code: "c = d \<longleftrightarrow> code c = code d"
  by simp

lemma schar_range: "- 128 \<le> schar c \<and> schar c \<le> 127"
proof -
  have "int (code c) < 256"
    by simp
  then show ?thesis
    unfolding schar_def by (simp only: split: if_split) linarith
qed

lemma char_of_int_schar [simp]: "char_of_int (schar c) = c"
proof -
  have *: "code c < 256"
    by (rule code_less_256)
  have "nat (schar c mod 256) = code c"
  proof (cases "code c < 128")
    case True
    then show ?thesis
      by (simp add: schar_def)
  next
    case False
    have "(int (code c) - 256) mod 256 = int (code c) mod 256"
      by simp
    also have "\<dots> = int (code c)"
      using * by (simp only: mod_pos_pos_trivial of_nat_0_le_iff of_nat_less_iff [of "code c" 256, simplified])
    finally show ?thesis
      using False by (simp only: schar_def if_False nat_int)
  qed
  then show ?thesis
    by (simp only: char_of_int_def char_of_char)
qed

lemma uint_byte: "0 \<le> n \<Longrightarrow> n < 256 \<Longrightarrow> uint (word_of_int n :: 8 word) = n"
  by (simp add: uint_word_of_int take_bit_int_eq_self)

section \<open>Arithmetic on \<^verbatim>\<open>int\<close>\<close>

text \<open>
  A \<^verbatim>\<open>size_t\<close> that is converted to the 32-bit \<^verbatim>\<open>int\<close> keeps its low 32 bits, read with their sign. The
  result of an operation on \<^verbatim>\<open>int\<close> has to fit; the remainder has the sign of the dividend.
\<close>

definition int32_of :: "nat \<Rightarrow> int" where
  "int32_of n = signed_take_bit 31 (int n)"

definition checked_int32 :: "int \<Rightarrow> int result" where
  "checked_int32 x = (if - (2 ^ 31) \<le> x \<and> x < 2 ^ 31 then Inr x else Inl Undefined_arith)"

definition c_rem :: "int \<Rightarrow> int \<Rightarrow> int" where
  "c_rem a b = sgn a * (\<bar>a\<bar> mod \<bar>b\<bar>)"

lemma int32_of_small: "n < 2 ^ 31 \<Longrightarrow> int32_of n = int n"
  by (simp add: int32_of_def signed_take_bit_int_eq_self)

lemma int32_of_le: "int32_of n \<le> int n"
proof -
  have "- (2 ^ 31) \<le> int n"
    by simp
  then show ?thesis
    by (simp add: int32_of_def signed_take_bit_int_less_eq_self_iff)
qed

lemma int32_of_negative:
  assumes "2 ^ 31 \<le> n" "n < 2 ^ 32"
  shows "int32_of n < 0"
proof -
  have "n div 2 ^ 31 = 1"
    using assms by (intro div_nat_eqI) simp_all
  then have "bit n 31"
    by (simp only: bit_iff_odd odd_one not_False_eq_True)
  then have "bit (int n) 31"
    by (simp only: bit_of_nat_iff_bit)
  then show ?thesis
    by (simp add: int32_of_def signed_take_bit_negative_iff)
qed

lemma c_rem_nat: "c_rem (int a) (int b) = int (a mod b)"
  by (cases "a = 0") (simp_all add: c_rem_def zmod_int)

section \<open>Character classes\<close>

text \<open>\<^verbatim>\<open><ctype.h>\<close> in the "C" locale, on the value of an \<^verbatim>\<open>unsigned char\<close>.\<close>

definition c_isupper :: "char \<Rightarrow> bool" where
  "c_isupper c \<longleftrightarrow> 65 \<le> code c \<and> code c \<le> 90"

definition c_islower :: "char \<Rightarrow> bool" where
  "c_islower c \<longleftrightarrow> 97 \<le> code c \<and> code c \<le> 122"

definition c_isdigit :: "char \<Rightarrow> bool" where
  "c_isdigit c \<longleftrightarrow> 48 \<le> code c \<and> code c \<le> 57"

definition c_isalpha :: "char \<Rightarrow> bool" where
  "c_isalpha c \<longleftrightarrow> c_isupper c \<or> c_islower c"

definition c_isalnum :: "char \<Rightarrow> bool" where
  "c_isalnum c \<longleftrightarrow> c_isalpha c \<or> c_isdigit c"

definition c_isxdigit :: "char \<Rightarrow> bool" where
  "c_isxdigit c \<longleftrightarrow>
     c_isdigit c \<or> (65 \<le> code c \<and> code c \<le> 70) \<or> (97 \<le> code c \<and> code c \<le> 102)"

definition c_isspace :: "char \<Rightarrow> bool" where
  "c_isspace c \<longleftrightarrow> code c = 32 \<or> (9 \<le> code c \<and> code c \<le> 13)"

definition c_isblank :: "char \<Rightarrow> bool" where
  "c_isblank c \<longleftrightarrow> code c = 32 \<or> code c = 9"

definition c_isascii :: "char \<Rightarrow> bool" where
  "c_isascii c \<longleftrightarrow> code c < 128"

definition c_isprint :: "char \<Rightarrow> bool" where
  "c_isprint c \<longleftrightarrow> 32 \<le> code c \<and> code c < 127"

definition c_iscntrl :: "char \<Rightarrow> bool" where
  "c_iscntrl c \<longleftrightarrow> code c < 32 \<or> code c = 127"

definition c_isgraph :: "char \<Rightarrow> bool" where
  "c_isgraph c \<longleftrightarrow> 32 < code c \<and> code c < 127"

definition c_ispunct :: "char \<Rightarrow> bool" where
  "c_ispunct c \<longleftrightarrow> c_isgraph c \<and> \<not> c_isalnum c"

definition c_tolower :: "char \<Rightarrow> char" where
  "c_tolower c = (if c_isupper c then char_of (code c + 32) else c)"

lemmas ctype_defs =
  c_isupper_def c_islower_def c_isdigit_def c_isalpha_def c_isalnum_def c_isxdigit_def
  c_isspace_def c_isblank_def c_isascii_def c_isprint_def c_iscntrl_def c_isgraph_def
  c_ispunct_def c_tolower_def

section \<open>Searching in strings\<close>

text \<open>\<^verbatim>\<open>s.find(c)\<close>: the index of the first occurrence; \<^const>\<open>None\<close> is \<^verbatim>\<open>npos\<close>.\<close>

fun find_char :: "char \<Rightarrow> string \<Rightarrow> nat option" where
  "find_char c [] = None"
| "find_char c (x # xs) = (if x = c then Some 0 else map_option Suc (find_char c xs))"

text \<open>\<^verbatim>\<open>s.find_last_of(c)\<close>: the index of the last occurrence.\<close>

fun find_last_of :: "char \<Rightarrow> string \<Rightarrow> nat option" where
  "find_last_of c [] = None"
| "find_last_of c (x # xs) =
     (case find_last_of c xs of
        Some i \<Rightarrow> Some (Suc i)
      | None \<Rightarrow> (if x = c then Some 0 else None))"

lemma find_char_None_iff [simp]: "find_char c s = None \<longleftrightarrow> c \<notin> set s"
  by (induction s) auto

lemma find_char_Some_iff:
  "find_char c s = Some i \<longleftrightarrow> i < length s \<and> s ! i = c \<and> c \<notin> set (take i s)"
proof (induction s arbitrary: i)
  case (Cons x s)
  then show ?case
    by (cases i) auto
qed simp

lemma find_char_append_notin:
  "c \<notin> set xs \<Longrightarrow> find_char c (xs @ c # ys) = Some (length xs)"
  by (induction xs) auto

lemma find_last_of_None_iff [simp]: "find_last_of c s = None \<longleftrightarrow> c \<notin> set s"
  by (induction s) (auto split: option.splits)

lemma find_last_of_append_notin:
  "c \<notin> set ys \<Longrightarrow> find_last_of c (xs @ c # ys) = Some (length xs)"
  by (induction xs) (auto split: option.splits)

text \<open>The C string in a buffer: what precedes the first NUL byte.\<close>

definition c_str :: "string \<Rightarrow> string" where
  "c_str s = takeWhile (\<lambda>c. c \<noteq> NUL) s"

lemma c_str_no_NUL [simp]: "NUL \<notin> set s \<Longrightarrow> c_str s = s"
  by (auto simp: c_str_def)

section \<open>Slices\<close>

text \<open>\<^verbatim>\<open>std::string(data + b, n)\<close>.\<close>

definition slice :: "'a list \<Rightarrow> nat \<Rightarrow> nat \<Rightarrow> 'a list" where
  "slice s b n = take n (drop b s)"

lemma slice_append:
  "b \<le> c \<Longrightarrow> c \<le> d \<Longrightarrow> slice s b (c - b) @ slice s c (d - c) = slice s b (d - b)"
proof -
  assume le: "b \<le> c" "c \<le> d"
  then have "drop c s = drop (c - b) (drop b s)"
    by simp
  moreover have "d - b = (c - b) + (d - c)"
    using le by simp
  ultimately show ?thesis
    unfolding slice_def by (simp only: take_add)
qed

lemma slice_0 [simp]: "slice s b 0 = []"
  by (simp add: slice_def)

lemma slice_nth: "b < length s \<Longrightarrow> slice s b (Suc 0) = [s ! b]"
  by (simp add: slice_def take_Suc hd_drop_conv_nth)

lemma length_slice: "b + n \<le> length s \<Longrightarrow> length (slice s b n) = n"
  by (simp add: slice_def)

section \<open>Suffixes\<close>

lemma drop_split1: "i < length s \<Longrightarrow> drop i s = s ! i # drop (Suc i) s"
  by (simp add: Cons_nth_drop_Suc)

lemma drop_split2:
  "Suc i < length s \<Longrightarrow> drop i s = s ! i # s ! Suc i # drop (Suc (Suc i)) s"
  by (simp add: Cons_nth_drop_Suc)

lemma drop_split3:
  "Suc (Suc i) < length s \<Longrightarrow>
   drop i s = s ! i # s ! Suc i # s ! Suc (Suc i) # drop (Suc (Suc (Suc i))) s"
  by (simp add: Cons_nth_drop_Suc)

end
