(* ===== verification/Ascii.thy ===== *)
theory Ascii
  imports Neptune_Prelude
begin

unbundle bit_operations_syntax

text \<open>
  Character classification (\<^verbatim>\<open>src/common/encoding/ascii.h\<close>, \<^verbatim>\<open>struct Ascii\<close>). The class looks a
  byte up in a table of bit masks; the source says the table was printed by a program that
  called the functions of \<^verbatim>\<open><ctype.h>\<close>. The table is transcribed entry by entry, and the main
  lemma shows that each predicate of the class agrees with its \<^verbatim>\<open><ctype.h>\<close> function on all 256
  bytes, those above 127 included.
\<close>

section \<open>The type masks and the table\<close>

definition kUpper :: int where "kUpper = push_bit 0 1"

definition kLower :: int where "kLower = push_bit 1 1"

definition kDigit :: int where "kDigit = push_bit 2 1"

definition kHexDigit :: int where "kHexDigit = push_bit 3 1"

definition kBlank :: int where "kBlank = push_bit 4 1"

definition kSpace :: int where "kSpace = push_bit 5 1"

definition kControl :: int where "kControl = push_bit 6 1"

definition kPunct :: int where "kPunct = push_bit 7 1"

definition kPrint :: int where "kPrint = push_bit 8 1"

definition kGraph :: int where "kGraph = push_bit 9 1"

lemmas mask_defs =
  kUpper_def kLower_def kDigit_def kHexDigit_def kBlank_def kSpace_def kControl_def
  kPunct_def kPrint_def kGraph_def

text \<open>The initialiser lists the first 128 entries; the others are zero.\<close>

definition char_type_table :: "int list" where
  "char_type_table =
    [
     kControl OR 0,
     kControl OR 0,
     kControl OR 0,
     kControl OR 0,
     kControl OR 0,
     kControl OR 0,
     kControl OR 0,
     kControl OR 0,
     kControl OR 0,
     kBlank OR kSpace OR kControl OR 0,
     kSpace OR kControl OR 0,
     kSpace OR kControl OR 0,
     kSpace OR kControl OR 0,
     kSpace OR kControl OR 0,
     kControl OR 0,
     kControl OR 0,
     kControl OR 0,
     kControl OR 0,
     kControl OR 0,
     kControl OR 0,
     kControl OR 0,
     kControl OR 0,
     kControl OR 0,
     kControl OR 0,
     kControl OR 0,
     kControl OR 0,
     kControl OR 0,
     kControl OR 0,
     kControl OR 0,
     kControl OR 0,
     kControl OR 0,
     kControl OR 0,
     kBlank OR kSpace OR kPrint OR 0,
     kPunct OR kGraph OR kPrint OR 0,
     kPunct OR kGraph OR kPrint OR 0,
     kPunct OR kGraph OR kPrint OR 0,
     kPunct OR kGraph OR kPrint OR 0,
     kPunct OR kGraph OR kPrint OR 0,
     kPunct OR kGraph OR kPrint OR 0,
     kPunct OR kGraph OR kPrint OR 0,
     kPunct OR kGraph OR kPrint OR 0,
     kPunct OR kGraph OR kPrint OR 0,
     kPunct OR kGraph OR kPrint OR 0,
     kPunct OR kGraph OR kPrint OR 0,
     kPunct OR kGraph OR kPrint OR 0,
     kPunct OR kGraph OR kPrint OR 0,
     kPunct OR kGraph OR kPrint OR 0,
     kPunct OR kGraph OR kPrint OR 0,
     kDigit OR kHexDigit OR kGraph OR kPrint OR 0,
     kDigit OR kHexDigit OR kGraph OR kPrint OR 0,
     kDigit OR kHexDigit OR kGraph OR kPrint OR 0,
     kDigit OR kHexDigit OR kGraph OR kPrint OR 0,
     kDigit OR kHexDigit OR kGraph OR kPrint OR 0,
     kDigit OR kHexDigit OR kGraph OR kPrint OR 0,
     kDigit OR kHexDigit OR kGraph OR kPrint OR 0,
     kDigit OR kHexDigit OR kGraph OR kPrint OR 0,
     kDigit OR kHexDigit OR kGraph OR kPrint OR 0,
     kDigit OR kHexDigit OR kGraph OR kPrint OR 0,
     kPunct OR kGraph OR kPrint OR 0,
     kPunct OR kGraph OR kPrint OR 0,
     kPunct OR kGraph OR kPrint OR 0,
     kPunct OR kGraph OR kPrint OR 0,
     kPunct OR kGraph OR kPrint OR 0,
     kPunct OR kGraph OR kPrint OR 0,
     kPunct OR kGraph OR kPrint OR 0,
     kUpper OR kHexDigit OR kGraph OR kPrint OR 0,
     kUpper OR kHexDigit OR kGraph OR kPrint OR 0,
     kUpper OR kHexDigit OR kGraph OR kPrint OR 0,
     kUpper OR kHexDigit OR kGraph OR kPrint OR 0,
     kUpper OR kHexDigit OR kGraph OR kPrint OR 0,
     kUpper OR kHexDigit OR kGraph OR kPrint OR 0,
     kUpper OR kGraph OR kPrint OR 0,
     kUpper OR kGraph OR kPrint OR 0,
     kUpper OR kGraph OR kPrint OR 0,
     kUpper OR kGraph OR kPrint OR 0,
     kUpper OR kGraph OR kPrint OR 0,
     kUpper OR kGraph OR kPrint OR 0,
     kUpper OR kGraph OR kPrint OR 0,
     kUpper OR kGraph OR kPrint OR 0,
     kUpper OR kGraph OR kPrint OR 0,
     kUpper OR kGraph OR kPrint OR 0,
     kUpper OR kGraph OR kPrint OR 0,
     kUpper OR kGraph OR kPrint OR 0,
     kUpper OR kGraph OR kPrint OR 0,
     kUpper OR kGraph OR kPrint OR 0,
     kUpper OR kGraph OR kPrint OR 0,
     kUpper OR kGraph OR kPrint OR 0,
     kUpper OR kGraph OR kPrint OR 0,
     kUpper OR kGraph OR kPrint OR 0,
     kUpper OR kGraph OR kPrint OR 0,
     kUpper OR kGraph OR kPrint OR 0,
     kPunct OR kGraph OR kPrint OR 0,
     kPunct OR kGraph OR kPrint OR 0,
     kPunct OR kGraph OR kPrint OR 0,
     kPunct OR kGraph OR kPrint OR 0,
     kPunct OR kGraph OR kPrint OR 0,
     kPunct OR kGraph OR kPrint OR 0,
     kLower OR kHexDigit OR kGraph OR kPrint OR 0,
     kLower OR kHexDigit OR kGraph OR kPrint OR 0,
     kLower OR kHexDigit OR kGraph OR kPrint OR 0,
     kLower OR kHexDigit OR kGraph OR kPrint OR 0,
     kLower OR kHexDigit OR kGraph OR kPrint OR 0,
     kLower OR kHexDigit OR kGraph OR kPrint OR 0,
     kLower OR kGraph OR kPrint OR 0,
     kLower OR kGraph OR kPrint OR 0,
     kLower OR kGraph OR kPrint OR 0,
     kLower OR kGraph OR kPrint OR 0,
     kLower OR kGraph OR kPrint OR 0,
     kLower OR kGraph OR kPrint OR 0,
     kLower OR kGraph OR kPrint OR 0,
     kLower OR kGraph OR kPrint OR 0,
     kLower OR kGraph OR kPrint OR 0,
     kLower OR kGraph OR kPrint OR 0,
     kLower OR kGraph OR kPrint OR 0,
     kLower OR kGraph OR kPrint OR 0,
     kLower OR kGraph OR kPrint OR 0,
     kLower OR kGraph OR kPrint OR 0,
     kLower OR kGraph OR kPrint OR 0,
     kLower OR kGraph OR kPrint OR 0,
     kLower OR kGraph OR kPrint OR 0,
     kLower OR kGraph OR kPrint OR 0,
     kLower OR kGraph OR kPrint OR 0,
     kLower OR kGraph OR kPrint OR 0,
     kPunct OR kGraph OR kPrint OR 0,
     kPunct OR kGraph OR kPrint OR 0,
     kPunct OR kGraph OR kPrint OR 0,
     kPunct OR kGraph OR kPrint OR 0,
     kControl OR 0
    ] @ replicate 128 0"

definition GetCharTypeMask :: "char \<Rightarrow> int" where
  "GetCharTypeMask c = char_type_table ! code c"

definition CharIncludeAnyTypeMask :: "char \<Rightarrow> int \<Rightarrow> bool" where
  "CharIncludeAnyTypeMask c m \<longleftrightarrow> GetCharTypeMask c AND m \<noteq> 0"

definition CharIncludeAallTypeMask :: "char \<Rightarrow> int \<Rightarrow> bool" where
  "CharIncludeAallTypeMask c m \<longleftrightarrow> GetCharTypeMask c AND m = m"

section \<open>The predicates and conversions\<close>

definition Ascii_IsValid :: "char \<Rightarrow> bool" where
  "Ascii_IsValid c \<longleftrightarrow> schar c AND 0x80 = 0"

definition Ascii_IsLower :: "char \<Rightarrow> bool" where
  "Ascii_IsLower c = CharIncludeAnyTypeMask c kLower"

definition Ascii_IsUpper :: "char \<Rightarrow> bool" where
  "Ascii_IsUpper c = CharIncludeAnyTypeMask c kUpper"

definition Ascii_IsAlpha :: "char \<Rightarrow> bool" where
  "Ascii_IsAlpha c = CharIncludeAnyTypeMask c (kUpper OR kLower)"

definition Ascii_IsDigit :: "char \<Rightarrow> bool" where
  "Ascii_IsDigit c = CharIncludeAnyTypeMask c kDigit"

definition Ascii_IsAlphaNumber :: "char \<Rightarrow> bool" where
  "Ascii_IsAlphaNumber c = CharIncludeAnyTypeMask c (kUpper OR kLower OR kDigit)"

definition Ascii_IsBlank :: "char \<Rightarrow> bool" where
  "Ascii_IsBlank c = CharIncludeAnyTypeMask c kBlank"

definition Ascii_IsSpace :: "char \<Rightarrow> bool" where
  "Ascii_IsSpace c = CharIncludeAnyTypeMask c kSpace"

definition Ascii_IsControl :: "char \<Rightarrow> bool" where
  "Ascii_IsControl c = CharIncludeAnyTypeMask c kControl"

definition Ascii_IsPunct :: "char \<Rightarrow> bool" where
  "Ascii_IsPunct c = CharIncludeAnyTypeMask c kPunct"

definition Ascii_IsHexDigit :: "char \<Rightarrow> bool" where
  "Ascii_IsHexDigit c = CharIncludeAnyTypeMask c kHexDigit"

definition Ascii_IsGraph :: "char \<Rightarrow> bool" where
  "Ascii_IsGraph c = CharIncludeAnyTypeMask c kGraph"

definition Ascii_IsPrint :: "char \<Rightarrow> bool" where
  "Ascii_IsPrint c = CharIncludeAnyTypeMask c kPrint"

definition Ascii_ToAscii :: "char \<Rightarrow> char" where
  "Ascii_ToAscii c = char_of_int (schar c AND 0x7F)"

definition Ascii_ToLower :: "char \<Rightarrow> char" where
  "Ascii_ToLower c = (if Ascii_IsUpper c then char_of_int (schar c + (97 - 65)) else c)"

definition Ascii_ToUpper :: "char \<Rightarrow> char" where
  "Ascii_ToUpper c = (if Ascii_IsLower c then char_of_int (schar c - (97 - 65)) else c)"

section \<open>Evaluating the table\<close>

text \<open>
  The table as plain numbers: the equation used when a statement is checked on all bytes.
\<close>

lemma char_type_table_eval [code]:
  "char_type_table =
    [
     64, 64, 64, 64, 64, 64, 64, 64, 64, 112, 96, 96, 96, 96, 64, 64, 64, 64, 64, 64, 64, 64,
     64, 64, 64, 64, 64, 64, 64, 64, 64, 64, 304, 896, 896, 896, 896, 896, 896, 896, 896, 896,
     896, 896, 896, 896, 896, 896, 780, 780, 780, 780, 780, 780, 780, 780, 780, 780, 896, 896,
     896, 896, 896, 896, 896, 777, 777, 777, 777, 777, 777, 769, 769, 769, 769, 769, 769, 769,
     769, 769, 769, 769, 769, 769, 769, 769, 769, 769, 769, 769, 769, 896, 896, 896, 896, 896,
     896, 778, 778, 778, 778, 778, 778, 770, 770, 770, 770, 770, 770, 770, 770, 770, 770, 770,
     770, 770, 770, 770, 770, 770, 770, 770, 770, 896, 896, 896, 896, 64
    ] @ replicate 128 0"
  by (simp add: char_type_table_def mask_defs)

text \<open>The table by ranges of byte values.\<close>

definition mask_of :: "nat \<Rightarrow> int" where
  "mask_of n =
     (if n < 9 then 64 else if n = 9 then 112 else if n \<le> 13 then 96 else if n < 32 then 64
      else if n = 32 then 304 else if n < 48 then 896 else if n < 58 then 780
      else if n < 65 then 896 else if n < 71 then 777 else if n < 91 then 769
      else if n < 97 then 896 else if n < 103 then 778 else if n < 123 then 770
      else if n < 127 then 896 else if n = 127 then 64 else 0)"

lemma char_type_table_ranges: "char_type_table = map mask_of [0..<256]"
  by code_simp

lemma GetCharTypeMask_eq: "GetCharTypeMask c = mask_of (code c)"
proof -
  have "code c < length [0..<256]"
    by simp
  then show ?thesis
    unfolding GetCharTypeMask_def char_type_table_ranges by (simp only: nth_map) simp
qed

lemmas Ascii_pred_defs =
  CharIncludeAnyTypeMask_def GetCharTypeMask_eq mask_of_def mask_defs ctype_defs

text \<open>The predicates are those of \<^verbatim>\<open><ctype.h>\<close>.\<close>

lemma Ascii_IsLower_eq [char_class, code]: "Ascii_IsLower c = c_islower c"
  by (simp add: Ascii_IsLower_def Ascii_pred_defs)

lemma Ascii_IsUpper_eq [char_class, code]: "Ascii_IsUpper c = c_isupper c"
  by (simp add: Ascii_IsUpper_def Ascii_pred_defs)

lemma Ascii_IsAlpha_eq [char_class, code]: "Ascii_IsAlpha c = c_isalpha c"
  by (simp add: Ascii_IsAlpha_def Ascii_pred_defs)

lemma Ascii_IsDigit_eq [char_class, code]: "Ascii_IsDigit c = c_isdigit c"
  by (simp add: Ascii_IsDigit_def Ascii_pred_defs)

lemma Ascii_IsAlphaNumber_eq [char_class, code]: "Ascii_IsAlphaNumber c = c_isalnum c"
  by (simp add: Ascii_IsAlphaNumber_def Ascii_pred_defs)

lemma Ascii_IsBlank_eq [char_class, code]: "Ascii_IsBlank c = c_isblank c"
  by (simp add: Ascii_IsBlank_def Ascii_pred_defs)

lemma Ascii_IsSpace_eq [char_class, code]: "Ascii_IsSpace c = c_isspace c"
  by (simp add: Ascii_IsSpace_def Ascii_pred_defs)

lemma Ascii_IsControl_eq [char_class, code]: "Ascii_IsControl c = c_iscntrl c"
  by (simp add: Ascii_IsControl_def Ascii_pred_defs)

lemma Ascii_IsPunct_eq [char_class, code]: "Ascii_IsPunct c = c_ispunct c"
  by (simp add: Ascii_IsPunct_def Ascii_pred_defs)

lemma Ascii_IsHexDigit_eq [char_class, code]: "Ascii_IsHexDigit c = c_isxdigit c"
  by (simp add: Ascii_IsHexDigit_def Ascii_pred_defs)

lemma Ascii_IsGraph_eq [char_class, code]: "Ascii_IsGraph c = c_isgraph c"
  by (simp add: Ascii_IsGraph_def Ascii_pred_defs)

lemma Ascii_IsPrint_eq [char_class, code]: "Ascii_IsPrint c = c_isprint c"
  by (simp add: Ascii_IsPrint_def Ascii_pred_defs)

section \<open>Conversions\<close>

lemma code_char_of_int_schar:
  "0 \<le> schar c + d \<Longrightarrow> schar c + d < 256 \<Longrightarrow> code (char_of_int (schar c + d)) = nat (schar c + d)"
  by (simp add: char_of_int_def)

lemma code_ToLower: "code (Ascii_ToLower c) = (if c_isupper c then code c + 32 else code c)"
  using code_char_of_int_schar [of c 32]
  by (auto simp: Ascii_ToLower_def Ascii_IsUpper_eq c_isupper_def schar_def)

lemma code_ToUpper: "code (Ascii_ToUpper c) = (if c_islower c then code c - 32 else code c)"
  using code_char_of_int_schar [of c "- 32"]
  by (auto simp: Ascii_ToUpper_def Ascii_IsLower_eq c_islower_def schar_def)

lemma code_eqI: "code c = code d \<Longrightarrow> c = d"
  by simp

lemma Ascii_ToLower_eq [char_class]: "Ascii_ToLower c = c_tolower c"
  by (rule code_eqI) (simp add: code_ToLower c_tolower_def c_isupper_def)

text \<open>
  every predicate of \<^verbatim>\<open>Ascii\<close>, read off its 256-entry table of masks, is the predicate of the C
  library with the same meaning in the C locale.
\<close>

theorem Ascii_agrees_with_ctype:
  "Ascii_IsLower c = c_islower c \<and> Ascii_IsUpper c = c_isupper c \<and> Ascii_IsAlpha c = c_isalpha c \<and>
   Ascii_IsDigit c = c_isdigit c \<and> Ascii_IsAlphaNumber c = c_isalnum c \<and> Ascii_IsBlank c = c_isblank c \<and>
   Ascii_IsSpace c = c_isspace c \<and> Ascii_IsControl c = c_iscntrl c \<and> Ascii_IsPunct c = c_ispunct c \<and>
   Ascii_IsHexDigit c = c_isxdigit c \<and> Ascii_IsGraph c = c_isgraph c \<and> Ascii_IsPrint c = c_isprint c"
  by (simp add: char_class)

text \<open>
  changing the case of a letter loses nothing else: the two conversions undo each other up to
  case, leave every other byte alone and are idempotent.
\<close>

theorem Ascii_case_conversion:
  "Ascii_ToLower (Ascii_ToUpper c) = Ascii_ToLower c \<and> Ascii_ToUpper (Ascii_ToLower c) = Ascii_ToUpper c \<and>
   Ascii_ToLower (Ascii_ToLower c) = Ascii_ToLower c \<and>
   Ascii_IsAlpha (Ascii_ToLower c) = Ascii_IsAlpha c \<and>
   (Ascii_ToLower c = c \<longleftrightarrow> \<not> Ascii_IsUpper c) \<and> (Ascii_ToUpper c = c \<longleftrightarrow> \<not> Ascii_IsLower c)"
proof (intro conjI)
  show "Ascii_ToLower c = c \<longleftrightarrow> \<not> Ascii_IsUpper c" "Ascii_ToUpper c = c \<longleftrightarrow> \<not> Ascii_IsLower c"
    using code_ToLower [of c] code_ToUpper [of c]
    by (auto simp: Ascii_IsUpper_eq Ascii_IsLower_eq c_islower_def c_isupper_def intro: code_eqI)
qed (auto intro!: code_eqI simp: code_ToLower code_ToUpper Ascii_IsAlpha_eq ctype_defs)

end
