(* ===== verification/Byte_Set.thy ===== *)
theory Byte_Set
  imports Neptune_Prelude
begin

unbundle bit_operations_syntax

text \<open>
  Sets of bytes (\<^verbatim>\<open>src/common/base/string/byte_set.h\<close>, \<^verbatim>\<open>class ByteSet\<close>): a bitmap of 256 bits in an
  array of 32 bytes. The interface a client needs (what a lookup returns after an insertion or a
  removal) is the locale \<open>byte_set_ops\<close>; the bitmap operations interpret it, and the loops of the
  class (\<^verbatim>\<open>InsertString\<close>, \<^verbatim>\<open>InsertPred\<close>, \<^verbatim>\<open>Remove(const char*)\<close>) are treated through its lemmas.
\<close>

section \<open>The class\<close>

record byte_set =
  m_bitmap :: "8 word list"

text \<open>\<^verbatim>\<open>1U << (n % CHAR_BIT)\<close>, as it is used in an \<^verbatim>\<open>unsigned char\<close> cell (\<^verbatim>\<open>n % CHAR_BIT < 8\<close>).\<close>

definition cell_mask :: "char \<Rightarrow> 8 word" where
  "cell_mask n = push_bit (code n mod 8) 1"

definition ByteSet_Clear :: byte_set where
  "ByteSet_Clear = \<lparr>m_bitmap = replicate 32 0\<rparr>"

definition ByteSet_Insert :: "byte_set \<Rightarrow> char \<Rightarrow> byte_set" where
  "ByteSet_Insert s n =
     s\<lparr>m_bitmap := (m_bitmap s)[code n div 8 := m_bitmap s ! (code n div 8) OR cell_mask n]\<rparr>"

definition ByteSet_Remove :: "byte_set \<Rightarrow> char \<Rightarrow> byte_set" where
  "ByteSet_Remove s n =
     s\<lparr>m_bitmap := (m_bitmap s)[code n div 8 := m_bitmap s ! (code n div 8) AND NOT (cell_mask n)]\<rparr>"

definition ByteSet_Find :: "byte_set \<Rightarrow> char \<Rightarrow> bool" where
  "ByteSet_Find s c \<longleftrightarrow> drop_bit (code c mod 8) (m_bitmap s ! (code c div 8)) AND 1 \<noteq> 0"

text \<open>The loops \<^verbatim>\<open>for (int c = 0; c <= UCHAR_MAX; ++c)\<close>.\<close>

definition all_bytes :: "char list" where
  "all_bytes = map char_of [0..<256 :: nat]"

definition ByteSet_InsertPred :: "(char \<Rightarrow> bool) \<Rightarrow> byte_set \<Rightarrow> byte_set" where
  "ByteSet_InsertPred pred s =
     foldl (\<lambda>s c. if pred c then ByteSet_Insert s c else s) s all_bytes"

definition ByteSet_RemovePred :: "(char \<Rightarrow> bool) \<Rightarrow> byte_set \<Rightarrow> byte_set" where
  "ByteSet_RemovePred pred s =
     foldl (\<lambda>s c. if pred c then ByteSet_Remove s c else s) s all_bytes"

text \<open>The loops \<^verbatim>\<open>while (*str)\<close> stop at the terminating NUL byte.\<close>

fun ByteSet_InsertString :: "string \<Rightarrow> byte_set \<Rightarrow> byte_set" where
  "ByteSet_InsertString [] s = s"
| "ByteSet_InsertString (c # str) s =
     (if c = NUL then s else ByteSet_InsertString str (ByteSet_Insert s c))"

fun ByteSet_RemoveString :: "string \<Rightarrow> byte_set \<Rightarrow> byte_set" where
  "ByteSet_RemoveString [] s = s"
| "ByteSet_RemoveString (c # str) s =
     (if c = NUL then s else ByteSet_RemoveString str (ByteSet_Remove s c))"

text \<open>\<^verbatim>\<open>InsertBytes(begin, length)\<close> inserts every byte of the buffer.\<close>

definition ByteSet_InsertBytes :: "string \<Rightarrow> byte_set \<Rightarrow> byte_set" where
  "ByteSet_InsertBytes bs s = foldl ByteSet_Insert s bs"

definition ByteSet_of_pred :: "(char \<Rightarrow> bool) \<Rightarrow> byte_set" where
  "ByteSet_of_pred pred = ByteSet_InsertPred pred ByteSet_Clear"

definition ByteSet_of_string :: "string \<Rightarrow> byte_set" where
  "ByteSet_of_string str = ByteSet_InsertString str ByteSet_Clear"

definition ByteSet_of_bytes :: "string \<Rightarrow> byte_set" where
  "ByteSet_of_bytes bs = ByteSet_InsertBytes bs ByteSet_Clear"

definition ByteSet_or :: "byte_set \<Rightarrow> byte_set \<Rightarrow> byte_set" where
  "ByteSet_or s rhs = s\<lparr>m_bitmap := map2 (OR) (m_bitmap s) (m_bitmap rhs)\<rparr>"

definition ByteSet_and :: "byte_set \<Rightarrow> byte_set \<Rightarrow> byte_set" where
  "ByteSet_and s rhs = s\<lparr>m_bitmap := map2 (AND) (m_bitmap s) (m_bitmap rhs)\<rparr>"

definition ByteSet_or_string :: "byte_set \<Rightarrow> string \<Rightarrow> byte_set" where
  "ByteSet_or_string s rhs = ByteSet_InsertString rhs s"

text \<open>The predefined singletons.\<close>

definition SpaceSet :: byte_set where "SpaceSet = ByteSet_of_pred c_isspace"

definition BlankSet :: byte_set where "BlankSet = ByteSet_of_pred c_isblank"

definition AlphaSet :: byte_set where "AlphaSet = ByteSet_of_pred c_isalpha"

definition AlphaNumSet :: byte_set where "AlphaNumSet = ByteSet_of_pred c_isalnum"

definition AsciiSet :: byte_set where "AsciiSet = ByteSet_of_pred c_isascii"

definition HexSet :: byte_set where "HexSet = ByteSet_of_pred c_isxdigit"

definition DigitSet :: byte_set where "DigitSet = ByteSet_of_pred c_isdigit"

definition UpperSet :: byte_set where "UpperSet = ByteSet_of_pred c_isupper"

definition LowerSet :: byte_set where "LowerSet = ByteSet_of_pred c_islower"

definition PrintSet :: byte_set where "PrintSet = ByteSet_of_pred c_isprint"

section \<open>The interface\<close>

locale byte_set_ops =
  fixes empty :: 's
    and insert :: "'s \<Rightarrow> char \<Rightarrow> 's"
    and remove :: "'s \<Rightarrow> char \<Rightarrow> 's"
    and find :: "'s \<Rightarrow> char \<Rightarrow> bool"
    and invar :: "'s \<Rightarrow> bool"
  assumes invar_empty: "invar empty"
    and invar_insert: "invar s \<Longrightarrow> invar (insert s b)"
    and invar_remove: "invar s \<Longrightarrow> invar (remove s b)"
    and find_empty: "\<not> find empty c"
    and find_insert: "invar s \<Longrightarrow> find (insert s b) c \<longleftrightarrow> c = b \<or> find s c"
    and find_remove: "invar s \<Longrightarrow> find (remove s b) c \<longleftrightarrow> c \<noteq> b \<and> find s c"
begin

lemma invar_insert_all: "invar s \<Longrightarrow> invar (foldl insert s bs)"
  by (induction bs arbitrary: s) (auto simp: invar_insert)

lemma find_insert_all: "invar s \<Longrightarrow> find (foldl insert s bs) c \<longleftrightarrow> c \<in> set bs \<or> find s c"
  by (induction bs arbitrary: s) (auto simp: invar_insert find_insert)

lemma invar_remove_all: "invar s \<Longrightarrow> invar (foldl remove s bs)"
  by (induction bs arbitrary: s) (auto simp: invar_remove)

lemma find_remove_all: "invar s \<Longrightarrow> find (foldl remove s bs) c \<longleftrightarrow> c \<notin> set bs \<and> find s c"
  by (induction bs arbitrary: s) (auto simp: invar_remove find_remove)

lemma insert_pred_eq_insert_all:
  "foldl (\<lambda>s c. if pred c then insert s c else s) s cs = foldl insert s (filter pred cs)"
  by (induction cs arbitrary: s) auto

lemma remove_pred_eq_remove_all:
  "foldl (\<lambda>s c. if pred c then remove s c else s) s cs = foldl remove s (filter pred cs)"
  by (induction cs arbitrary: s) auto

end

section \<open>The bitmap implements the interface\<close>

definition bitmap_ok :: "byte_set \<Rightarrow> bool" where
  "bitmap_ok s \<longleftrightarrow> length (m_bitmap s) = 32"

lemma code_div_8 [simp]: "code c div 8 < 32"
proof -
  have "code c < 32 * 8"
    by simp
  then show ?thesis
    by (simp only: less_mult_imp_div_less)
qed

lemma code_cell_eq_iff: "code b div 8 = code c div 8 \<and> code b mod 8 = code c mod 8 \<longleftrightarrow> b = c"
  by (metis char_eq_iff_code mult_div_mod_eq)

lemma bit_cell_mask: "bit (cell_mask b) n \<longleftrightarrow> n = code b mod 8"
  by (auto simp: cell_mask_def bit_simps)

lemma ByteSet_Find_bit: "ByteSet_Find s c \<longleftrightarrow> bit (m_bitmap s ! (code c div 8)) (code c mod 8)"
proof -
  have "ByteSet_Find s c \<longleftrightarrow> odd (drop_bit (code c mod 8) (m_bitmap s ! (code c div 8)))"
    by (simp add: ByteSet_Find_def and_one_eq odd_iff_mod_2_eq_one)
  then show ?thesis
    by (simp only: bit_iff_odd_drop_bit)
qed

lemma ByteSet_Find_Insert:
  "bitmap_ok s \<Longrightarrow> ByteSet_Find (ByteSet_Insert s b) c \<longleftrightarrow> c = b \<or> ByteSet_Find s c"
  using code_cell_eq_iff [of b c]
  by (auto simp: ByteSet_Find_bit ByteSet_Insert_def bitmap_ok_def nth_list_update bit_or_iff
      bit_cell_mask)

lemma ByteSet_Find_Remove:
  "bitmap_ok s \<Longrightarrow> ByteSet_Find (ByteSet_Remove s b) c \<longleftrightarrow> c \<noteq> b \<and> ByteSet_Find s c"
  using code_cell_eq_iff [of b c]
  by (auto simp: ByteSet_Find_bit ByteSet_Remove_def bitmap_ok_def nth_list_update bit_and_iff
      bit_not_iff bit_cell_mask)

interpretation bs: byte_set_ops ByteSet_Clear ByteSet_Insert ByteSet_Remove ByteSet_Find bitmap_ok
proof
  show "bitmap_ok ByteSet_Clear"
    by (simp add: bitmap_ok_def ByteSet_Clear_def)
  show "bitmap_ok (ByteSet_Insert s b)" if "bitmap_ok s" for s b
    using that by (simp add: bitmap_ok_def ByteSet_Insert_def)
  show "bitmap_ok (ByteSet_Remove s b)" if "bitmap_ok s" for s b
    using that by (simp add: bitmap_ok_def ByteSet_Remove_def)
  show "\<not> ByteSet_Find ByteSet_Clear c" for c
    by (simp add: ByteSet_Find_bit ByteSet_Clear_def)
qed (auto simp: ByteSet_Find_Insert ByteSet_Find_Remove)

section \<open>The derived operations\<close>

lemma set_all_bytes [simp]: "set all_bytes = UNIV"
proof -
  have "c \<in> set all_bytes" for c
  proof -
    have "c = char_of (code c)" "code c \<in> set [0..<256]"
      by simp_all
    then show ?thesis
      unfolding all_bytes_def set_map by (rule image_eqI)
  qed
  then show ?thesis
    by blast
qed

lemma ByteSet_InsertPred_eq:
  "ByteSet_InsertPred pred s = foldl ByteSet_Insert s (filter pred all_bytes)"
  unfolding ByteSet_InsertPred_def by (rule bs.insert_pred_eq_insert_all)

lemma ByteSet_RemovePred_eq:
  "ByteSet_RemovePred pred s = foldl ByteSet_Remove s (filter pred all_bytes)"
  unfolding ByteSet_RemovePred_def by (rule bs.remove_pred_eq_remove_all)

lemma ByteSet_InsertString_eq: "ByteSet_InsertString str s = foldl ByteSet_Insert s (c_str str)"
  by (induction str arbitrary: s) (auto simp: c_str_def)

lemma ByteSet_RemoveString_eq: "ByteSet_RemoveString str s = foldl ByteSet_Remove s (c_str str)"
  by (induction str arbitrary: s) (auto simp: c_str_def)

lemmas ByteSet_fold_eqs =
  ByteSet_InsertPred_eq ByteSet_RemovePred_eq ByteSet_InsertString_eq ByteSet_RemoveString_eq
  ByteSet_InsertBytes_def ByteSet_or_string_def ByteSet_of_pred_def ByteSet_of_string_def
  ByteSet_of_bytes_def

lemma nth_map2_32:
  "length xs = 32 \<Longrightarrow> length ys = 32 \<Longrightarrow> i < 32 \<Longrightarrow> map2 f xs ys ! i = f (xs ! i) (ys ! i)"
  by simp

lemma bitmap_ok_or [simp]: "bitmap_ok s \<Longrightarrow> bitmap_ok t \<Longrightarrow> bitmap_ok (ByteSet_or s t)"
  by (simp add: bitmap_ok_def ByteSet_or_def)

lemma bitmap_ok_and [simp]: "bitmap_ok s \<Longrightarrow> bitmap_ok t \<Longrightarrow> bitmap_ok (ByteSet_and s t)"
  by (simp add: bitmap_ok_def ByteSet_and_def)

lemma bitmap_ok_derived [simp]:
  "bitmap_ok s \<Longrightarrow> bitmap_ok (ByteSet_InsertPred pred s)"
  "bitmap_ok s \<Longrightarrow> bitmap_ok (ByteSet_RemovePred pred s)"
  "bitmap_ok s \<Longrightarrow> bitmap_ok (ByteSet_InsertString str s)"
  "bitmap_ok s \<Longrightarrow> bitmap_ok (ByteSet_RemoveString str s)"
  "bitmap_ok s \<Longrightarrow> bitmap_ok (ByteSet_InsertBytes str s)"
  "bitmap_ok s \<Longrightarrow> bitmap_ok (ByteSet_or_string s str)"
  "bitmap_ok (ByteSet_of_pred pred)"
  "bitmap_ok (ByteSet_of_string str)"
  "bitmap_ok (ByteSet_of_bytes str)"
  by (simp_all add: ByteSet_fold_eqs bs.invar_insert_all bs.invar_remove_all bs.invar_empty)

lemma Find_or [char_class]:
  "bitmap_ok s \<Longrightarrow> bitmap_ok t \<Longrightarrow>
   ByteSet_Find (ByteSet_or s t) c \<longleftrightarrow> ByteSet_Find s c \<or> ByteSet_Find t c"
  by (simp add: bitmap_ok_def ByteSet_Find_bit ByteSet_or_def nth_map2_32 bit_or_iff)

lemma Find_and [char_class]:
  "bitmap_ok s \<Longrightarrow> bitmap_ok t \<Longrightarrow>
   ByteSet_Find (ByteSet_and s t) c \<longleftrightarrow> ByteSet_Find s c \<and> ByteSet_Find t c"
  by (simp add: bitmap_ok_def ByteSet_Find_bit ByteSet_and_def nth_map2_32 bit_and_iff)

lemma Find_derived [char_class]:
  "bitmap_ok s \<Longrightarrow> ByteSet_Find (ByteSet_InsertPred pred s) c \<longleftrightarrow> pred c \<or> ByteSet_Find s c"
  "bitmap_ok s \<Longrightarrow> ByteSet_Find (ByteSet_RemovePred pred s) c \<longleftrightarrow> \<not> pred c \<and> ByteSet_Find s c"
  "bitmap_ok s \<Longrightarrow> ByteSet_Find (ByteSet_InsertString str s) c \<longleftrightarrow> c \<in> set (c_str str) \<or> ByteSet_Find s c"
  "bitmap_ok s \<Longrightarrow> ByteSet_Find (ByteSet_RemoveString str s) c \<longleftrightarrow> c \<notin> set (c_str str) \<and> ByteSet_Find s c"
  "bitmap_ok s \<Longrightarrow> ByteSet_Find (ByteSet_InsertBytes str s) c \<longleftrightarrow> c \<in> set str \<or> ByteSet_Find s c"
  "bitmap_ok s \<Longrightarrow> ByteSet_Find (ByteSet_or_string s str) c \<longleftrightarrow> c \<in> set (c_str str) \<or> ByteSet_Find s c"
  "ByteSet_Find (ByteSet_of_pred pred) c \<longleftrightarrow> pred c"
  "ByteSet_Find (ByteSet_of_string str) c \<longleftrightarrow> c \<in> set (c_str str)"
  "ByteSet_Find (ByteSet_of_bytes str) c \<longleftrightarrow> c \<in> set str"
  by (simp_all add: ByteSet_fold_eqs bs.find_insert_all bs.find_remove_all bs.invar_empty bs.find_empty)

lemmas singleton_defs =
  SpaceSet_def BlankSet_def AlphaSet_def AlphaNumSet_def AsciiSet_def HexSet_def DigitSet_def
  UpperSet_def LowerSet_def PrintSet_def

lemma Find_singletons [char_class, simp]:
  "ByteSet_Find SpaceSet c = c_isspace c" "ByteSet_Find BlankSet c = c_isblank c"
  "ByteSet_Find AlphaSet c = c_isalpha c" "ByteSet_Find AlphaNumSet c = c_isalnum c"
  "ByteSet_Find AsciiSet c = c_isascii c" "ByteSet_Find HexSet c = c_isxdigit c"
  "ByteSet_Find DigitSet c = c_isdigit c" "ByteSet_Find UpperSet c = c_isupper c"
  "ByteSet_Find LowerSet c = c_islower c" "ByteSet_Find PrintSet c = c_isprint c"
  by (simp_all add: singleton_defs Find_derived)

lemma bitmap_ok_singletons [simp]:
  "bitmap_ok SpaceSet" "bitmap_ok BlankSet" "bitmap_ok AlphaSet" "bitmap_ok AlphaNumSet"
  "bitmap_ok AsciiSet" "bitmap_ok HexSet" "bitmap_ok DigitSet" "bitmap_ok UpperSet"
  "bitmap_ok LowerSet" "bitmap_ok PrintSet"
  by (simp_all add: singleton_defs)

section \<open>Refinement of sets\<close>

definition bytes_of :: "byte_set \<Rightarrow> char set" where
  "bytes_of s = {c. ByteSet_Find s c}"

text \<open>
  C16: every operation of the class, on a bitmap of the right length, keeps that length and does
  on the represented set what its name says: insertion and removal of one byte, of the bytes
  that satisfy a predicate, of the bytes of a C string up to its NUL, and of a whole buffer,
  union (with a set or a C string) and intersection. \<^verbatim>\<open>Clear\<close> leaves the empty set, and the constructors from a
  predicate, a C string and a buffer make the set of the bytes these contain.
\<close>

theorem ByteSet_refines_set:
  assumes "bitmap_ok s" and "bitmap_ok t"
  shows "bitmap_ok (ByteSet_Insert s b) \<and> bytes_of (ByteSet_Insert s b) = insert b (bytes_of s) \<and>
    bitmap_ok (ByteSet_Remove s b) \<and> bytes_of (ByteSet_Remove s b) = bytes_of s - {b} \<and>
    bitmap_ok (ByteSet_InsertPred pred s) \<and>
    bytes_of (ByteSet_InsertPred pred s) = bytes_of s \<union> {c. pred c} \<and>
    bitmap_ok (ByteSet_RemovePred pred s) \<and>
    bytes_of (ByteSet_RemovePred pred s) = bytes_of s - {c. pred c} \<and>
    bitmap_ok (ByteSet_InsertString str s) \<and>
    bytes_of (ByteSet_InsertString str s) = bytes_of s \<union> set (c_str str) \<and>
    bitmap_ok (ByteSet_RemoveString str s) \<and>
    bytes_of (ByteSet_RemoveString str s) = bytes_of s - set (c_str str) \<and>
    bitmap_ok (ByteSet_InsertBytes str s) \<and>
    bytes_of (ByteSet_InsertBytes str s) = bytes_of s \<union> set str \<and>
    bitmap_ok (ByteSet_or s t) \<and> bytes_of (ByteSet_or s t) = bytes_of s \<union> bytes_of t \<and>
    bitmap_ok (ByteSet_and s t) \<and> bytes_of (ByteSet_and s t) = bytes_of s \<inter> bytes_of t \<and>
    bitmap_ok (ByteSet_or_string s str) \<and> bytes_of (ByteSet_or_string s str) = bytes_of s \<union> set (c_str str) \<and>
    bitmap_ok ByteSet_Clear \<and> bytes_of ByteSet_Clear = {} \<and>
    bitmap_ok (ByteSet_of_pred pred) \<and> bytes_of (ByteSet_of_pred pred) = {c. pred c} \<and>
    bitmap_ok (ByteSet_of_string str) \<and> bytes_of (ByteSet_of_string str) = set (c_str str) \<and>
    bitmap_ok (ByteSet_of_bytes str) \<and> bytes_of (ByteSet_of_bytes str) = set str"
  using assms
  by (auto simp: bytes_of_def Find_derived Find_or Find_and ByteSet_Find_Insert
      ByteSet_Find_Remove bs.invar_insert bs.invar_remove bs.invar_empty bs.find_empty)

theorem ByteSet_refines_set_witness:
  "bitmap_ok DigitSet \<and> bitmap_ok UpperSet \<and>
   bytes_of (ByteSet_or DigitSet UpperSet) = bytes_of DigitSet \<union> bytes_of UpperSet \<and>
   bytes_of (ByteSet_Insert DigitSet CHR ''%'') = insert CHR ''%'' (bytes_of DigitSet)"
  using ByteSet_refines_set [OF bitmap_ok_singletons(7) bitmap_ok_singletons(8)]
  by simp

end
