(* ===== verification/Percent.thy ===== *)
theory Percent
  imports Ascii Byte_Set
begin

unbundle bit_operations_syntax

text \<open>
  Percent encoding (\<^verbatim>\<open>src/common/encoding/percent.cpp\<close>, \<^verbatim>\<open>struct PercentEncoding\<close>): three encoders
  that differ in the bytes they leave unchanged, a decoder that appends to a string, and a
  decoder that works in place. The decoders are modelled with their index arithmetic, so that
  the read past the end of a truncated escape is visible; both are related to one structural
  reference decoder, \<open>pct_decode\<close>. What makes an alphabet of unchanged bytes invertible is the
  locale \<open>percent_alphabet\<close>.
\<close>

section \<open>Helpers\<close>

definition CharToHex :: "nat \<Rightarrow> char" where
  "CharToHex x = ''0123456789ABCDEF'' ! x"

definition HexValue :: "char \<Rightarrow> int" where
  "HexValue x =
     (let X = Ascii_ToUpper x
      in if Ascii_IsDigit X then int (code X) - 48 else int (code X) - 65 + 10)"

text \<open>\<^verbatim>\<open>ch = (HexValue(a) << 4); ch |= HexValue(b);\<close> in an \<^verbatim>\<open>uint8_t\<close>.\<close>

definition hex_pair :: "char \<Rightarrow> char \<Rightarrow> char" where
  "hex_pair a b =
     char_of (unat (word_of_int (push_bit 4 (HexValue a)) OR word_of_int (HexValue b) :: 8 word))"

fun DoEncodeAppend :: "string \<Rightarrow> byte_set \<Rightarrow> string \<Rightarrow> string" where
  "DoEncodeAppend [] unchanged output = output"
| "DoEncodeAppend (c # input) unchanged output =
     (if ByteSet_Find unchanged c then DoEncodeAppend input unchanged (output @ [c])
      else DoEncodeAppend input unchanged
             (output @ [CHR ''%'', CharToHex (code c div 16), CharToHex (code c mod 16)]))"

section \<open>Encoders\<close>

definition escape_unchanged :: byte_set where
  "escape_unchanged = ByteSet_of_string
     ''ABCDEFGHIJKLMNOPQRSTUVWXYZabcdefghijklmnopqrstuvwxyz0123456789*+-./@_''"

definition PercentEncoding_EncodeAppend :: "string \<Rightarrow> string \<Rightarrow> string" where
  "PercentEncoding_EncodeAppend input output = DoEncodeAppend input escape_unchanged output"

definition PercentEncoding_EncodeTo :: "string \<Rightarrow> string \<Rightarrow> string" where
  "PercentEncoding_EncodeTo input output = PercentEncoding_EncodeAppend input []"

definition PercentEncoding_Encode :: "string \<Rightarrow> string" where
  "PercentEncoding_Encode input = PercentEncoding_EncodeAppend input []"

text \<open>The overload \<^verbatim>\<open>Encode(std::string*)\<close>: the new value of the string.\<close>

definition PercentEncoding_Encode_inplace :: "string \<Rightarrow> string" where
  "PercentEncoding_Encode_inplace str = (let tmp = PercentEncoding_EncodeAppend str [] in tmp)"

definition uri_unchanged :: byte_set where
  "uri_unchanged = ByteSet_of_string
     ''ABCDEFGHIJKLMNOPQRSTUVWXYZabcdefghijklmnopqrstuvwxyz0123456789!#$&'()*+,-./:;=?@_~''"

definition PercentEncoding_EncodeUriAppend :: "string \<Rightarrow> string \<Rightarrow> string" where
  "PercentEncoding_EncodeUriAppend input output = DoEncodeAppend input uri_unchanged output"

definition PercentEncoding_EncodeUriTo :: "string \<Rightarrow> string \<Rightarrow> string" where
  "PercentEncoding_EncodeUriTo input output = PercentEncoding_EncodeUriAppend input []"

definition PercentEncoding_EncodeUri :: "string \<Rightarrow> string" where
  "PercentEncoding_EncodeUri input = PercentEncoding_EncodeUriAppend input []"

definition PercentEncoding_EncodeUri_inplace :: "string \<Rightarrow> string" where
  "PercentEncoding_EncodeUri_inplace str =
     (let tmp = PercentEncoding_EncodeUriAppend str [] in tmp)"

definition component_unchanged :: byte_set where
  "component_unchanged = ByteSet_of_string
     ''ABCDEFGHIJKLMNOPQRSTUVWXYZabcdefghijklmnopqrstuvwxyz0123456789!'()*-._~''"

definition PercentEncoding_EncodeUriComponentAppend :: "string \<Rightarrow> string \<Rightarrow> string" where
  "PercentEncoding_EncodeUriComponentAppend input output =
     DoEncodeAppend input component_unchanged output"

definition PercentEncoding_EncodeUriComponentTo :: "string \<Rightarrow> string \<Rightarrow> string" where
  "PercentEncoding_EncodeUriComponentTo input output =
     PercentEncoding_EncodeUriComponentAppend input []"

definition PercentEncoding_EncodeUriComponent :: "string \<Rightarrow> string" where
  "PercentEncoding_EncodeUriComponent input = PercentEncoding_EncodeUriComponentAppend input []"

definition PercentEncoding_EncodeUriComponent_inplace :: "string \<Rightarrow> string" where
  "PercentEncoding_EncodeUriComponent_inplace str =
     (let tmp = PercentEncoding_EncodeUriComponentAppend str [] in tmp)"

section \<open>Decoders\<close>

text \<open>
  \<^verbatim>\<open>DecodeAppend\<close>: the loop at index \<open>i\<close>. It returns the success flag and the output string,
  which keeps what was decoded before a failure. The guard \<^verbatim>\<open>i + 2 > input.size()\<close> lets \<^verbatim>\<open>i + 2\<close>
  be the size, so the read of \<^verbatim>\<open>input[i + 2]\<close> is checked here.
\<close>

function DecodeAppend_loop :: "string \<Rightarrow> nat \<Rightarrow> string \<Rightarrow> (bool \<times> string) result" where
  "DecodeAppend_loop input i output =
     (if i < length input then
        if input ! i = CHR ''%'' then
          if i + 2 > length input then Inr (False, output)
          else
            (case checked_nth input (i + 1) of
               Inl e \<Rightarrow> Inl e
             | Inr a \<Rightarrow>
                 if \<not> Ascii_IsHexDigit a then Inr (False, output)
                 else
                   (case checked_nth input (i + 2) of
                      Inl e \<Rightarrow> Inl e
                    | Inr b \<Rightarrow>
                        if \<not> Ascii_IsHexDigit b then Inr (False, output)
                        else DecodeAppend_loop input (i + 2 + 1) (output @ [hex_pair a b])))
        else if input ! i = CHR ''+'' then DecodeAppend_loop input (i + 1) (output @ '' '')
        else DecodeAppend_loop input (i + 1) (output @ [input ! i])
      else Inr (True, output))"
  by pat_completeness auto
termination
  by (relation "measure (\<lambda>(input, i, output). length input - i)") auto

declare DecodeAppend_loop.simps [simp del]

definition PercentEncoding_DecodeAppend :: "string \<Rightarrow> string \<Rightarrow> (bool \<times> string) result" where
  "PercentEncoding_DecodeAppend input output = DecodeAppend_loop input 0 output"

definition PercentEncoding_DecodeTo :: "string \<Rightarrow> string \<Rightarrow> (bool \<times> string) result" where
  "PercentEncoding_DecodeTo input output = PercentEncoding_DecodeAppend input []"

text \<open>
  \<^verbatim>\<open>Decode(std::string*)\<close> reads at \<open>i\<close> and writes at \<open>write_pos\<close> in the same string. Reading
  \<^verbatim>\<open>s[s.size()]\<close> of a \<^verbatim>\<open>std::string\<close> gives NUL.
\<close>

definition string_at :: "string \<Rightarrow> nat \<Rightarrow> char" where
  "string_at s i = (if i < length s then s ! i else NUL)"

function Decode_loop :: "string \<Rightarrow> nat \<Rightarrow> nat \<Rightarrow> bool \<times> string" where
  "Decode_loop s i write_pos =
     (if i < length s then
        if s ! i = CHR ''%'' then
          if i + 2 > length s then (False, s)
          else if \<not> Ascii_IsHexDigit (string_at s (i + 1)) \<or> \<not> Ascii_IsHexDigit (string_at s (i + 2))
          then (False, s)
          else Decode_loop (s[write_pos := hex_pair (string_at s (i + 1)) (string_at s (i + 2))])
                 (i + 2 + 1) (write_pos + 1)
        else if s ! i = CHR ''+'' then Decode_loop (s[write_pos := CHR '' '']) (i + 1) (write_pos + 1)
        else Decode_loop (s[write_pos := s ! i]) (i + 1) (write_pos + 1)
      else (True, take write_pos s))"
  by pat_completeness auto
termination
  by (relation "measure (\<lambda>(s, i, write_pos). length s - i)") auto

declare Decode_loop.simps [simp del]

definition PercentEncoding_Decode :: "string \<Rightarrow> bool \<times> string" where
  "PercentEncoding_Decode str = Decode_loop str 0 0"

section \<open>The reference codec\<close>

fun pct_encode :: "(char \<Rightarrow> bool) \<Rightarrow> string \<Rightarrow> string" where
  "pct_encode safe [] = []"
| "pct_encode safe (c # cs) =
     (if safe c then [c] else [CHR ''%'', CharToHex (code c div 16), CharToHex (code c mod 16)])
     @ pct_encode safe cs"

fun pct_decode :: "string \<Rightarrow> string option" where
  "pct_decode [] = Some []"
| "pct_decode (c # cs) =
     (if c = CHR ''%'' then
        (case cs of
           a # b # r \<Rightarrow>
             if c_isxdigit a \<and> c_isxdigit b then map_option ((#) (hex_pair a b)) (pct_decode r) else None
         | _ \<Rightarrow> None)
      else map_option ((#) (if c = CHR ''+'' then CHR '' '' else c)) (pct_decode cs))"

text \<open>What is decoded before the first bad escape.\<close>

fun pct_prefix :: "string \<Rightarrow> string" where
  "pct_prefix [] = []"
| "pct_prefix (c # cs) =
     (if c = CHR ''%'' then
        (case cs of
           a # b # r \<Rightarrow> if c_isxdigit a \<and> c_isxdigit b then hex_pair a b # pct_prefix r else []
         | _ \<Rightarrow> [])
      else (if c = CHR ''+'' then CHR '' '' else c) # pct_prefix cs)"

text \<open>A truncated escape at the end of the input: \<^verbatim>\<open>%\<close> and one hexadecimal digit.\<close>

fun truncated :: "string \<Rightarrow> bool" where
  "truncated [] = False"
| "truncated (c # cs) =
     (if c = CHR ''%'' then
        (case cs of
           [] \<Rightarrow> False
         | [a] \<Rightarrow> c_isxdigit a
         | a # b # r \<Rightarrow> c_isxdigit a \<and> c_isxdigit b \<and> truncated r)
      else truncated cs)"

lemma DoEncodeAppend_eq:
  "DoEncodeAppend input unchanged out = out @ pct_encode (ByteSet_Find unchanged) input"
  by (induction input arbitrary: out) auto

lemma escape_cases:
  obtains (none) "cs = []" | (one) a where "cs = [a]" | (more) a b r where "cs = a # b # r"
  by (metis neq_Nil_conv)

lemma pct_decode_eq:
  "pct_decode s = Some t \<Longrightarrow> pct_prefix s = t \<and> \<not> truncated s"
proof (induction s arbitrary: t rule: pct_decode.induct)
  case (2 c cs)
  show ?case
  proof (cases "c = CHR ''%''")
    case True
    then show ?thesis
      using 2 by (cases cs rule: escape_cases) (auto split: if_splits)
  next
    case False
    then show ?thesis
      using 2 by auto
  qed
qed simp

lemma truncated_not_decoded: "truncated s \<Longrightarrow> pct_decode s = None"
  using pct_decode_eq by (cases "pct_decode s") auto

lemma DecodeAppend_loop_eq:
  "DecodeAppend_loop s i out =
     (if truncated (drop i s) then Inl Out_of_bounds
      else Inr (pct_decode (drop i s) \<noteq> None, out @ pct_prefix (drop i s)))"
proof (induction s i out rule: DecodeAppend_loop.induct)
  case (1 s i out)
  consider "i \<ge> length s" | "i < length s" "s ! i \<noteq> CHR ''%''"
    | "s ! i = CHR ''%''" "i + 1 = length s"
    | "s ! i = CHR ''%''" "i + 2 = length s"
    | "s ! i = CHR ''%''" "i + 2 < length s"
    by linarith
  then show ?case
  proof cases
    case 1
    then show ?thesis
      by (simp add: DecodeAppend_loop.simps)
  next
    case 2
    from 2 "1.IH"(2,3) show ?thesis
      by (simp add: DecodeAppend_loop.simps [of s i out] drop_split1 [of i s])
  next
    case 3
    then have d: "drop i s = [CHR ''%'']"
      by (simp add: drop_split1 [of i s])
    from 3 show ?thesis
      by (simp add: DecodeAppend_loop.simps [of s i out] d)
  next
    case 4
    then have d: "drop i s = [CHR ''%'', s ! Suc i]"
      by (simp add: drop_split2 [of i s])
    from 4 show ?thesis
      by (simp add: DecodeAppend_loop.simps [of s i out] d checked_nth_def Ascii_IsHexDigit_eq)
  next
    case 5
    then have d: "drop i s = CHR ''%'' # s ! Suc i # s ! Suc (Suc i) # drop (Suc (Suc (Suc i))) s"
      by (simp add: drop_split3 [of i s])
    let ?out = "out @ [hex_pair (s ! Suc i) (s ! Suc (Suc i))]"
    have ih: "DecodeAppend_loop s (Suc (Suc (Suc i))) ?out =
      (if truncated (drop (Suc (Suc (Suc i))) s) then Inl Out_of_bounds
       else Inr (pct_decode (drop (Suc (Suc (Suc i))) s) \<noteq> None,
         ?out @ pct_prefix (drop (Suc (Suc (Suc i))) s)))"
      if "c_isxdigit (s ! Suc i)" "c_isxdigit (s ! Suc (Suc i))"
      using "1.IH"(1) [of "s ! Suc i" "s ! Suc (Suc i)"] 5 that
      by (simp add: checked_nth_def Ascii_IsHexDigit_eq del: if_split)
    from 5 show ?thesis
      by (simp add: DecodeAppend_loop.simps [of s i out] d checked_nth_def Ascii_IsHexDigit_eq ih)
  qed
qed

lemma Decode_loop_decoded:
  "w \<le> i \<Longrightarrow> i \<le> length s \<Longrightarrow> pct_decode (drop i s) = Some t \<Longrightarrow>
   Decode_loop s i w = (True, take w s @ t)"
proof (induction s i w arbitrary: t rule: Decode_loop.induct)
  case (1 s i w)
  have upd: "w < k \<Longrightarrow> drop k (s[w := x]) = drop k s"
    "w < length s \<Longrightarrow> take (Suc w) (s[w := x]) = take w s @ [x]" for k x
    by (simp_all add: take_Suc_conv_app_nth)
  consider "i = length s" | "i < length s" "s ! i \<noteq> CHR ''%''"
    | "s ! i = CHR ''%''" "i + 1 = length s" 
    | "s ! i = CHR ''%''" "i + 2 = length s" 
    | "s ! i = CHR ''%''" "i + 2 < length s"
    using "1.prems" by linarith
  then show ?case
  proof cases
    case 1
    with "1.prems" show ?thesis
      by (simp add: Decode_loop.simps)
  next
    case 2
    let ?x = "if s ! i = CHR ''+'' then CHR '' '' else s ! i"
    from 2 "1.prems"(3) obtain t' where t': "pct_decode (drop (Suc i) s) = Some t'" "t = ?x # t'"
      by (auto simp: drop_split1 [of i s])
    have "Decode_loop (s[w := ?x]) (Suc i) (Suc w) = (True, take (Suc w) (s[w := ?x]) @ t')"
      using 2 "1.prems" "1.IH"(2,3) [of t'] t'(1) by (simp add: upd split: if_splits)
    with 2 "1.prems" t'(2) show ?thesis
      by (simp add: Decode_loop.simps [of s i w] upd split: if_splits)
  next
    case 3
    with "1.prems" show ?thesis
      by (simp add: drop_split1 [of i s])
  next
    case 4
    with "1.prems" show ?thesis
      by (simp add: drop_split2 [of i s])
  next
    case 5
    then have d: "drop i s = CHR ''%'' # s ! Suc i # s ! Suc (Suc i) # drop (Suc (Suc (Suc i))) s"
      by (simp add: drop_split3 [of i s])
    from d 5 "1.prems"(3) obtain t' where hex: "c_isxdigit (s ! Suc i)" "c_isxdigit (s ! Suc (Suc i))"
      and t': "pct_decode (drop (Suc (Suc (Suc i))) s) = Some t'"
        "t = hex_pair (s ! Suc i) (s ! Suc (Suc i)) # t'"
      by (auto split: if_splits)
    let ?x = "hex_pair (s ! Suc i) (s ! Suc (Suc i))"
    have "Decode_loop (s[w := ?x]) (Suc (Suc (Suc i))) (Suc w) = (True, take (Suc w) (s[w := ?x]) @ t')"
      using 5 hex t'(1) "1.prems" "1.IH"(1) [of t'] by (simp add: string_at_def Ascii_IsHexDigit_eq upd)
    with 5 hex t'(2) "1.prems" show ?thesis
      by (simp add: Decode_loop.simps [of s i w] string_at_def Ascii_IsHexDigit_eq upd)
  qed
qed

lemma Decode_loop_rejected:
  "w \<le> i \<Longrightarrow> i \<le> length s \<Longrightarrow> pct_decode (drop i s) = None \<Longrightarrow> \<not> fst (Decode_loop s i w)"
proof (induction s i w rule: Decode_loop.induct)
  case (1 s i w)
  have upd: "drop k (s[w := x]) = drop k s" if "w < k" for k x
    using that by simp
  consider "i = length s" | "i < length s" "s ! i \<noteq> CHR ''%''"
    | "s ! i = CHR ''%''" "i + 1 = length s" 
    | "s ! i = CHR ''%''" "i + 2 = length s" 
    | "s ! i = CHR ''%''" "i + 2 < length s"
    using "1.prems" by linarith
  then show ?case
  proof cases
    case 1
    with "1.prems" show ?thesis
      by simp
  next
    case 2
    with "1.prems" "1.IH"(2,3) show ?thesis
      by (auto simp: Decode_loop.simps [of s i w] drop_split1 [of i s] upd)
  next
    case 3
    then show ?thesis
      by (simp add: Decode_loop.simps [of s i w])
  next
    case 4
    then show ?thesis
      by (simp add: Decode_loop.simps [of s i w] string_at_def Ascii_IsHexDigit_eq ctype_defs)
  next
    case 5
    then have d: "drop i s = CHR ''%'' # s ! Suc i # s ! Suc (Suc i) # drop (Suc (Suc (Suc i))) s"
      by (simp add: drop_split3 [of i s])
    from 5 "1.prems" "1.IH"(1) show ?thesis
      by (auto simp: Decode_loop.simps [of s i w] string_at_def Ascii_IsHexDigit_eq upd d split: if_splits)
  qed
qed

lemma CharToHex_digit:
  assumes "x < 16"
  shows "c_isxdigit (CharToHex x) \<and> HexValue (CharToHex x) = int x"
proof -
  from assms have "x = 0 \<or> x = 1 \<or> x = 2 \<or> x = 3 \<or> x = 4 \<or> x = 5 \<or> x = 6 \<or> x = 7 \<or>
    x = 8 \<or> x = 9 \<or> x = 10 \<or> x = 11 \<or> x = 12 \<or> x = 13 \<or> x = 14 \<or> x = 15"
    by arith
  then show ?thesis
    by (elim disjE)
      (simp_all add: CharToHex_def HexValue_def Ascii_ToUpper_def Ascii_IsLower_eq Ascii_IsDigit_eq ctype_defs)
qed

lemma hex_pair_eq:
  assumes "0 \<le> HexValue a" "HexValue a < 16" "0 \<le> HexValue b" "HexValue b < 16"
  shows "hex_pair a b = char_of (nat (16 * HexValue a + HexValue b))"
proof -
  let ?a = "HexValue a" and ?b = "HexValue b"
  have b: "take_bit 4 ?b = ?b"
    using assms by (simp add: take_bit_int_eq_self)
  have "push_bit 4 ?a OR ?b = concat_bit 4 ?b ?a"
    by (simp add: concat_bit_def b or.commute)
  also have "\<dots> = 16 * ?a + ?b"
    by (simp add: concat_bit_eq b push_bit_eq_mult)
  finally have eq: "push_bit 4 ?a OR ?b = 16 * ?a + ?b" .
  have "(word_of_int (push_bit 4 ?a) OR word_of_int ?b :: 8 word) = word_of_int (push_bit 4 ?a OR ?b)"
    by (rule bit_word_eqI) (simp add: bit_simps)
  moreover have u: "uint (word_of_int (16 * ?a + ?b) :: 8 word) = 16 * ?a + ?b"
    by (rule uint_byte) (use assms in linarith)+
  ultimately have "unat (word_of_int (push_bit 4 ?a) OR word_of_int ?b :: 8 word) = nat (16 * ?a + ?b)"
    by (simp only: eq unat_eq_nat_uint u)
  then show ?thesis
    by (simp add: hex_pair_def)
qed

lemma code_div_16: "code c div 16 < 16"
proof -
  have "code c < 16 * 16"
    by simp
  then show ?thesis
    by (simp only: less_mult_imp_div_less)
qed

lemma hex_pair_CharToHex:
  "hex_pair (CharToHex (code c div 16)) (CharToHex (code c mod 16)) = c"
proof -
  have h: "HexValue (CharToHex (code c div 16)) = int (code c div 16)"
    using CharToHex_digit code_div_16 by blast
  have l: "HexValue (CharToHex (code c mod 16)) = int (code c mod 16)"
    using CharToHex_digit [of "code c mod 16"] by simp
  have "nat (16 * int (code c div 16) + int (code c mod 16)) = code c"
    by (simp flip: of_nat_mult of_nat_add add: zdiv_int zmod_int)
  then show ?thesis
    using code_div_16 [of c] by (simp add: hex_pair_eq h l)
qed
section \<open>Alphabets\<close>

text \<open>
  An alphabet of unchanged bytes can be decoded unambiguously when it does not contain the
  escape character; it can be decoded to the original when it does not contain the plus sign
  either, which the decoders turn into a space.
\<close>

locale percent_alphabet =
  fixes unchanged :: byte_set
  assumes percent_encoded: "\<not> ByteSet_Find unchanged CHR ''%''"
begin

lemma encode_alphabet:
  "c \<in> set (pct_encode (ByteSet_Find unchanged) s) \<Longrightarrow>
   c = CHR ''%'' \<or> c_isxdigit c \<or> ByteSet_Find unchanged c"
proof (induction s)
  case (Cons x s)
  have "code x div 16 < 16" "code x mod 16 < 16"
    by (simp_all add: code_div_16)
  with Cons CharToHex_digit show ?case
    by (auto split: if_splits)
qed simp

lemma decode_encode:
  "pct_decode (pct_encode (ByteSet_Find unchanged) s) =
     Some (map (\<lambda>c. if c = CHR ''+'' \<and> ByteSet_Find unchanged c then CHR '' '' else c) s)"
proof (induction s)
  case (Cons x s)
  have "c_isxdigit (CharToHex (code x div 16))" "c_isxdigit (CharToHex (code x mod 16))"
    using CharToHex_digit code_div_16 by auto
  with Cons percent_encoded show ?case
    by (auto simp: hex_pair_CharToHex)
qed simp

end

locale percent_alphabet_plus = percent_alphabet +
  assumes plus_encoded: "\<not> ByteSet_Find unchanged CHR ''+''"
begin

lemma decode_encode_id: "pct_decode (pct_encode (ByteSet_Find unchanged) s) = Some s"
  unfolding decode_encode using plus_encoded by (auto intro: map_idI)

end

interpretation escape: percent_alphabet escape_unchanged
  by unfold_locales (simp add: escape_unchanged_def Find_derived)

interpretation encode_uri: percent_alphabet uri_unchanged
  by unfold_locales (simp add: uri_unchanged_def Find_derived)

interpretation component: percent_alphabet_plus component_unchanged
  by unfold_locales (simp_all add: component_unchanged_def Find_derived)

section \<open>Properties\<close>

lemma DecodeTo_eq:
  "PercentEncoding_DecodeTo s out =
     (if truncated s then Inl Out_of_bounds else Inr (pct_decode s \<noteq> None, pct_prefix s))"
  by (simp add: PercentEncoding_DecodeTo_def PercentEncoding_DecodeAppend_def DecodeAppend_loop_eq)

lemma DecodeTo_decoded: "pct_decode s = Some t \<Longrightarrow> PercentEncoding_DecodeTo s out = Inr (True, t)"
  using pct_decode_eq [of s t] by (simp add: DecodeTo_eq)

lemma Decode_decoded: "pct_decode s = Some t \<Longrightarrow> PercentEncoding_Decode s = (True, t)"
  using Decode_loop_decoded [of 0 0 s t] by (simp add: PercentEncoding_Decode_def)

lemma Decode_rejected: "pct_decode s = None \<Longrightarrow> \<not> fst (PercentEncoding_Decode s)"
  using Decode_loop_rejected [of 0 0 s] by (simp add: PercentEncoding_Decode_def)

lemma Decode_iff: "PercentEncoding_Decode s = (True, t) \<longleftrightarrow> pct_decode s = Some t"
proof (cases "pct_decode s")
  case None
  then show ?thesis
    using Decode_rejected [of s] by (cases "PercentEncoding_Decode s") auto
next
  case (Some u)
  then show ?thesis
    using Decode_decoded [of s u] by auto
qed

lemma DecodeTo_iff: "PercentEncoding_DecodeTo s out = Inr (True, t) \<longleftrightarrow> pct_decode s = Some t"
  using pct_decode_eq [of s] by (cases "pct_decode s") (auto simp: DecodeTo_eq)

lemma encoders_eq:
  "PercentEncoding_Encode s = pct_encode (ByteSet_Find escape_unchanged) s"
  "PercentEncoding_EncodeUri s = pct_encode (ByteSet_Find uri_unchanged) s"
  "PercentEncoding_EncodeUriComponent s = pct_encode (ByteSet_Find component_unchanged) s"
  by (simp_all add: PercentEncoding_Encode_def PercentEncoding_EncodeAppend_def
      PercentEncoding_EncodeUri_def PercentEncoding_EncodeUriAppend_def
      PercentEncoding_EncodeUriComponent_def PercentEncoding_EncodeUriComponentAppend_def
      DoEncodeAppend_eq)

text \<open>
  C6: decoding what \<^verbatim>\<open>EncodeUriComponent\<close> produced gives back the original string, for every
  string and with both decoders.
\<close>

theorem EncodeUriComponent_roundtrip:
  "PercentEncoding_DecodeTo (PercentEncoding_EncodeUriComponent s) out = Inr (True, s) \<and>
   PercentEncoding_Decode (PercentEncoding_EncodeUriComponent s) = (True, s)"
  by (simp add: DecodeTo_decoded Decode_decoded encoders_eq component.decode_encode_id)

text \<open>
  the other two encoders leave the plus sign unchanged, and the decoders read it as a space:
  decoding what \<^verbatim>\<open>Encode\<close> or \<^verbatim>\<open>EncodeUri\<close> produced succeeds and gives the original string with
  every plus sign replaced by a space, so the round trip is exact on strings without it only.
\<close>

theorem Encode_roundtrip_up_to_plus:
  "PercentEncoding_Decode (PercentEncoding_Encode s) =
     (True, map (\<lambda>c. if c = CHR ''+'' then CHR '' '' else c) s) \<and>
   PercentEncoding_Decode (PercentEncoding_EncodeUri s) =
     (True, map (\<lambda>c. if c = CHR ''+'' then CHR '' '' else c) s) \<and>
   (PercentEncoding_Decode (PercentEncoding_Encode s) = (True, s) \<longleftrightarrow> CHR ''+'' \<notin> set s)"
proof -
  have plus: "ByteSet_Find escape_unchanged CHR ''+''" "ByteSet_Find uri_unchanged CHR ''+''"
    by (simp_all add: escape_unchanged_def uri_unchanged_def Find_derived)
  have "(\<lambda>c. if c = CHR ''+'' \<and> ByteSet_Find escape_unchanged c then CHR '' '' else c) =
        (\<lambda>c. if c = CHR ''+'' then CHR '' '' else c)"
    "(\<lambda>c. if c = CHR ''+'' \<and> ByteSet_Find uri_unchanged c then CHR '' '' else c) =
        (\<lambda>c. if c = CHR ''+'' then CHR '' '' else c)"
    using plus by auto
  moreover have "map (\<lambda>c. if c = CHR ''+'' then CHR '' '' else c) s = s \<longleftrightarrow> CHR ''+'' \<notin> set s"
    by (induction s) auto
  ultimately show ?thesis
    by (simp add: Decode_decoded encoders_eq escape.decode_encode encode_uri.decode_encode)
qed

text \<open>
  C15: the decoder that works in place and the decoder that appends to a second string accept the
  same strings with the same result. They differ on an input that ends in \<^verbatim>\<open>%\<close> and one
  hexadecimal digit after correct escapes: there the appending decoder reads one byte past the
  end of its input.
\<close>

theorem Decode_inplace_equiv:
  "(PercentEncoding_Decode s = (True, t) \<longleftrightarrow> PercentEncoding_DecodeTo s out = Inr (True, t)) \<and>
   (PercentEncoding_DecodeTo s out = Inl e \<longleftrightarrow> e = Out_of_bounds \<and> truncated s) \<and>
   (truncated s \<longrightarrow> \<not> fst (PercentEncoding_Decode s))"
  using truncated_not_decoded [of s] Decode_rejected [of s]
  by (auto simp: Decode_iff DecodeTo_iff) (auto simp: DecodeTo_eq split: if_splits)

theorem Decode_inplace_equiv_witness:
  "truncated ''a%4'' \<and> PercentEncoding_DecodeTo ''a%4'' [] = Inl Out_of_bounds \<and>
   \<not> fst (PercentEncoding_Decode ''a%4'')"
proof -
  have "truncated ''a%4''"
    by (simp add: ctype_defs)
  then show ?thesis
    using Decode_inplace_equiv [of "''a%4''" "[]" "[]" Out_of_bounds] by blast
qed

end
