(* ===== verification/Uri.thy ===== *)
theory Uri
  imports Percent
begin

text \<open>
  The URI value class (\<^verbatim>\<open>src/common/net/uri/uri.h\<close> and the non-parsing part of
  \<^verbatim>\<open>src/common/net/uri/uri.cpp\<close>): the records of \<^verbatim>\<open>UriAuthority\<close> and \<^verbatim>\<open>URI\<close>, their setters and
  getters with the assertions they check, printing, swapping and normalisation.
\<close>

section \<open>Authority\<close>

record uri_authority =
  m_has_user_info :: bool
  m_has_port :: bool
  m_user_info :: string
  m_host :: string
  m_port :: string

definition UriAuthority_init :: uri_authority where
  "UriAuthority_init =
     \<lparr>m_has_user_info = False, m_has_port = False, m_user_info = [], m_host = [], m_port = []\<rparr>"

definition UriAuthority_UserInfo :: "uri_authority \<Rightarrow> string result" where
  "UriAuthority_UserInfo a =
     (if m_has_user_info a then Inr (m_user_info a) else Inl Assertion_failed)"

definition UriAuthority_SetUserInfo :: "string \<Rightarrow> uri_authority \<Rightarrow> uri_authority" where
  "UriAuthority_SetUserInfo value a = a\<lparr>m_user_info := value, m_has_user_info := True\<rparr>"

definition UriAuthority_ClearUserInfo :: "uri_authority \<Rightarrow> uri_authority" where
  "UriAuthority_ClearUserInfo a = a\<lparr>m_user_info := [], m_has_user_info := False\<rparr>"

definition UriAuthority_SetHost :: "string \<Rightarrow> uri_authority \<Rightarrow> uri_authority" where
  "UriAuthority_SetHost value a = a\<lparr>m_host := value\<rparr>"

definition UriAuthority_Port :: "uri_authority \<Rightarrow> string result" where
  "UriAuthority_Port a = (if m_has_port a then Inr (m_port a) else Inl Assertion_failed)"

definition UriAuthority_SetPort :: "string \<Rightarrow> uri_authority \<Rightarrow> uri_authority" where
  "UriAuthority_SetPort value a = a\<lparr>m_port := value, m_has_port := True\<rparr>"

definition UriAuthority_ClearPort :: "uri_authority \<Rightarrow> uri_authority" where
  "UriAuthority_ClearPort a = a\<lparr>m_port := [], m_has_port := False\<rparr>"

definition UriAuthority_Clear :: "uri_authority \<Rightarrow> uri_authority" where
  "UriAuthority_Clear a =
     UriAuthority_ClearPort ((UriAuthority_ClearUserInfo a)\<lparr>m_host := []\<rparr>)"

text \<open>\<^verbatim>\<open>Swap\<close> exchanges the fields one by one; the pair holds \<^verbatim>\<open>*this\<close> and \<^verbatim>\<open>*other\<close>.\<close>

definition UriAuthority_Swap :: "uri_authority \<Rightarrow> uri_authority \<Rightarrow> uri_authority \<times> uri_authority" where
  "UriAuthority_Swap a b =
     (a\<lparr>m_has_user_info := m_has_user_info b, m_has_port := m_has_port b,
        m_user_info := m_user_info b, m_host := m_host b, m_port := m_port b\<rparr>,
      b\<lparr>m_has_user_info := m_has_user_info a, m_has_port := m_has_port a,
        m_user_info := m_user_info a, m_host := m_host a, m_port := m_port a\<rparr>)"

section \<open>URI\<close>

record uri =
  m_has_authority :: bool
  m_has_query :: bool
  m_has_fragment :: bool
  m_scheme :: string
  m_authority :: uri_authority
  m_path :: string
  m_query :: string
  m_fragment :: string

definition URI_init :: uri where
  "URI_init =
     \<lparr>m_has_authority = False, m_has_query = False, m_has_fragment = False, m_scheme = [],
      m_authority = UriAuthority_init, m_path = [], m_query = [], m_fragment = []\<rparr>"

definition URI_SetScheme :: "string \<Rightarrow> uri \<Rightarrow> uri" where
  "URI_SetScheme value u = u\<lparr>m_scheme := value\<rparr>"

definition URI_Authority :: "uri \<Rightarrow> uri_authority result" where
  "URI_Authority u = (if m_has_authority u then Inr (m_authority u) else Inl Assertion_failed)"

definition URI_SetAuthority :: "uri_authority \<Rightarrow> uri \<Rightarrow> uri" where
  "URI_SetAuthority value u = u\<lparr>m_has_authority := True, m_authority := value\<rparr>"

definition URI_ClearAuthority :: "uri \<Rightarrow> uri" where
  "URI_ClearAuthority u = u\<lparr>m_authority := UriAuthority_Clear (m_authority u), m_has_authority := False\<rparr>"

definition URI_HasUserInfo :: "uri \<Rightarrow> bool" where
  "URI_HasUserInfo u \<longleftrightarrow> m_has_authority u \<and> m_has_user_info (m_authority u)"

definition URI_UserInfo :: "uri \<Rightarrow> string result" where
  "URI_UserInfo u =
     (if m_has_authority u then bindR (URI_Authority u) UriAuthority_UserInfo
      else Inl Assertion_failed)"

definition URI_SetUserInfo :: "string \<Rightarrow> uri \<Rightarrow> uri" where
  "URI_SetUserInfo value u =
     u\<lparr>m_has_authority := True, m_authority := UriAuthority_SetUserInfo value (m_authority u)\<rparr>"

definition URI_ClearUserInfo :: "uri \<Rightarrow> uri result" where
  "URI_ClearUserInfo u =
     (if m_has_authority u then Inr (u\<lparr>m_authority := UriAuthority_ClearUserInfo (m_authority u)\<rparr>)
      else Inl Assertion_failed)"

definition URI_HasHost :: "uri \<Rightarrow> bool" where
  "URI_HasHost u \<longleftrightarrow> m_has_authority u"

definition URI_Host :: "uri \<Rightarrow> string result" where
  "URI_Host u = (if m_has_authority u then Inr (m_host (m_authority u)) else Inl Assertion_failed)"

definition URI_SetHost :: "string \<Rightarrow> uri \<Rightarrow> uri" where
  "URI_SetHost value u =
     u\<lparr>m_has_authority := True, m_authority := UriAuthority_SetHost value (m_authority u)\<rparr>"

definition URI_HasPort :: "uri \<Rightarrow> bool" where
  "URI_HasPort u \<longleftrightarrow> m_has_authority u \<and> m_has_port (m_authority u)"

definition URI_Port :: "uri \<Rightarrow> string result" where
  "URI_Port u =
     (if m_has_authority u then UriAuthority_Port (m_authority u) else Inl Assertion_failed)"

definition URI_SetPort :: "string \<Rightarrow> uri \<Rightarrow> uri" where
  "URI_SetPort value u =
     u\<lparr>m_has_authority := True, m_authority := UriAuthority_SetPort value (m_authority u)\<rparr>"

definition URI_ClearPort :: "uri \<Rightarrow> uri result" where
  "URI_ClearPort u =
     (if m_has_authority u then Inr (u\<lparr>m_authority := UriAuthority_ClearPort (m_authority u)\<rparr>)
      else Inl Assertion_failed)"

definition URI_SetPath :: "string \<Rightarrow> uri \<Rightarrow> uri" where
  "URI_SetPath value u = u\<lparr>m_path := value\<rparr>"

definition URI_SetQuery :: "string \<Rightarrow> uri \<Rightarrow> uri" where
  "URI_SetQuery value u = u\<lparr>m_query := value, m_has_query := True\<rparr>"

definition URI_ClearQuery :: "uri \<Rightarrow> uri" where
  "URI_ClearQuery u = u\<lparr>m_query := [], m_has_query := False\<rparr>"

definition URI_PathAndQuery :: "uri \<Rightarrow> string" where
  "URI_PathAndQuery u = (if m_has_query u then m_path u @ ''?'' @ m_query u else m_path u)"

definition URI_SetFragment :: "string \<Rightarrow> uri \<Rightarrow> uri" where
  "URI_SetFragment value u = u\<lparr>m_fragment := value, m_has_fragment := True\<rparr>"

definition URI_ClearFragment :: "uri \<Rightarrow> uri" where
  "URI_ClearFragment u = u\<lparr>m_fragment := [], m_has_fragment := False\<rparr>"

definition URI_Clear :: "uri \<Rightarrow> uri" where
  "URI_Clear u =
     URI_ClearFragment (URI_ClearQuery ((URI_ClearAuthority (u\<lparr>m_scheme := []\<rparr>))\<lparr>m_path := []\<rparr>))"

definition URI_Swap :: "uri \<Rightarrow> uri \<Rightarrow> uri \<times> uri" where
  "URI_Swap u v =
     (let (a, b) = UriAuthority_Swap (m_authority u) (m_authority v)
      in (u\<lparr>m_has_authority := m_has_authority v, m_has_query := m_has_query v,
            m_has_fragment := m_has_fragment v, m_scheme := m_scheme v, m_authority := a,
            m_path := m_path v, m_query := m_query v, m_fragment := m_fragment v\<rparr>,
          v\<lparr>m_has_authority := m_has_authority u, m_has_query := m_has_query u,
            m_has_fragment := m_has_fragment u, m_scheme := m_scheme u, m_authority := b,
            m_path := m_path u, m_query := m_query u, m_fragment := m_fragment u\<rparr>))"

section \<open>Printing\<close>

text \<open>
  \<^verbatim>\<open>ToString(std::string*)\<close>. The getters assert that the component is there, so the model
  returns a \<open>result\<close>.
\<close>

definition URI_ToString :: "uri \<Rightarrow> string result" where
  "URI_ToString u =
     (let r = (if m_scheme u \<noteq> [] then m_scheme u @ '':'' else [])
      in bindR
        (if m_has_authority u then
           bindR (if URI_HasUserInfo u
                  then bindR (URI_UserInfo u) (\<lambda>i. Inr (r @ ''//'' @ i @ ''@''))
                  else Inr (r @ ''//''))
             (\<lambda>r. bindR (URI_Host u) (\<lambda>h.
                if URI_HasPort u then bindR (URI_Port u) (\<lambda>p. Inr (r @ h @ '':'' @ p))
                else Inr (r @ h)))
         else Inr r)
        (\<lambda>r.
          let r = r @ m_path u;
              r = (if m_has_query u then r @ ''?'' @ m_query u else r);
              r = (if m_has_fragment u then r @ ''#'' @ m_fragment u else r)
          in Inr r))"

text \<open>
  \<^verbatim>\<open>WriteToBuffer\<close> inserts the same components, in the same order, into an \<^verbatim>\<open>ostrstream\<close> over the
  caller's buffer and then writes a NUL byte at \<^verbatim>\<open>buffer[tellp()]\<close>. When the text fills the buffer
  that index is the buffer's size; when it does not fit, the stream has failed and \<^verbatim>\<open>tellp()\<close>
  returns \<^verbatim>\<open>-1\<close>, which is the largest \<^verbatim>\<open>size_t\<close>. With no room at all, \<^verbatim>\<open>return -1\<close> converts to
  \<^verbatim>\<open>true\<close> and nothing is stored through \<^verbatim>\<open>result_size\<close>. The result holds the flag and, where
  they are written, the buffer's contents and the size.
\<close>

definition URI_WriteToBuffer :: "uri \<Rightarrow> nat \<Rightarrow> (bool \<times> (string \<times> nat) option) result" where
  "URI_WriteToBuffer u buffer_size =
     (if buffer_size < 1 then Inr (True, None)
      else bindR (URI_ToString u) (\<lambda>text.
        if length text < buffer_size then Inr (True, Some (text @ [NUL], length text))
        else Inl Out_of_bounds))"

text \<open>The private helper \<^verbatim>\<open>StringLower\<close> and \<^verbatim>\<open>Normalize\<close>.\<close>

definition URI_StringLower :: "string \<Rightarrow> string" where
  "URI_StringLower str = map c_tolower str"

definition URI_Normalize :: "uri \<Rightarrow> bool \<times> uri" where
  "URI_Normalize u =
     (True, u\<lparr>m_scheme := URI_StringLower (m_scheme u),
              m_authority := (m_authority u)\<lparr>m_host := URI_StringLower (m_host (m_authority u))\<rparr>\<rparr>)"

text \<open>The static members that encode and decode.\<close>

definition URI_Encode :: "string \<Rightarrow> string" where
  "URI_Encode src = PercentEncoding_EncodeUri src"

definition URI_EncodeTo :: "string \<Rightarrow> string \<Rightarrow> string" where
  "URI_EncodeTo src dest = PercentEncoding_EncodeUriTo src dest"

definition URI_Encode_inplace :: "string \<Rightarrow> string" where
  "URI_Encode_inplace uri = PercentEncoding_EncodeUri_inplace uri"

definition URI_EncodeComponent :: "string \<Rightarrow> string" where
  "URI_EncodeComponent src = PercentEncoding_EncodeUriComponent src"

definition URI_EncodeComponentTo :: "string \<Rightarrow> string \<Rightarrow> string" where
  "URI_EncodeComponentTo src dest = PercentEncoding_EncodeUriComponentTo src dest"

definition URI_EncodeComponent_inplace :: "string \<Rightarrow> string" where
  "URI_EncodeComponent_inplace uri = PercentEncoding_EncodeUriComponent_inplace uri"

definition URI_Decode :: "string \<Rightarrow> string \<Rightarrow> (bool \<times> string) result" where
  "URI_Decode src dest = PercentEncoding_DecodeTo src dest"

section \<open>Lemmas\<close>

definition authority_text :: "uri_authority \<Rightarrow> string" where
  "authority_text a =
     (if m_has_user_info a then m_user_info a @ ''@'' else []) @ m_host a @
     (if m_has_port a then '':'' @ m_port a else [])"

definition uri_text :: "uri \<Rightarrow> string" where
  "uri_text u =
     (if m_scheme u \<noteq> [] then m_scheme u @ '':'' else []) @
     (if m_has_authority u then ''//'' @ authority_text (m_authority u) else []) @
     m_path u @
     (if m_has_query u then ''?'' @ m_query u else []) @
     (if m_has_fragment u then ''#'' @ m_fragment u else [])"

text \<open>The assertions of the getters never fail while a URI is printed.\<close>

lemma URI_ToString_eq: "URI_ToString u = Inr (uri_text u)"
  by (simp add: URI_ToString_def uri_text_def authority_text_def Let_def URI_HasUserInfo_def
      URI_UserInfo_def URI_Authority_def UriAuthority_UserInfo_def URI_Host_def URI_HasPort_def
      URI_Port_def UriAuthority_Port_def)

lemma UriAuthority_Swap_eq: "UriAuthority_Swap a b = (b, a)"
  by (simp add: UriAuthority_Swap_def)

lemma URI_Swap_eq: "URI_Swap u v = (v, u)"
  by (simp add: URI_Swap_def UriAuthority_Swap_eq)

lemma URI_Clear_eq: "URI_Clear u = URI_init"
  by (simp add: URI_Clear_def URI_ClearFragment_def URI_ClearQuery_def URI_ClearAuthority_def
      UriAuthority_Clear_def UriAuthority_ClearPort_def UriAuthority_ClearUserInfo_def URI_init_def
      UriAuthority_init_def)

lemmas uri_setter_defs =
  URI_SetScheme_def URI_SetAuthority_def URI_SetUserInfo_def URI_SetHost_def URI_SetPort_def
  URI_SetPath_def URI_SetQuery_def URI_SetFragment_def UriAuthority_SetUserInfo_def
  UriAuthority_SetHost_def UriAuthority_SetPort_def

end
