(* ===== verification/Uri_Parser.thy ===== *)
theory Uri_Parser
  imports Uri
begin

text \<open>
  The URI parser (\<^verbatim>\<open>src/common/net/uri/uri.cpp\<close>, \<^verbatim>\<open>class UriParser\<close>): a recursive-descent matcher over
  a buffer. The parser's state is the buffer, the position \<^verbatim>\<open>m_current\<close> and the URI under
  construction; each \<^verbatim>\<open>match_\<close> method is a function from a state to a flag and a state. The
  helper class \<^verbatim>\<open>Result\<close> restores \<^verbatim>\<open>m_current\<close>, and only it, when it is assigned \<^verbatim>\<open>false\<close> or
  destroyed while it is \<^verbatim>\<open>false\<close>; what a failed alternative stored into the URI stays there.
\<close>

section \<open>Byte sets\<close>

definition gen_delims :: byte_set where "gen_delims = ByteSet_of_string '':/?#[]@''"

definition sub_delims :: byte_set where "sub_delims = ByteSet_of_string ''!$&'()*+,;=''"

definition reserved :: byte_set where "reserved = ByteSet_or gen_delims sub_delims"

definition mark :: byte_set where "mark = ByteSet_of_string ''-_.!~*'()''"

definition unreserved :: byte_set where "unreserved = ByteSet_or_string AlphaNumSet ''-._~''"

definition userinfo :: byte_set where "userinfo = ByteSet_or_string unreserved '',:&=+$,''"

definition uric_no_slash :: byte_set where
  "uric_no_slash = ByteSet_or_string unreserved '',?:@&=+$,''"

definition rel_segment :: byte_set where "rel_segment = ByteSet_or_string unreserved '',@&=+$,''"

definition scheme :: byte_set where "scheme = ByteSet_or_string AlphaNumSet ''+-.''"

definition reg_name :: byte_set where "reg_name = ByteSet_or_string unreserved ''$,,:@&=+''"

definition pchar :: byte_set where
  "pchar =
     ByteSet_or_string (ByteSet_or_string (ByteSet_or_string (ByteSet_or_string
       (ByteSet_or unreserved sub_delims) '':@'') ''|'') ''{'') ''}''"

definition query_or_fragment :: byte_set where
  "query_or_fragment = ByteSet_or_string pchar ''/?''"

section \<open>State and combinators\<close>

record uri_parser =
  p_buffer :: string   \<comment> \<open>the bytes from \<^verbatim>\<open>m_begin\<close> to \<^verbatim>\<open>m_end\<close>\<close>
  m_current :: nat     \<comment> \<open>\<^verbatim>\<open>m_current - m_begin\<close>\<close>
  m_result :: uri

type_synonym matcher = "uri_parser \<Rightarrow> bool \<times> uri_parser"

text \<open>\<^verbatim>\<open>a() && b()\<close> and \<^verbatim>\<open>a() || b()\<close>.\<close>

definition and_then :: "matcher \<Rightarrow> matcher \<Rightarrow> matcher" where
  "and_then a b p = (case a p of (True, p') \<Rightarrow> b p' | (False, p') \<Rightarrow> (False, p'))"

definition or_else :: "matcher \<Rightarrow> matcher \<Rightarrow> matcher" where
  "or_else a b p = (case a p of (True, p') \<Rightarrow> (True, p') | (False, p') \<Rightarrow> b p')"

text \<open>\<^verbatim>\<open>Result r(this); r = m();\<close> : on failure the position of \<^verbatim>\<open>r\<close>'s construction is restored.\<close>

definition Result :: "matcher \<Rightarrow> matcher" where
  "Result m p =
     (case m p of (True, p') \<Rightarrow> (True, p') | (False, p') \<Rightarrow> (False, p'\<lparr>m_current := m_current p\<rparr>))"

text \<open>
  \<^verbatim>\<open>while (m()) ++count;\<close> : the number of successful rounds and the state after the failing one.
  The fuel is one more than the number of bytes left; a matcher that consumes a byte whenever
  it succeeds cannot use it up (lemma \<open>repeat_unfold\<close>).
\<close>

fun repeat_fuel :: "nat \<Rightarrow> matcher \<Rightarrow> uri_parser \<Rightarrow> nat \<times> uri_parser" where
  "repeat_fuel 0 m p = (0, p)"
| "repeat_fuel (Suc n) m p =
     (case m p of
        (True, p') \<Rightarrow> (case repeat_fuel n m p' of (k, q) \<Rightarrow> (Suc k, q))
      | (False, p') \<Rightarrow> (0, p'))"

definition repeat :: "matcher \<Rightarrow> uri_parser \<Rightarrow> nat \<times> uri_parser" where
  "repeat m p = repeat_fuel (Suc (length (p_buffer p) - m_current p)) m p"

text \<open>\<^verbatim>\<open>r.begin() + k\<close> and \<^verbatim>\<open>r.length() - k\<close> for a \<^verbatim>\<open>Result\<close> constructed in state \<open>p\<close>, read in state \<open>q\<close>.\<close>

definition text_from :: "nat \<Rightarrow> uri_parser \<Rightarrow> uri_parser \<Rightarrow> string" where
  "text_from k p q = slice (p_buffer q) (m_current p + k) (m_current q - m_current p - k)"

definition text_until :: "nat \<Rightarrow> uri_parser \<Rightarrow> uri_parser \<Rightarrow> string" where
  "text_until k p q = slice (p_buffer q) (m_current p) (m_current q - m_current p - k)"

definition set_result :: "(uri \<Rightarrow> uri) \<Rightarrow> uri_parser \<Rightarrow> uri_parser" where
  "set_result f p = p\<lparr>m_result := f (m_result p)\<rparr>"

section \<open>Elementary matchers\<close>

definition match_literal :: "char \<Rightarrow> matcher" where
  "match_literal c p =
     (if m_current p < length (p_buffer p) \<and> p_buffer p ! m_current p = c
      then (True, p\<lparr>m_current := m_current p + 1\<rparr>) else (False, p))"

definition match_literal_str :: "string \<Rightarrow> matcher" where
  "match_literal_str l p =
     (if length (p_buffer p) - m_current p \<ge> length l \<and> slice (p_buffer p) (m_current p) (length l) = l
      then (True, p\<lparr>m_current := m_current p + length l\<rparr>) else (False, p))"

definition match_byteset :: "byte_set \<Rightarrow> matcher" where
  "match_byteset cs p =
     (if m_current p < length (p_buffer p) \<and> ByteSet_Find cs (p_buffer p ! m_current p)
      then (True, p\<lparr>m_current := m_current p + 1\<rparr>) else (False, p))"

definition match_digit :: matcher where "match_digit = match_byteset DigitSet"

definition match_upalpha :: matcher where "match_upalpha = match_byteset UpperSet"

definition match_lowalpha :: matcher where "match_lowalpha = match_byteset LowerSet"

definition match_alpha :: matcher where "match_alpha = match_byteset AlphaSet"

definition match_alphanum :: matcher where "match_alphanum = match_byteset AlphaNumSet"

definition match_hex :: matcher where "match_hex = match_byteset HexSet"

definition match_mark :: matcher where "match_mark = match_byteset mark"

definition match_reserved :: matcher where "match_reserved = match_byteset reserved"

definition match_unreserved :: matcher where "match_unreserved = match_byteset unreserved"

definition hex_at :: "uri_parser \<Rightarrow> nat \<Rightarrow> bool" where
  "hex_at p k \<longleftrightarrow> ByteSet_Find HexSet (p_buffer p ! (m_current p + k))"

definition match_percent_encoded :: matcher where
  "match_percent_encoded p =
     (let left = length (p_buffer p) - m_current p
      in if left > 2 \<and> p_buffer p ! m_current p = CHR ''%'' \<and> hex_at p 1 \<and> hex_at p 2
         then (True, p\<lparr>m_current := m_current p + 3\<rparr>) else (False, p))"

definition match_pct_encoded :: matcher where
  "match_pct_encoded p =
     (let left = length (p_buffer p) - m_current p
      in if left > 2 \<and> p_buffer p ! m_current p = CHR ''%'' then
           if hex_at p 1 \<and> hex_at p 2 then (True, p\<lparr>m_current := m_current p + 3\<rparr>)
           else if left > 5 \<and> p_buffer p ! (m_current p + 1) = CHR ''u'' \<and>
                   hex_at p 2 \<and> hex_at p 3 \<and> hex_at p 4 \<and> hex_at p 5
           then (True, p\<lparr>m_current := m_current p + 6\<rparr>)
           else (False, p)
         else (False, p))"

definition match_query_or_fragment :: matcher where
  "match_query_or_fragment p =
     (True, snd (repeat (or_else (match_byteset query_or_fragment) match_pct_encoded) p))"

definition match_query :: matcher where "match_query = match_query_or_fragment"

definition match_fragment :: matcher where "match_fragment = match_query_or_fragment"

definition match_pchar :: matcher where
  "match_pchar = or_else (match_byteset pchar) match_pct_encoded"

section \<open>Host and authority\<close>

text \<open>
  The inner loop of \<^verbatim>\<open>match_domainlabel\<close> and \<^verbatim>\<open>match_toplabel\<close>: a round skips hyphens and then
  needs an alphanumeric byte; the \<^verbatim>\<open>Result r1\<close> around the loop is set by the first successful
  round and never reset.
\<close>

definition hyphens_then_alphanum :: matcher where
  "hyphens_then_alphanum p = match_alphanum (snd (repeat (match_literal CHR ''-'') p))"

definition match_label_rest :: "uri_parser \<Rightarrow> uri_parser" where
  "match_label_rest p =
     (case repeat hyphens_then_alphanum p of
        (k, q) \<Rightarrow> if k > 0 then q else q\<lparr>m_current := m_current p\<rparr>)"

definition match_domainlabel :: matcher where
  "match_domainlabel p =
     (case match_alphanum p of
        (True, p') \<Rightarrow> (True, match_label_rest p')
      | (False, p') \<Rightarrow> (False, p'\<lparr>m_current := m_current p\<rparr>))"

definition match_toplabel :: matcher where
  "match_toplabel p =
     (case match_alpha p of
        (True, p') \<Rightarrow> (True, match_label_rest p')
      | (False, p') \<Rightarrow> (False, p'\<lparr>m_current := m_current p\<rparr>))"

definition match_hostname :: matcher where
  "match_hostname p =
     (let p1 = snd (repeat (Result (and_then match_domainlabel (match_literal CHR ''.''))) p)
      in case match_toplabel p1 of
           (True, p2) \<Rightarrow> (True, snd (match_literal CHR ''.'' p2))
         | (False, p2) \<Rightarrow> (False, p2\<lparr>m_current := m_current p\<rparr>))"

definition match_reg_name :: matcher where "match_reg_name = match_hostname"

text \<open>The three fields followed by a dot; \<^verbatim>\<open>return false\<close> in the loop is the flag \<^const>\<open>False\<close>.\<close>

fun match_ipv4_fields :: "nat \<Rightarrow> matcher" where
  "match_ipv4_fields 0 p = (True, p)"
| "match_ipv4_fields (Suc n) p =
     (case match_digit p of
        (True, p1) \<Rightarrow>
          (case match_literal CHR ''.'' (snd (repeat match_digit p1)) of
             (True, p2) \<Rightarrow> match_ipv4_fields n p2
           | (False, p2) \<Rightarrow> (False, p2))
      | (False, p1) \<Rightarrow> match_ipv4_fields n p1)"

definition match_ipv4_last :: matcher where
  "match_ipv4_last p =
     (case match_digit p of
        (True, p1) \<Rightarrow> (True, snd (repeat match_digit p1))
      | (False, p1) \<Rightarrow> (False, p1))"

definition match_IPv4address :: matcher where
  "match_IPv4address = Result (and_then (match_ipv4_fields 3) match_ipv4_last)"

definition match_IP_literal :: matcher where "match_IP_literal p = (False, p)"

definition match_host :: matcher where
  "match_host p =
     (case or_else match_reg_name (or_else match_IPv4address match_IP_literal) p of
        (True, q) \<Rightarrow> (True, set_result (URI_SetHost (text_until 0 p q)) q)
      | (False, q) \<Rightarrow> (False, q))"

definition match_port :: matcher where
  "match_port p = (True, snd (repeat match_digit p))"

definition match_userinfo :: matcher where
  "match_userinfo p =
     (True, snd (repeat (or_else (match_byteset userinfo) match_pct_encoded) p))"

fun userinfo_ahead :: "string \<Rightarrow> bool" where
  "userinfo_ahead [] = False"
| "userinfo_ahead (c # cs) =
     (if c = CHR ''@'' then True else if c = CHR ''/'' then False else userinfo_ahead cs)"

definition maybe_contains_userinfo :: "uri_parser \<Rightarrow> bool" where
  "maybe_contains_userinfo p = userinfo_ahead (drop (m_current p) (p_buffer p))"

text \<open>The two optional parts of \<^verbatim>\<open>match_authority\<close>: the user information and the port.\<close>

definition match_opt_userinfo :: "uri_parser \<Rightarrow> uri_parser" where
  "match_opt_userinfo p =
     (if maybe_contains_userinfo p then
        (case Result (and_then match_userinfo (match_literal CHR ''@'')) p of
           (True, q) \<Rightarrow> set_result (URI_SetUserInfo (text_until 1 p q)) q
         | (False, q) \<Rightarrow> q)
      else p)"

definition match_opt_port :: "uri_parser \<Rightarrow> uri_parser" where
  "match_opt_port p =
     (case Result (and_then (match_literal CHR '':'') match_port) p of
        (True, q) \<Rightarrow> set_result (URI_SetPort (text_from 1 p q)) q
      | (False, q) \<Rightarrow> q)"

definition match_authority :: matcher where
  "match_authority p =
     (case match_host (match_opt_userinfo p) of
        (False, q) \<Rightarrow> (False, q)
      | (True, q) \<Rightarrow> (True, match_opt_port q))"

section \<open>Paths\<close>

definition match_segment :: matcher where
  "match_segment p = (True, snd (repeat match_pchar p))"

definition match_segment_nz :: matcher where
  "match_segment_nz p = (case repeat match_pchar p of (k, q) \<Rightarrow> (k > 0, q))"

definition match_segment_nz_nc :: matcher where
  "match_segment_nz_nc p =
     (case repeat (Result (or_else match_unreserved (or_else match_pct_encoded
        (or_else (match_byteset sub_delims) (match_literal CHR ''@''))))) p of
        (k, q) \<Rightarrow> (k > 0, q))"

text \<open>The loop \<^verbatim>\<open>for (;;) { Result r(this); r = match_literal('/') && match_segment(); if (!r) break; }\<close>.\<close>

definition match_slash_segments :: "uri_parser \<Rightarrow> uri_parser" where
  "match_slash_segments p =
     snd (repeat (Result (and_then (match_literal CHR ''/'') match_segment)) p)"

definition match_path_abempty :: matcher where
  "match_path_abempty p =
     (let q = match_slash_segments p
      in (True, set_result (URI_SetPath (text_until 0 p q)) q))"

definition match_path_absolute :: matcher where
  "match_path_absolute p =
     (case match_literal CHR ''/'' p of
        (False, p1) \<Rightarrow> (False, p1)
      | (True, p1) \<Rightarrow>
          (let q = (case match_segment_nz p1 of
                      (True, p2) \<Rightarrow> match_slash_segments p2 | (False, p2) \<Rightarrow> p2)
           in (True, set_result (URI_SetPath (text_until 0 p q)) q)))"

definition match_path_noscheme :: matcher where
  "match_path_noscheme p =
     (case match_segment_nz_nc p of
        (False, p1) \<Rightarrow> (False, p1)
      | (True, p1) \<Rightarrow>
          (let q = match_slash_segments p1
           in (True, set_result (URI_SetPath (text_until 0 p q)) q)))"

definition match_path_rootless :: matcher where
  "match_path_rootless p =
     (case match_segment_nz p of
        (False, p1) \<Rightarrow> (False, p1)
      | (True, p1) \<Rightarrow>
          (let q = match_slash_segments p1
           in (True, set_result (URI_SetPath (text_until 0 p q)) q)))"

definition match_path_empty :: matcher where
  "match_path_empty p = (True, set_result (URI_SetPath []) p)"

definition match_path :: matcher where
  "match_path =
     or_else match_path_abempty (or_else match_path_absolute (or_else match_path_noscheme
       (or_else match_path_rootless match_path_empty)))"

section \<open>URI references\<close>

definition match_scheme_and_colon :: matcher where
  "match_scheme_and_colon p =
     (case Result match_alpha p of
        (False, p1) \<Rightarrow> (False, p1)
      | (True, p1) \<Rightarrow>
          (case match_literal CHR '':'' (snd (repeat (match_byteset scheme) p1)) of
             (True, q) \<Rightarrow> (True, set_result (URI_SetScheme (text_until 1 p q)) q)
           | (False, q) \<Rightarrow> (False, q\<lparr>m_current := m_current p\<rparr>)))"

definition match_slash_slash_authority :: matcher where
  "match_slash_slash_authority =
     and_then (and_then (match_literal_str ''//'') match_authority) match_path_abempty"

text \<open>
  In \<^verbatim>\<open>match_hier_part\<close> the object \<^verbatim>\<open>r\<close> is still \<^verbatim>\<open>false\<close> when the second \<^verbatim>\<open>return\<close> is taken; its
  destructor runs after the returned expression has been evaluated and restores \<^verbatim>\<open>m_current\<close>.
\<close>

definition match_hier_part :: matcher where
  "match_hier_part p =
     (case Result match_slash_slash_authority p of
        (True, q) \<Rightarrow> (True, q)
      | (False, q) \<Rightarrow>
          (case or_else match_path_absolute (or_else match_path_rootless match_path_empty) q of
             (b, q') \<Rightarrow> (b, q'\<lparr>m_current := m_current p\<rparr>)))"

definition match_relative_part :: matcher where
  "match_relative_part p =
     (case Result match_slash_slash_authority p of
        (True, q) \<Rightarrow> (True, q)
      | (False, q) \<Rightarrow>
          Result (or_else match_path_absolute (or_else match_path_noscheme match_path_empty)) q)"

text \<open>The optional query and fragment.\<close>

definition match_opt_query :: "uri_parser \<Rightarrow> uri_parser" where
  "match_opt_query p =
     (case Result (and_then (match_literal CHR ''?'') match_query) p of
        (True, q) \<Rightarrow> set_result (URI_SetQuery (text_from 1 p q)) q
      | (False, q) \<Rightarrow> q)"

definition match_opt_fragment :: "uri_parser \<Rightarrow> uri_parser" where
  "match_opt_fragment p =
     (case Result (and_then (match_literal CHR ''#'') match_fragment) p of
        (True, q) \<Rightarrow> set_result (URI_SetFragment (text_from 1 p q)) q
      | (False, q) \<Rightarrow> q)"

definition match_URI :: matcher where
  "match_URI p =
     (case Result (and_then match_scheme_and_colon match_hier_part) p of
        (True, q) \<Rightarrow> (True, match_opt_fragment (match_opt_query q))
      | (False, q) \<Rightarrow> (False, q))"

definition match_absoluteURI :: matcher where
  "match_absoluteURI p =
     (case match_scheme_and_colon p of
        (True, p1) \<Rightarrow>
          (case match_hier_part p1 of
             (True, q) \<Rightarrow> (True, match_opt_query q)
           | (False, q) \<Rightarrow> (False, q\<lparr>m_current := m_current p\<rparr>))
      | (False, p1) \<Rightarrow> (False, p1\<lparr>m_current := m_current p\<rparr>))"

definition match_relative_ref :: matcher where
  "match_relative_ref p =
     (case Result match_relative_part p of
        (True, q) \<Rightarrow> (True, match_opt_query q)
      | (False, q) \<Rightarrow> (False, q))"

definition match_URI_reference :: matcher where
  "match_URI_reference = or_else match_URI match_relative_ref"

text \<open>\<^verbatim>\<open>UriParser::Parse\<close>, \<^verbatim>\<open>URI::ParseBuffer\<close> and the two overloads of \<^verbatim>\<open>URI::Parse\<close>.\<close>

definition UriParser_Parse :: "string \<Rightarrow> uri \<Rightarrow> nat \<times> uri" where
  "UriParser_Parse s u =
     (case match_URI_reference \<lparr>p_buffer = s, m_current = 0, m_result = u\<rparr> of
        (b, q) \<Rightarrow> (m_current q, m_result q))"

definition URI_ParseBuffer :: "string \<Rightarrow> uri \<Rightarrow> nat \<times> uri" where
  "URI_ParseBuffer s u = UriParser_Parse s (URI_Clear u)"

definition URI_Parse :: "string \<Rightarrow> uri \<Rightarrow> bool \<times> uri" where
  "URI_Parse s u = (case URI_ParseBuffer s u of (n, v) \<Rightarrow> (n = length s, v))"

definition URI_Parse_c_str :: "string \<Rightarrow> uri \<Rightarrow> bool \<times> uri" where
  "URI_Parse_c_str s u =
     (case URI_ParseBuffer (c_str s) u of (n, v) \<Rightarrow> (n = length (c_str s), v))"

end
