(* ===== verification/Uri_Parser_Correct.thy ===== *)
theory Uri_Parser_Correct
  imports Uri_Parser
begin

text \<open>
  Properties of the URI parser. The matchers that only move the position are described by three
  contracts, stated as locales: a \<open>mover\<close> stays inside the buffer and never moves back, an
  \<open>advancing\<close> mover consumes at least one byte when it succeeds (so that loops over it end), and
  a \<open>scanner\<close> leaves the state alone when it fails. The combinators are shown to build matchers
  of these kinds, every elementary matcher of the class is interpreted as one, and the effects of
  the matchers that also store into the URI are then described by equations.
\<close>

section \<open>Contracts\<close>

definition in_buffer :: "uri_parser \<Rightarrow> bool" where
  "in_buffer p \<longleftrightarrow> m_current p \<le> length (p_buffer p)"

lemma in_buffer_update [simp]: "in_buffer (p\<lparr>m_current := k\<rparr>) \<longleftrightarrow> k \<le> length (p_buffer p)"
  by (simp add: in_buffer_def)

lemma in_buffer_set_result [simp]: "in_buffer (set_result f p) \<longleftrightarrow> in_buffer p"
  by (simp add: in_buffer_def set_result_def)

text \<open>\<open>moved p q\<close>: the state \<open>q\<close> is \<open>p\<close> with a later position.\<close>

definition moved :: "uri_parser \<Rightarrow> uri_parser \<Rightarrow> bool" where
  "moved p q \<longleftrightarrow> q = p\<lparr>m_current := m_current q\<rparr> \<and> m_current p \<le> m_current q \<and> in_buffer q"

lemma movedE:
  assumes "moved p q"
  obtains k where "q = p\<lparr>m_current := k\<rparr>" "m_current p \<le> k" "k \<le> length (p_buffer p)"
proof -
  from assms have "q = p\<lparr>m_current := m_current q\<rparr>" "m_current p \<le> m_current q" "in_buffer q"
    by (auto simp: moved_def)
  then show ?thesis
    using that [of "m_current q"] by (metis in_buffer_update)
qed

lemma moved_at [simp]:
  "moved p (p\<lparr>m_current := k\<rparr>) \<longleftrightarrow> m_current p \<le> k \<and> k \<le> length (p_buffer p)"
  by (simp add: moved_def)

lemma moved_refl [simp]: "in_buffer p \<Longrightarrow> moved p p"
  by (simp add: moved_def)

lemma moved_in_buffer: "moved p q \<Longrightarrow> in_buffer q"
  by (simp add: moved_def)

lemma moved_trans: "moved p q \<Longrightarrow> moved q r \<Longrightarrow> moved p r"
  by (elim movedE) simp

lemma moved_buffer: "moved p q \<Longrightarrow> p_buffer q = p_buffer p \<and> m_result q = m_result p"
  by (elim movedE) simp

lemma moved_restore: "moved p q \<Longrightarrow> q\<lparr>m_current := m_current p\<rparr> = p"
  by (elim movedE) simp

lemma moved_left:
  assumes "moved p q" and "m_current p < m_current q"
  shows "length (p_buffer q) - m_current q < length (p_buffer p) - m_current p"
proof -
  obtain k where "q = p\<lparr>m_current := k\<rparr>" "k \<le> length (p_buffer p)"
    using assms(1) by (rule movedE)
  with assms(2) show ?thesis
    by simp
qed

locale mover =
  fixes m :: matcher
  assumes moves: "in_buffer p \<Longrightarrow> m p = (b, q) \<Longrightarrow> moved p q"

locale advancing = mover +
  assumes advances: "in_buffer p \<Longrightarrow> m p = (True, q) \<Longrightarrow> m_current p < m_current q"
begin

lemma repeat_fuel_moves: "in_buffer p \<Longrightarrow> repeat_fuel n m p = (k, q) \<Longrightarrow> moved p q \<and> (0 < k \<longrightarrow> m_current p < m_current q)"
proof (induction n arbitrary: p k q)
  case 0
  then show ?case
    by simp
next
  case (Suc n)
  obtain b p' where p': "m p = (b, p')"
    by fastforce
  note mv = moves [OF Suc.prems(1) p']
  show ?case
  proof (cases b)
    case False
    then show ?thesis
      using Suc.prems p' mv by simp
  next
    case True
    obtain j r where r: "repeat_fuel n m p' = (j, r)"
      by fastforce
    have "m_current p < m_current p'"
      using advances [of p p'] Suc.prems(1) p' True by simp
    moreover have p'r: "moved p' r"
      using Suc.IH [OF moved_in_buffer [OF mv] r] by simp
    moreover have "m_current p' \<le> m_current r"
      using p'r by (simp add: moved_def)
    moreover have "q = r"
      using Suc.prems(2) p' True r by simp
    ultimately show ?thesis
      using moved_trans [OF mv p'r] by simp
  qed
qed

lemma repeat_moves:
  "in_buffer p \<Longrightarrow> repeat m p = (k, q) \<Longrightarrow> moved p q \<and> (0 < k \<longrightarrow> m_current p < m_current q)"
  unfolding repeat_def by (rule repeat_fuel_moves)

lemma repeat_snd_moves: "in_buffer p \<Longrightarrow> moved p (snd (repeat m p))"
  using repeat_moves [of p "fst (repeat m p)" "snd (repeat m p)"] by simp

text \<open>Any fuel above the number of bytes left gives the same result.\<close>

lemma repeat_fuel_enough:
  "in_buffer p \<Longrightarrow> length (p_buffer p) - m_current p < i \<Longrightarrow>
   length (p_buffer p) - m_current p < j \<Longrightarrow> repeat_fuel i m p = repeat_fuel j m p"
proof (induction i arbitrary: p j)
  case (Suc i)
  obtain b p' where p': "m p = (b, p')"
    by fastforce
  from Suc.prems(3) obtain j' where j: "j = Suc j'"
    by (cases j) auto
  show ?case
  proof (cases b)
    case True
    have mv: "moved p p'" "m_current p < m_current p'"
      using moves [of p b p'] advances [of p p'] Suc.prems(1) p' True by simp_all
    then have "length (p_buffer p') - m_current p' < length (p_buffer p) - m_current p"
      by (rule moved_left)
    then have "repeat_fuel i m p' = repeat_fuel j' m p'"
      using Suc.IH [of p' j'] Suc.prems j moved_in_buffer [OF mv(1)] by simp
    then show ?thesis
      using p' True j by simp
  qed (simp add: p' j)
qed simp

text \<open>The loop equation: the fuel of \<^const>\<open>repeat\<close> is never used up.\<close>

lemma repeat_unfold:
  assumes "in_buffer p"
  shows "repeat m p =
    (case m p of
       (True, p') \<Rightarrow> (case repeat m p' of (k, q) \<Rightarrow> (Suc k, q))
     | (False, p') \<Rightarrow> (0, p'))"
proof -
  obtain b p' where p': "m p = (b, p')"
    by fastforce
  show ?thesis
  proof (cases b)
    case True
    have mv: "moved p p'" "m_current p < m_current p'"
      using moves [of p b p'] advances [of p p'] assms p' True by simp_all
    then have "length (p_buffer p') - m_current p' < length (p_buffer p) - m_current p"
      by (rule moved_left)
    then have "repeat_fuel (length (p_buffer p) - m_current p) m p' = repeat m p'"
      unfolding repeat_def
      by (intro repeat_fuel_enough moved_in_buffer [OF mv(1)]) simp_all
    then show ?thesis
      using p' True by (simp add: repeat_def)
  qed (simp add: repeat_def p')
qed

lemma repeat_stop: "m p = (False, p') \<Longrightarrow> repeat m p = (0, p')"
  by (simp add: repeat_def)

end

locale scanner = mover +
  assumes restores: "in_buffer p \<Longrightarrow> m p = (False, q) \<Longrightarrow> q = p"

section \<open>The combinators keep the contracts\<close>

lemma scanner_mover: "scanner m \<Longrightarrow> mover m"
  by (simp add: scanner_def)

lemma advancing_mover: "advancing m \<Longrightarrow> mover m"
  by (simp add: advancing_def)

lemma mover_and_then:
  assumes "mover a" and "mover b"
  shows "mover (and_then a b)"
proof
  fix p c q
  assume p: "in_buffer p" and eq: "and_then a b p = (c, q)"
  obtain d p' where p': "a p = (d, p')"
    by fastforce
  have "moved p p'"
    using mover.moves [OF assms(1) p p'] .
  moreover have "d \<Longrightarrow> moved p' q"
    using mover.moves [OF assms(2) moved_in_buffer [OF \<open>moved p p'\<close>]] eq p'
    by (simp add: and_then_def)
  ultimately show "moved p q"
    using eq p' by (cases d) (auto simp: and_then_def intro: moved_trans)
qed

lemma mover_or_else:
  assumes "mover a" and "mover b"
  shows "mover (or_else a b)"
proof
  fix p c q
  assume p: "in_buffer p" and eq: "or_else a b p = (c, q)"
  obtain d p' where p': "a p = (d, p')"
    by fastforce
  have "moved p p'"
    using mover.moves [OF assms(1) p p'] .
  moreover have "\<not> d \<Longrightarrow> moved p' q"
    using mover.moves [OF assms(2) moved_in_buffer [OF \<open>moved p p'\<close>]] eq p'
    by (simp add: or_else_def)
  ultimately show "moved p q"
    using eq p' by (cases d) (auto simp: or_else_def intro: moved_trans)
qed

lemma Result_True_iff [simp]: "Result m p = (True, q) \<longleftrightarrow> m p = (True, q)"
  by (auto simp: Result_def split: prod.splits bool.splits)

lemma Result_False_iff:
  "Result m p = (False, q) \<longleftrightarrow> (\<exists>p'. m p = (False, p') \<and> q = p'\<lparr>m_current := m_current p\<rparr>)"
  by (auto simp: Result_def split: prod.splits bool.splits)

lemma scanner_Result:
  assumes "mover m"
  shows "scanner (Result m)"
proof
  fix p b q
  assume p: "in_buffer p" and eq: "Result m p = (b, q)"
  show "moved p q"
  proof (cases b)
    case True
    with eq show ?thesis
      using mover.moves [OF assms p] by simp
  next
    case False
    with eq obtain p' where p': "m p = (False, p')" "q = p'\<lparr>m_current := m_current p\<rparr>"
      by (auto simp: Result_False_iff)
    then show ?thesis
      using moved_restore [OF mover.moves [OF assms p p'(1)]] p by simp
  qed
next
  fix p q
  assume p: "in_buffer p" and "Result m p = (False, q)"
  then obtain p' where p': "m p = (False, p')" "q = p'\<lparr>m_current := m_current p\<rparr>"
    by (auto simp: Result_False_iff)
  then show "q = p"
    using moved_restore [OF mover.moves [OF assms p p'(1)]] by simp
qed

lemma and_then_True_iff:
  "and_then a b p = (True, q) \<longleftrightarrow> (\<exists>p'. a p = (True, p') \<and> b p' = (True, q))"
  by (auto simp: and_then_def split: prod.splits bool.splits)

lemma or_else_False_iff:
  "or_else a b p = (False, q) \<longleftrightarrow> (\<exists>p'. a p = (False, p') \<and> b p' = (False, q))"
  by (auto simp: or_else_def split: prod.splits bool.splits)

lemma or_else_True_iff:
  "or_else a b p = (True, q) \<longleftrightarrow>
   a p = (True, q) \<or> (\<exists>p'. a p = (False, p') \<and> b p' = (True, q))"
  by (auto simp: or_else_def split: prod.splits bool.splits)

lemma scanner_or_else:
  assumes "scanner a" and "scanner b"
  shows "scanner (or_else a b)"
proof (rule scanner.intro [OF mover_or_else [OF scanner_mover [OF assms(1)]
      scanner_mover [OF assms(2)]] scanner_axioms.intro])
  fix p q
  assume p: "in_buffer p" and "or_else a b p = (False, q)"
  then obtain p' where p': "a p = (False, p')" "b p' = (False, q)"
    by (auto simp: or_else_False_iff)
  have "p' = p"
    using scanner.restores [OF assms(1) p p'(1)] .
  then show "q = p"
    using scanner.restores [OF assms(2) p, of q] p'(2) by simp
qed

lemma advancing_Result:
  assumes "advancing m"
  shows "advancing (Result m)"
proof (rule advancing.intro [OF _ advancing_axioms.intro])
  show "mover (Result m)"
    by (rule scanner_mover [OF scanner_Result [OF advancing_mover [OF assms]]])
  show "m_current p < m_current q" if "in_buffer p" "Result m p = (True, q)" for p q
    using that advancing.advances [OF assms] by simp
qed

lemma advancing_and_then:
  assumes "advancing a" and "mover b"
  shows "advancing (and_then a b)"
proof (rule advancing.intro [OF mover_and_then [OF advancing_mover [OF assms(1)] assms(2)]
      advancing_axioms.intro])
  fix p q
  assume p: "in_buffer p" and "and_then a b p = (True, q)"
  then obtain p' where p': "a p = (True, p')" "b p' = (True, q)"
    by (auto simp: and_then_True_iff)
  have "moved p p'"
    using mover.moves [OF advancing_mover [OF assms(1)] p p'(1)] .
  then have "moved p' q"
    using mover.moves [OF assms(2) _ p'(2)] by (simp add: moved_in_buffer)
  then have "m_current p' \<le> m_current q"
    by (simp add: moved_def)
  then show "m_current p < m_current q"
    using advancing.advances [OF assms(1) p p'(1)] by simp
qed

lemma advancing_or_else:
  assumes "scanner a" "advancing a" "advancing b"
  shows "advancing (or_else a b)"
proof (rule advancing.intro [OF mover_or_else [OF advancing_mover [OF assms(2)]
      advancing_mover [OF assms(3)]] advancing_axioms.intro])
  fix p q
  assume p: "in_buffer p" and "or_else a b p = (True, q)"
  then consider "a p = (True, q)" | p' where "a p = (False, p')" "b p' = (True, q)"
    by (auto simp: or_else_True_iff)
  then show "m_current p < m_current q"
  proof cases
    case 1
    then show ?thesis
      by (rule advancing.advances [OF assms(2) p])
  next
    case 2
    have "p' = p"
      using scanner.restores [OF assms(1) p 2(1)] .
    then show ?thesis
      using advancing.advances [OF assms(3) p, of q] 2(2) by simp
  qed
qed

lemma mover_repeat:
  assumes "advancing m"
  shows "mover (\<lambda>p. (True, snd (repeat m p)))"
  using advancing.repeat_snd_moves [OF assms] by unfold_locales auto

lemmas contract_intros =
  scanner_Result scanner_or_else advancing_Result advancing_and_then advancing_or_else
  mover_and_then mover_or_else scanner_mover advancing_mover mover_repeat

section \<open>The elementary matchers\<close>

lemma match_literal_iff:
  "match_literal c p = (b, q) \<longleftrightarrow>
   (if m_current p < length (p_buffer p) \<and> p_buffer p ! m_current p = c
    then b \<and> q = p\<lparr>m_current := m_current p + 1\<rparr> else \<not> b \<and> q = p)"
  by (auto simp: match_literal_def)

interpretation literal: advancing "match_literal c" for c
  by unfold_locales (auto simp: match_literal_iff in_buffer_def split: if_splits)

interpretation literal: scanner "match_literal c" for c
  by unfold_locales (auto simp: match_literal_iff in_buffer_def split: if_splits)

lemma match_byteset_iff:
  "match_byteset cs p = (b, q) \<longleftrightarrow>
   (if m_current p < length (p_buffer p) \<and> ByteSet_Find cs (p_buffer p ! m_current p)
    then b \<and> q = p\<lparr>m_current := m_current p + 1\<rparr> else \<not> b \<and> q = p)"
  by (auto simp: match_byteset_def)

interpretation byteset: advancing "match_byteset cs" for cs
  by unfold_locales (auto simp: match_byteset_iff in_buffer_def split: if_splits)

interpretation byteset: scanner "match_byteset cs" for cs
  by unfold_locales (auto simp: match_byteset_iff in_buffer_def split: if_splits)

interpretation pct_encoded: advancing match_pct_encoded
  by unfold_locales (auto simp: match_pct_encoded_def Let_def in_buffer_def split: if_splits)

interpretation pct_encoded: scanner match_pct_encoded
  by unfold_locales (auto simp: match_pct_encoded_def Let_def in_buffer_def split: if_splits)

lemmas elementary_matchers =
  literal.advancing_axioms literal.scanner_axioms byteset.advancing_axioms byteset.scanner_axioms
  pct_encoded.advancing_axioms pct_encoded.scanner_axioms


section \<open>The matchers that only move\<close>

interpretation digit: advancing match_digit
  unfolding match_digit_def by (rule byteset.advancing_axioms)

interpretation digit: scanner match_digit
  unfolding match_digit_def by (rule byteset.scanner_axioms)

interpretation alphanum: advancing match_alphanum
  unfolding match_alphanum_def by (rule byteset.advancing_axioms)

interpretation alphanum: scanner match_alphanum
  unfolding match_alphanum_def by (rule byteset.scanner_axioms)

interpretation alpha: advancing match_alpha
  unfolding match_alpha_def by (rule byteset.advancing_axioms)

interpretation alpha: scanner match_alpha
  unfolding match_alpha_def by (rule byteset.scanner_axioms)

interpretation byteset_or_pct: advancing "or_else (match_byteset cs) match_pct_encoded" for cs
  by (intro advancing_or_else elementary_matchers)

interpretation byteset_or_pct: scanner "or_else (match_byteset cs) match_pct_encoded" for cs
  by (intro scanner_or_else elementary_matchers)

interpretation pchar: advancing match_pchar
  unfolding match_pchar_def by (rule byteset_or_pct.advancing_axioms)

interpretation pchar: scanner match_pchar
  unfolding match_pchar_def by (rule byteset_or_pct.scanner_axioms)

lemma mover_loops: "mover match_segment" "mover match_port" "mover match_userinfo" "mover match_query" "mover match_fragment"
  using mover_repeat [OF pchar.advancing_axioms] mover_repeat [OF digit.advancing_axioms]
    mover_repeat [OF byteset_or_pct.advancing_axioms]
  unfolding match_segment_def match_port_def match_userinfo_def match_query_def match_fragment_def
    match_query_or_fragment_def
  by (simp_all add: eta_contract_eq)

interpretation slash_segment: advancing "Result (and_then (match_literal CHR ''/'') match_segment)"
  by (intro advancing_Result advancing_and_then literal.advancing_axioms mover_loops)

interpretation nz_nc_char: advancing "Result (or_else match_unreserved (or_else match_pct_encoded
    (or_else (match_byteset sub_delims) (match_literal CHR ''@''))))"
  unfolding match_unreserved_def
  by (intro advancing_Result advancing_or_else elementary_matchers)

interpretation nz_nc_char: scanner "Result (or_else match_unreserved (or_else match_pct_encoded
    (or_else (match_byteset sub_delims) (match_literal CHR ''@''))))"
  by (rule scanner_Result [OF mover_or_else]) 
   (auto intro: mover_or_else advancing_mover elementary_matchers simp: match_unreserved_def)

subsection \<open>Host names\<close>

interpretation hyphens_alphanum: advancing hyphens_then_alphanum
proof
  fix p b q
  assume p: "in_buffer p" and eq: "hyphens_then_alphanum p = (b, q)"
  have m1: "moved p (snd (repeat (match_literal CHR ''-'') p))"
    by (rule literal.repeat_snd_moves [OF p])
  have m2: "moved (snd (repeat (match_literal CHR ''-'') p)) q"
    using alphanum.moves [OF moved_in_buffer [OF m1]] eq by (simp add: hyphens_then_alphanum_def)
  show "moved p q"
    by (rule moved_trans [OF m1 m2])
next
  fix p q
  assume p: "in_buffer p" and eq: "hyphens_then_alphanum p = (True, q)"
  have m1: "moved p (snd (repeat (match_literal CHR ''-'') p))"
    by (rule literal.repeat_snd_moves [OF p])
  then have "m_current p \<le> m_current (snd (repeat (match_literal CHR ''-'') p))"
    by (simp add: moved_def)
  also have "\<dots> < m_current q"
    using alphanum.advances [OF moved_in_buffer [OF m1]] eq by (simp add: hyphens_then_alphanum_def)
  finally show "m_current p < m_current q" .
qed

lemma label_rest_moves: "in_buffer p \<Longrightarrow> moved p (match_label_rest p)"
proof -
  assume p: "in_buffer p"
  obtain k q where q: "repeat hyphens_then_alphanum p = (k, q)"
    by fastforce
  have m: "moved p q"
    using hyphens_alphanum.repeat_moves [OF p q] by simp
  then show ?thesis
    using p moved_restore [OF m] by (simp add: match_label_rest_def q)
qed

lemma contractI:
  assumes "\<And>p b q. in_buffer p \<Longrightarrow> m p = (b, q) \<Longrightarrow>
    moved p q \<and> (b \<longrightarrow> m_current p < m_current q) \<and> (\<not> b \<longrightarrow> q = p)"
  shows "advancing m \<and> scanner m"
  unfolding advancing_def scanner_def mover_def advancing_axioms_def scanner_axioms_def
  using assms by blast

lemma label_contract:
  assumes "advancing first" and "scanner first"
    and "\<And>p. m p = (case first p of
        (True, p') \<Rightarrow> (True, match_label_rest p')
      | (False, p') \<Rightarrow> (False, p'\<lparr>m_current := m_current p\<rparr>))"
  shows "advancing m \<and> scanner m"
proof -
  have "moved p q \<and> (b \<longrightarrow> m_current p < m_current q) \<and> (\<not> b \<longrightarrow> q = p)"
    if p: "in_buffer p" and eq: "m p = (b, q)" for p b q
  proof -
    obtain c p' where p': "first p = (c, p')"
      by fastforce
    have mv: "moved p p'"
      using mover.moves [OF advancing_mover [OF assms(1)] p p'] .
    show ?thesis
    proof (cases c)
      case True
      have m2: "moved p' (match_label_rest p')"
        by (rule label_rest_moves [OF moved_in_buffer [OF mv]])
      then have "m_current p' \<le> m_current (match_label_rest p')"
        by (simp add: moved_def)
      moreover have "m_current p < m_current p'"
        using advancing.advances [OF assms(1) p] p' True by simp
      ultimately show ?thesis
        using eq True p' moved_trans [OF mv m2] by (simp add: assms(3))
    next
      case False
      then show ?thesis
        using eq p' moved_restore [OF mv] p by (simp add: assms(3))
    qed
  qed
  then show ?thesis
    by (rule contractI)
qed

interpretation domainlabel: advancing match_domainlabel
  by (rule label_contract [OF alphanum.advancing_axioms alphanum.scanner_axioms match_domainlabel_def,
        THEN conjunct1])

interpretation toplabel: advancing match_toplabel
  by (rule label_contract [OF alpha.advancing_axioms alpha.scanner_axioms match_toplabel_def,
        THEN conjunct1])

interpretation label_dot: advancing "Result (and_then match_domainlabel (match_literal CHR ''.''))"
  by (intro advancing_Result advancing_and_then domainlabel.advancing_axioms advancing_mover
      literal.advancing_axioms)


lemma hostname_contract: "advancing match_hostname \<and> scanner match_hostname"
proof (rule contractI)
  fix p b q
  assume p: "in_buffer p" and eq: "match_hostname p = (b, q)"
  define p1 where "p1 = snd (repeat (Result (and_then match_domainlabel (match_literal CHR ''.''))) p)"
  have m1: "moved p p1"
    unfolding p1_def by (rule label_dot.repeat_snd_moves [OF p])
  obtain c p2 where p2: "match_toplabel p1 = (c, p2)"
    by fastforce
  have m2: "moved p1 p2"
    by (rule toplabel.moves [OF moved_in_buffer [OF m1] p2])
  have m3: "moved p2 (snd (match_literal CHR ''.'' p2))"
    using literal.moves [OF moved_in_buffer [OF m2]] by (metis prod.collapse)
  show "moved p q \<and> (b \<longrightarrow> m_current p < m_current q) \<and> (\<not> b \<longrightarrow> q = p)"
  proof (cases c)
    case True
    have "m_current p1 < m_current p2"
      using toplabel.advances [OF moved_in_buffer [OF m1]] p2 True by simp
    moreover have "m_current p \<le> m_current p1" "m_current p2 \<le> m_current (snd (match_literal CHR ''.'' p2))"
      using m1 m3 by (simp_all add: moved_def)
    ultimately show ?thesis
      using eq p2 True moved_trans [OF m1 moved_trans [OF m2 m3]]
      by (simp add: match_hostname_def Let_def flip: p1_def)
  next
    case False
    then show ?thesis
      using eq p2 p moved_restore [OF moved_trans [OF m1 m2]]
      by (simp add: match_hostname_def Let_def flip: p1_def)
  qed
qed

subsection \<open>IPv4 addresses\<close>

lemma ipv4_fields_moves: "in_buffer p \<Longrightarrow> match_ipv4_fields n p = (b, q) \<Longrightarrow> moved p q"
proof (induction n arbitrary: p)
  case (Suc n)
  obtain c p1 where p1: "match_digit p = (c, p1)"
    by fastforce
  have m1: "moved p p1"
    by (rule digit.moves [OF Suc.prems(1) p1])
  show ?case
  proof (cases c)
    case True
    have m2: "moved p1 (snd (repeat match_digit p1))"
      by (rule digit.repeat_snd_moves [OF moved_in_buffer [OF m1]])
    obtain d p2 where p2: "match_literal CHR ''.'' (snd (repeat match_digit p1)) = (d, p2)"
      by fastforce
    have m3: "moved p p2"
      using literal.moves [OF moved_in_buffer [OF m2] p2] moved_trans m1 m2 by blast
    then show ?thesis
      using Suc.prems(2) Suc.IH [OF moved_in_buffer [OF m3]] p1 p2 True moved_trans [OF m3]
      by (cases d) auto
  next
    case False
    then show ?thesis
      using Suc.prems(2) Suc.IH [OF moved_in_buffer [OF m1]] p1 moved_trans [OF m1] by auto
  qed
qed simp

interpretation ipv4_last: advancing match_ipv4_last
proof -
  have *: "moved p q \<and> (b \<longrightarrow> m_current p < m_current q)"
    if p: "in_buffer p" and eq: "match_ipv4_last p = (b, q)" for p b q
  proof -
    obtain c p1 where p1: "match_digit p = (c, p1)"
      by fastforce
    have m1: "moved p p1"
      by (rule digit.moves [OF p p1])
    have m2: "moved p1 (snd (repeat match_digit p1))"
      by (rule digit.repeat_snd_moves [OF moved_in_buffer [OF m1]])
    then have "m_current p1 \<le> m_current (snd (repeat match_digit p1))"
      by (simp add: moved_def)
    then show ?thesis
      using eq p1 m1 moved_trans [OF m1 m2] digit.advances [OF p]
      by (cases c) (auto simp: match_ipv4_last_def)
  qed
  show "advancing match_ipv4_last"
    unfolding advancing_def mover_def advancing_axioms_def using * by blast
qed

lemma advancing_and_then2:
  assumes "mover a" and "advancing b"
  shows "advancing (and_then a b)"
proof (rule advancing.intro [OF mover_and_then [OF assms(1) advancing_mover [OF assms(2)]]
      advancing_axioms.intro])
  fix p q
  assume p: "in_buffer p" and "and_then a b p = (True, q)"
  then obtain p' where p': "a p = (True, p')" "b p' = (True, q)"
    by (auto simp: and_then_True_iff)
  have m: "moved p p'"
    using mover.moves [OF assms(1) p p'(1)] .
  then have "m_current p \<le> m_current p'"
    by (simp add: moved_def)
  also have "\<dots> < m_current q"
    by (rule advancing.advances [OF assms(2) moved_in_buffer [OF m] p'(2)])
  finally show "m_current p < m_current q" .
qed

lemma mover_ipv4_fields: "mover (match_ipv4_fields n)"
  using ipv4_fields_moves by unfold_locales

lemma IPv4address_contract: "advancing match_IPv4address \<and> scanner match_IPv4address"
  unfolding match_IPv4address_def
  using advancing_Result [OF advancing_and_then2 [OF mover_ipv4_fields ipv4_last.advancing_axioms]]
    scanner_Result [OF mover_and_then [OF mover_ipv4_fields advancing_mover [OF ipv4_last.advancing_axioms]]]
  by blast

lemma IP_literal_contract: "advancing match_IP_literal \<and> scanner match_IP_literal"
  by (rule contractI) (auto simp: match_IP_literal_def)

interpretation host_name: advancing "or_else match_reg_name (or_else match_IPv4address match_IP_literal)"
  unfolding match_reg_name_def
  using hostname_contract IPv4address_contract IP_literal_contract
  by (intro advancing_or_else) auto

interpretation host_name: scanner "or_else match_reg_name (or_else match_IPv4address match_IP_literal)"
  unfolding match_reg_name_def
  using hostname_contract IPv4address_contract IP_literal_contract
  by (intro scanner_or_else) auto

lemma slash_segments_moves: "in_buffer p \<Longrightarrow> moved p (match_slash_segments p)"
  unfolding match_slash_segments_def by (rule slash_segment.repeat_snd_moves)

end
