(* ===== verification/Uri_Roundtrip.thy ===== *)
theory Uri_Roundtrip
  imports Uri_Parser_Correct
begin

text \<open>
  What the matchers that store into the URI do. \<open>consumed p x u q\<close> says that a matcher read exactly
  the bytes \<open>x\<close> and left the URI \<open>u\<close>; such effects compose by concatenating the texts. The storing
  matchers are described in this form, up to \<^verbatim>\<open>URI::Parse\<close>, whose success is shown to mean that
  \<^verbatim>\<open>URI::ToString\<close> gives the parsed text back.
\<close>

section \<open>Consumed text\<close>

definition consumed :: "uri_parser \<Rightarrow> string \<Rightarrow> uri \<Rightarrow> uri_parser \<Rightarrow> bool" where
  "consumed p x u q \<longleftrightarrow>
     q = p\<lparr>m_current := m_current p + length x, m_result := u\<rparr> \<and>
     (\<exists>y. drop (m_current p) (p_buffer p) = x @ y)"

lemma consumedD:
  assumes "consumed p x u q"
  shows "m_result q = u" "p_buffer q = p_buffer p" "m_current q = m_current p + length x"
  using assms by (auto simp: consumed_def)

lemma consumed_trans:
  assumes "consumed p x u q" and "consumed q y v r"
  shows "consumed p (x @ y) v r"
proof -
  from assms obtain z w where "drop (m_current p) (p_buffer p) = x @ z"
    "drop (m_current p + length x) (p_buffer p) = y @ w"
    by (auto simp: consumed_def)
  then have "z = y @ w"
    by (metis add.commute append_eq_conv_conj drop_drop)
  then show ?thesis
    using assms \<open>drop (m_current p) (p_buffer p) = x @ z\<close> by (auto simp: consumed_def)
qed

lemma consumed_refl [simp]: "consumed p [] (m_result p) p"
  by (simp add: consumed_def)

lemma consumed_in_buffer:
  assumes "in_buffer p" and "consumed p x u q"
  shows "in_buffer q"
proof -
  from assms(2) obtain y where q: "q = p\<lparr>m_current := m_current p + length x, m_result := u\<rparr>"
    "drop (m_current p) (p_buffer p) = x @ y"
    by (auto simp: consumed_def)
  then have "length (p_buffer p) - m_current p = length x + length y"
    by (metis length_append length_drop)
  then show ?thesis
    using assms(1) q(1) by (simp add: in_buffer_def)
qed

lemma consumed_set_result:
  "consumed p x u q \<Longrightarrow> consumed p x (f u) (set_result f q)"
  by (auto simp: consumed_def set_result_def)

lemma drop_eq_slice_append: "drop b s = slice s b n @ drop n (drop b s)"
  unfolding slice_def by (rule append_take_drop_id [symmetric])

lemma moved_consumed:
  assumes "moved p q"
  shows "consumed p (text_until 0 p q) (m_result p) q"
proof -
  obtain k where k: "q = p\<lparr>m_current := k\<rparr>" "m_current p \<le> k" "k \<le> length (p_buffer p)"
    using assms by (rule movedE)
  then show ?thesis
    unfolding consumed_def
    using drop_eq_slice_append [of "m_current p" "p_buffer p" "k - m_current p"]
    by (auto simp: text_until_def length_slice)
qed

lemma consumed_slice:
  assumes "consumed p x u q"
  shows "text_until 0 p q = x" "text_until 1 p q = butlast x" "text_from 1 p q = tl x"
proof -
  obtain y where q: "q = p\<lparr>m_current := m_current p + length x, m_result := u\<rparr>"
    and x: "drop (m_current p) (p_buffer p) = x @ y"
    using assms by (auto simp: consumed_def)
  have "drop (m_current p + 1) (p_buffer p) = tl x @ y" if "x \<noteq> []"
    using x that by (cases x) (auto simp: drop_Suc simp flip: drop_drop tl_drop)
  then show "text_until 0 p q = x" "text_until 1 p q = butlast x" "text_from 1 p q = tl x"
    using x by (cases "x = []"; simp add: q text_until_def text_from_def slice_def butlast_conv_take)+
qed

lemma literal_consumed:
  assumes "match_literal c p = (True, q)"
  shows "consumed p [c] (m_result p) q"
  using assms by (auto simp: match_literal_iff consumed_def drop_split1 split: if_splits)

lemma literal_str_consumed:
  assumes "match_literal_str l p = (True, q)"
  shows "consumed p l (m_result p) q"
proof -
  have "slice (p_buffer p) (m_current p) (length l) = l" "q = p\<lparr>m_current := m_current p + length l\<rparr>"
    using assms by (auto simp: match_literal_str_def split: if_splits)
  then show ?thesis
    unfolding consumed_def
    using drop_eq_slice_append [of "m_current p" "p_buffer p" "length l"] by auto
qed

lemma literal_str_fails: "match_literal_str l p = (False, q) \<Longrightarrow> q = p"
  by (auto simp: match_literal_str_def split: if_splits)


section \<open>The storing matchers\<close>

text \<open>\<open>next_is p c\<close>: the next byte is \<open>c\<close>.\<close>

definition next_is :: "uri_parser \<Rightarrow> char \<Rightarrow> bool" where
  "next_is p c \<longleftrightarrow> m_current p < length (p_buffer p) \<and> p_buffer p ! m_current p = c"

lemma next_isI: "drop (m_current p) (p_buffer p) = c # y \<Longrightarrow> next_is p c"
  unfolding next_is_def by (cases "m_current p < length (p_buffer p)") (auto simp: nth_via_drop)

lemma match_literal_next:
  "match_literal c p = (if next_is p c then (True, p\<lparr>m_current := m_current p + 1\<rparr>) else (False, p))"
  by (simp add: match_literal_def next_is_def)

lemma next_is_set_result [simp]: "next_is (set_result f p) c = next_is p c"
  by (simp add: next_is_def set_result_def)

lemma next_is_unique: "next_is p c \<Longrightarrow> next_is p d \<Longrightarrow> c = d"
  by (simp add: next_is_def)

text \<open>A separator followed by a matcher that always succeeds: port, query and fragment.\<close>

lemma optional_part:
  assumes p: "in_buffer p" and m: "mover m" and total: "\<And>p. fst (m p)"
    and q: "q = (case Result (and_then (match_literal c) m) p of
      (True, r) \<Rightarrow> set_result (F (text_from 1 p r)) r | (False, r) \<Rightarrow> r)"
  shows "if next_is p c then \<exists>x. consumed p (c # x) (F x (m_result p)) q else q = p"
proof (cases "next_is p c")
  case True
  define p1 where "p1 = p\<lparr>m_current := m_current p + 1\<rparr>"
  have p1: "match_literal c p = (True, p1)"
    using True by (simp add: match_literal_next p1_def)
  note c1 = literal_consumed [OF p1]
  have mr: "m p1 = (True, snd (m p1))"
    using total [of p1] by (metis prod.collapse)
  have c2: "consumed p1 (text_until 0 p1 (snd (m p1))) (m_result p1) (snd (m p1))"
    by (rule moved_consumed [OF mover.moves [OF m consumed_in_buffer [OF p c1] mr]])
  then have c: "consumed p (c # text_until 0 p1 (snd (m p1))) (m_result p) (snd (m p1))"
    using consumed_trans [OF c1 c2] consumedD(1) [OF c1] by simp
  have "Result (and_then (match_literal c) m) p = (True, snd (m p1))"
    unfolding Result_True_iff and_then_True_iff using p1 mr by blast
  then have "q = set_result (F (text_until 0 p1 (snd (m p1)))) (snd (m p1))"
    using q consumed_slice(3) [OF c] by (simp del: Result_True_iff)
  then show ?thesis
    using True consumed_set_result [OF c] by auto
next
  case False
  then show ?thesis
    using q by (simp add: match_literal_next Result_def and_then_def)
qed

lemma opt_port_stores:
  assumes "in_buffer p"
  shows "if next_is p CHR '':'' then \<exists>x. consumed p (CHR '':'' # x) (URI_SetPort x (m_result p)) (match_opt_port p)
    else match_opt_port p = p"
  by (rule optional_part [OF assms mover_loops(2) _ match_opt_port_def]) (simp add: match_port_def)

lemma opt_query_stores:
  assumes "in_buffer p"
  shows "if next_is p CHR ''?'' then \<exists>x. consumed p (CHR ''?'' # x) (URI_SetQuery x (m_result p)) (match_opt_query p)
    else match_opt_query p = p"
  by (rule optional_part [OF assms mover_loops(4) _ match_opt_query_def])
    (simp add: match_query_def match_query_or_fragment_def)

lemma opt_fragment_stores:
  assumes "in_buffer p"
  shows "if next_is p CHR ''#'' then \<exists>x. consumed p (CHR ''#'' # x) (URI_SetFragment x (m_result p)) (match_opt_fragment p)
    else match_opt_fragment p = p"
  by (rule optional_part [OF assms mover_loops(5) _ match_opt_fragment_def])
    (simp add: match_fragment_def match_query_or_fragment_def)

lemma opt_userinfo_stores:
  assumes p: "in_buffer p"
  shows "match_opt_userinfo p = p \<or>
    (\<exists>x. consumed p (x @ ''@'') (URI_SetUserInfo x (m_result p)) (match_opt_userinfo p))"
proof -
  let ?m = "and_then match_userinfo (match_literal CHR ''@'')"
  obtain b r where r: "Result ?m p = (b, r)"
    by fastforce
  show ?thesis
  proof (cases "maybe_contains_userinfo p \<and> b")
    case True
    then obtain p1 where p1: "match_userinfo p = (True, p1)" "match_literal CHR ''@'' p1 = (True, r)"
      using r by (auto simp: and_then_True_iff)
    note c1 = moved_consumed [OF mover.moves [OF mover_loops(3) p p1(1)]]
    have c: "consumed p (text_until 0 p p1 @ ''@'') (m_result p) r"
      using consumed_trans [OF c1 literal_consumed [OF p1(2)]] consumedD(1) [OF c1] by simp
    then have "match_opt_userinfo p = set_result (URI_SetUserInfo (text_until 0 p p1)) r"
      using True r consumed_slice(2) [OF c] by (simp add: match_opt_userinfo_def del: Result_True_iff)
    then show ?thesis
      using consumed_set_result [OF c] by auto
  next
    case False
    have "scanner (Result ?m)"
      by (intro scanner_Result mover_and_then mover_loops advancing_mover literal.advancing_axioms)
    then have "b \<or> r = p"
      using scanner.restores [OF _ p] r by (cases b) auto
    then show ?thesis
      using False r by (auto simp: match_opt_userinfo_def)
  qed
qed

lemma match_host_stores:
  assumes p: "in_buffer p" and eq: "match_host p = (True, q)"
  shows "\<exists>x. x \<noteq> [] \<and> consumed p x (URI_SetHost x (m_result p)) q"
proof -
  from eq obtain r where r: "or_else match_reg_name (or_else match_IPv4address match_IP_literal) p = (True, r)"
    "q = set_result (URI_SetHost (text_until 0 p r)) r"
    by (auto simp: match_host_def split: prod.splits bool.splits)
  note c = moved_consumed [OF host_name.moves [OF p r(1)]]
  have "text_until 0 p r \<noteq> []"
    using host_name.advances [OF p r(1)] consumedD(3) [OF c] by auto
  then show ?thesis
    using r(2) consumed_set_result [OF c] by auto
qed

lemma match_host_fails: "in_buffer p \<Longrightarrow> match_host p = (False, q) \<Longrightarrow> q = p"
  using host_name.restores by (auto simp: match_host_def split: prod.splits bool.splits)

text \<open>An authority is stored exactly as written when no user information or port was stored before.\<close>

definition fresh_authority :: "uri \<Rightarrow> bool" where
  "fresh_authority u \<longleftrightarrow> \<not> m_has_user_info (m_authority u) \<and> \<not> m_has_port (m_authority u)"

lemma opt_port_text:
  assumes p: "in_buffer p" and port: "m_has_authority (m_result p)" "\<not> m_has_port (m_authority (m_result p))"
    and a: "a = m_authority (m_result p)"
  shows "\<exists>x b. consumed p x ((m_result p)\<lparr>m_authority := b\<rparr>) (match_opt_port p) \<and>
    authority_text b = authority_text a @ x"
proof (cases "next_is p CHR '':''")
  case True
  then obtain x where x: "consumed p (CHR '':'' # x) (URI_SetPort x (m_result p)) (match_opt_port p)"
    using opt_port_stores [OF p] by auto
  have "URI_SetPort x (m_result p) = (m_result p)\<lparr>m_authority := UriAuthority_SetPort x a\<rparr>"
    using port by (simp add: a uri_setter_defs)
  moreover have "authority_text (UriAuthority_SetPort x a) = authority_text a @ CHR '':'' # x"
    using port by (simp add: a uri_setter_defs authority_text_def)
  ultimately show ?thesis
    using x by metis
next
  case False
  then have "match_opt_port p = p"
    using opt_port_stores [OF p] by simp
  then show ?thesis
    by (intro exI [of _ "[]"] exI [of _ a]) (simp add: a)
qed

lemma match_authority_stores:
  assumes p: "in_buffer p" and fresh: "fresh_authority (m_result p)"
    and eq: "match_authority p = (True, q)"
  shows "\<exists>a. consumed p (authority_text a) ((m_result p)\<lparr>m_has_authority := True, m_authority := a\<rparr>) q"
proof -
  define p1 where "p1 = match_opt_userinfo p"
  obtain x u where x: "consumed p x u p1"
    and u: "u = m_result p \<and> x = [] \<or> (\<exists>i. u = URI_SetUserInfo i (m_result p) \<and> x = i @ ''@'')"
    using opt_userinfo_stores [OF p] consumed_refl [of p] unfolding p1_def by metis
  obtain p2 where p2: "match_host p1 = (True, p2)" "q = match_opt_port p2"
    using eq by (auto simp: match_authority_def p1_def split: prod.splits bool.splits)
  have b1: "in_buffer p1"
    by (rule consumed_in_buffer [OF p x])
  obtain h where h: "consumed p1 h (URI_SetHost h u) p2"
    using match_host_stores [OF b1 p2(1)] consumedD(1) [OF x] by auto
  have b2: "in_buffer p2"
    by (rule consumed_in_buffer [OF b1 h])
  define v where "v = URI_SetHost h u"
  have v: "m_result p2 = v"
    using consumedD(1) [OF h] by (simp add: v_def)
  have v2: "m_has_authority v" "\<not> m_has_port (m_authority v)"
      "v = (m_result p)\<lparr>m_has_authority := True, m_authority := m_authority v\<rparr>"
      "authority_text (m_authority v) = x @ h"
    using u fresh by (auto simp: v_def uri_setter_defs fresh_authority_def authority_text_def)
  obtain y b where y: "consumed p2 y (v\<lparr>m_authority := b\<rparr>) q"
    "authority_text b = authority_text (m_authority v) @ y"
    using opt_port_text [OF b2, unfolded v, OF v2(1,2) refl, folded p2(2)] by blast
  have "consumed p (x @ h @ y) (v\<lparr>m_authority := b\<rparr>) q"
    by (rule consumed_trans [OF x consumed_trans [OF h y(1)]])
  moreover have "v\<lparr>m_authority := b\<rparr> = (m_result p)\<lparr>m_has_authority := True, m_authority := b\<rparr>"
    by (subst v2(3)) simp
  ultimately show ?thesis
    using y(2) v2(4) by (intro exI [of _ b]) simp
qed

lemma match_authority_fails:
  assumes p: "in_buffer p" and eq: "match_authority p = (False, q)"
  shows "p_buffer q = p_buffer p"
proof -
  have "match_host (match_opt_userinfo p) = (False, q)"
    using eq by (auto simp: match_authority_def split: prod.splits bool.splits)
  moreover have "\<exists>x u. consumed p x u (match_opt_userinfo p)"
    using opt_userinfo_stores [OF p] consumed_refl [of p] by metis
  ultimately show ?thesis
    using match_host_fails consumed_in_buffer [OF p] consumedD(2) by metis
qed

subsection \<open>Paths\<close>

lemma slash_segments_consumed:
  "in_buffer p \<Longrightarrow> consumed p (text_until 0 p (match_slash_segments p)) (m_result p) (match_slash_segments p)"
  by (rule moved_consumed [OF slash_segments_moves])

lemma path_abempty_stores:
  assumes "in_buffer p"
  shows "\<exists>x. match_path_abempty p = (True, set_result (URI_SetPath x) (match_slash_segments p)) \<and>
    consumed p x (URI_SetPath x (m_result p)) (set_result (URI_SetPath x) (match_slash_segments p))"
  using consumed_set_result [OF slash_segments_consumed [OF assms]]
  by (auto simp: match_path_abempty_def Let_def)

lemma segment_nz_moves:
  assumes "in_buffer p" "match_segment_nz p = (b, q)"
  shows "moved p q \<and> (b \<longrightarrow> m_current p < m_current q) \<and> (\<not> b \<longrightarrow> q = p)"
proof -
  obtain k r where r: "repeat match_pchar p = (k, r)"
    by fastforce
  have "k = 0 \<Longrightarrow> r = p"
    using pchar.repeat_unfold [OF assms(1)] pchar.restores [OF assms(1)] r
    by (auto split: prod.splits bool.splits)
  then show ?thesis
    using pchar.repeat_moves [OF assms(1) r] assms(2) r by (auto simp: match_segment_nz_def)
qed

lemma segment_nz_nc_moves:
  assumes "in_buffer p" "match_segment_nz_nc p = (b, q)"
  shows "moved p q \<and> (b \<longrightarrow> m_current p < m_current q) \<and> (\<not> b \<longrightarrow> q = p)"
proof -
  let ?m = "Result (or_else match_unreserved (or_else match_pct_encoded
    (or_else (match_byteset sub_delims) (match_literal CHR ''@''))))"
  obtain k r where r: "repeat ?m p = (k, r)"
    by fastforce
  have "k = 0 \<Longrightarrow> r = p"
    using nz_nc_char.repeat_unfold [OF assms(1)] nz_nc_char.restores [OF assms(1)] r
    by (auto split: prod.splits bool.splits simp del: Result_True_iff)
  then show ?thesis
    using nz_nc_char.repeat_moves [OF assms(1) r] assms(2) r by (auto simp: match_segment_nz_nc_def)
qed

text \<open>The contract of the path matchers: store what was read, or leave the state alone.\<close>

locale path_matcher =
  fixes m :: matcher
  assumes stores: "in_buffer p \<Longrightarrow> m p = (True, q) \<Longrightarrow> \<exists>x. consumed p x (URI_SetPath x (m_result p)) q"
    and rejects: "in_buffer p \<Longrightarrow> m p = (False, q) \<Longrightarrow> q = p"

lemma path_matcher_or_else:
  assumes "path_matcher a" and "path_matcher b"
  shows "path_matcher (or_else a b)"
proof
  fix p q
  assume p: "in_buffer p"
  have r: "a p = (False, p') \<Longrightarrow> p' = p" for p'
    using path_matcher.rejects [OF assms(1) p] .
  show "\<exists>x. consumed p x (URI_SetPath x (m_result p)) q" if "or_else a b p = (True, q)"
    using that path_matcher.stores [OF assms(1) p] path_matcher.stores [OF assms(2) p] r
    by (auto simp: or_else_True_iff)
  show "q = p" if "or_else a b p = (False, q)"
    using that path_matcher.rejects [OF assms(2) p] r by (auto simp: or_else_False_iff)
qed

interpretation path_abempty: path_matcher match_path_abempty
  by unfold_locales (use path_abempty_stores in fastforce)+

interpretation path_empty: path_matcher match_path_empty
proof
  show "\<exists>x. consumed p x (URI_SetPath x (m_result p)) q" if "match_path_empty p = (True, q)" for p q
    using that consumed_set_result [OF consumed_refl [of p], of "URI_SetPath []"]
    by (auto simp: match_path_empty_def)
qed (simp add: match_path_empty_def)

text \<open>\<^verbatim>\<open>path_noscheme\<close> and \<^verbatim>\<open>path_rootless\<close>: a nonempty first segment and the segments after it.\<close>

lemma path_matcher_segments:
  assumes first: "\<And>p b q. in_buffer p \<Longrightarrow> first p = (b, q) \<Longrightarrow> moved p q \<and> (\<not> b \<longrightarrow> q = p)"
    and m: "\<And>p. m p = (case first p of
        (False, p1) \<Rightarrow> (False, p1)
      | (True, p1) \<Rightarrow>
          (let q = match_slash_segments p1
           in (True, set_result (URI_SetPath (text_until 0 p q)) q)))"
  shows "path_matcher m"
proof
  fix p q
  assume p: "in_buffer p"
  show "\<exists>x. consumed p x (URI_SetPath x (m_result p)) q" if eq: "m p = (True, q)"
  proof -
    obtain p1 where p1: "first p = (True, p1)"
      "q = set_result (URI_SetPath (text_until 0 p (match_slash_segments p1))) (match_slash_segments p1)"
      using eq by (auto simp: m Let_def split: prod.splits bool.splits)
    have "moved p p1"
      using first [OF p p1(1)] by simp
    then have "moved p (match_slash_segments p1)"
      using slash_segments_moves [OF moved_in_buffer] moved_trans by blast
    from consumed_set_result [OF moved_consumed [OF this]] show ?thesis
      using p1(2) by blast
  qed
  show "q = p" if "m p = (False, q)"
    using that first [OF p] by (auto simp: m Let_def split: prod.splits bool.splits)
qed

interpretation path_noscheme: path_matcher match_path_noscheme
  by (rule path_matcher_segments [OF _ match_path_noscheme_def]) (use segment_nz_nc_moves in blast)

interpretation path_rootless: path_matcher match_path_rootless
  by (rule path_matcher_segments [OF _ match_path_rootless_def]) (use segment_nz_moves in blast)

lemma path_absolute_moves:
  assumes p: "in_buffer p" and eq: "match_literal CHR ''/'' p = (True, p1)"
  shows "moved p (case match_segment_nz p1 of (True, p2) \<Rightarrow> match_slash_segments p2 | (False, p2) \<Rightarrow> p2)"
proof -
  have m: "moved p p1"
    by (rule literal.moves [OF p eq])
  obtain b p2 where p2: "match_segment_nz p1 = (b, p2)"
    by fastforce
  have m2: "moved p p2"
    using segment_nz_moves [OF moved_in_buffer [OF m] p2] moved_trans [OF m] by blast
  then show ?thesis
    using p2 moved_trans [OF m2 slash_segments_moves [OF moved_in_buffer [OF m2]]] by (cases b) simp_all
qed

interpretation path_absolute: path_matcher match_path_absolute
proof
  fix p q
  assume p: "in_buffer p"
  show "\<exists>x. consumed p x (URI_SetPath x (m_result p)) q" if eq: "match_path_absolute p = (True, q)"
  proof -
    obtain p1 where p1: "match_literal CHR ''/'' p = (True, p1)"
      using eq by (auto simp: match_path_absolute_def Let_def split: prod.splits bool.splits)
    from consumed_set_result [OF moved_consumed [OF path_absolute_moves [OF p p1]]] show ?thesis
      using eq p1 by (auto simp: match_path_absolute_def Let_def)
  qed
  show "q = p" if "match_path_absolute p = (False, q)"
    using that literal.restores [OF p]
    by (auto simp: match_path_absolute_def Let_def split: prod.splits bool.splits)
qed

text \<open>Where no path can start, and where \<^verbatim>\<open>path_absolute\<close> meets a second slash.\<close>

definition path_stop :: "uri_parser \<Rightarrow> bool" where
  "path_stop p \<longleftrightarrow> m_current p = length (p_buffer p) \<or> next_is p CHR ''?'' \<or> next_is p CHR ''#''"

lemma not_in_pchar: "c \<in> {CHR ''?'', CHR ''#'', CHR ''/''} \<Longrightarrow> \<not> ByteSet_Find pchar c \<and>
   \<not> ByteSet_Find unreserved c \<and> \<not> ByteSet_Find sub_delims c"
  by (auto simp: pchar_def unreserved_def sub_delims_def char_class c_str_def ctype_defs)

lemma pct_encoded_next: "\<not> next_is p CHR ''%'' \<Longrightarrow> match_pct_encoded p = (False, p)"
  by (auto simp: match_pct_encoded_def next_is_def Let_def)

lemma pchar_stop:
  assumes "path_stop p \<or> next_is p CHR ''/''"
  shows "match_pchar p = (False, p)"
proof -
  have "\<not> next_is p CHR ''%''"
    using assms by (auto simp: path_stop_def next_is_def)
  moreover have "match_byteset pchar p = (False, p)"
    using assms not_in_pchar [of "p_buffer p ! m_current p"]
    unfolding path_stop_def next_is_def match_byteset_def by auto
  ultimately show ?thesis
    by (simp add: match_pchar_def or_else_def pct_encoded_next)
qed

lemma nz_nc_char_stop:
  assumes "path_stop p \<or> next_is p CHR ''/''"
  shows "Result (or_else match_unreserved (or_else match_pct_encoded
    (or_else (match_byteset sub_delims) (match_literal CHR ''@'')))) p = (False, p)"
proof -
  have "\<not> next_is p CHR ''%''" "\<not> next_is p CHR ''@''"
    using assms by (auto simp: path_stop_def next_is_def)
  moreover have "match_byteset sub_delims p = (False, p)" "match_unreserved p = (False, p)"
    using assms not_in_pchar [of "p_buffer p ! m_current p"]
    unfolding path_stop_def next_is_def match_byteset_def match_unreserved_def by auto
  ultimately show ?thesis
    by (simp add: Result_def or_else_def pct_encoded_next match_literal_next)
qed

lemma path_alternatives_stop:
  assumes "path_stop p"
  shows "or_else match_path_absolute (or_else match_path_rootless match_path_empty) p =
      (True, set_result (URI_SetPath []) p)"
proof -
  have "\<not> next_is p CHR ''/''"
    using assms by (auto simp: path_stop_def next_is_def)
  then have "match_path_absolute p = (False, p)"
    by (simp add: match_path_absolute_def match_literal_next)
  moreover have "match_path_rootless p = (False, p)"
    using assms pchar.repeat_stop [of p p] pchar_stop [of p]
    by (simp add: match_path_rootless_def match_segment_nz_def)
  ultimately show ?thesis
    by (simp add: or_else_def match_path_empty_def)
qed

lemma path_absolute_double_slash:
  assumes "match_literal_str ''//'' p = (True, p')"
  shows "match_path_absolute p = (True, set_result (URI_SetPath ''/'') (p\<lparr>m_current := m_current p + 1\<rparr>))"
    and "next_is (p\<lparr>m_current := m_current p + 1\<rparr>) CHR ''/''"
proof -
  let ?q = "p\<lparr>m_current := m_current p + 1\<rparr>"
  obtain y where y: "drop (m_current p) (p_buffer p) = ''//'' @ y"
    using literal_str_consumed [OF assms] by (auto simp: consumed_def)
  then have "drop (Suc (m_current p)) (p_buffer p) = ''/'' @ y"
    by (simp add: drop_Suc flip: tl_drop)
  then show n2: "next_is ?q CHR ''/''"
    by (intro next_isI) simp
  have n1: "next_is p CHR ''/''"
    using y by (intro next_isI) simp
  have "match_segment_nz ?q = (False, ?q)"
    using n2 pchar.repeat_stop [of ?q ?q] pchar_stop [of ?q] by (simp add: match_segment_nz_def)
  moreover have "text_until 0 p ?q = ''/''"
    using n1 by (simp add: text_until_def next_is_def slice_nth)
  ultimately show "match_path_absolute p = (True, set_result (URI_SetPath ''/'') ?q)"
    using n1 by (simp add: match_path_absolute_def match_literal_next Let_def)
qed

section \<open>URI references\<close>

lemma slash_slash_authority_stores:
  assumes p: "in_buffer p" and fresh: "fresh_authority (m_result p)"
    and eq: "match_slash_slash_authority p = (True, q)"
  shows "\<exists>a x. consumed p (''//'' @ authority_text a @ x)
    ((m_result p)\<lparr>m_has_authority := True, m_authority := a, m_path := x\<rparr>) q"
proof -
  obtain p1 p2 where p1: "match_literal_str ''//'' p = (True, p1)" and p2: "match_authority p1 = (True, p2)"
    and q: "match_path_abempty p2 = (True, q)"
    using eq by (auto simp: match_slash_slash_authority_def and_then_True_iff)
  note c1 = literal_str_consumed [OF p1]
  have b1: "in_buffer p1"
    by (rule consumed_in_buffer [OF p c1])
  obtain a where c2: "consumed p1 (authority_text a) ((m_result p)\<lparr>m_has_authority := True, m_authority := a\<rparr>) p2"
    using match_authority_stores [OF b1 _ p2] fresh consumedD(1) [OF c1] by auto
  have b2: "in_buffer p2"
    by (rule consumed_in_buffer [OF b1 c2])
  obtain x where c3: "consumed p2 x (URI_SetPath x (m_result p2)) q"
    using path_abempty.stores [OF b2 q] by blast
  show ?thesis
    using consumed_trans [OF c1 consumed_trans [OF c2 c3]] consumedD(1) [OF c2]
    by (auto simp: URI_SetPath_def)
qed

lemma slash_slash_authority_fails:
  assumes p: "in_buffer p" and eq: "Result match_slash_slash_authority p = (False, q)"
  shows "m_current q = m_current p \<and> p_buffer q = p_buffer p \<and>
    (q = p \<or> (\<exists>r. match_literal_str ''//'' p = (True, r)))"
proof -
  obtain r where r: "match_slash_slash_authority p = (False, r)" "q = r\<lparr>m_current := m_current p\<rparr>"
    using eq by (auto simp: Result_False_iff)
  obtain b p1 where p1: "match_literal_str ''//'' p = (b, p1)"
    by fastforce
  show ?thesis
  proof (cases b)
    case True
    then have c1: "consumed p ''//'' (m_result p) p1"
      using literal_str_consumed p1 by simp
    obtain d p2 where p2: "match_authority p1 = (d, p2)"
      by fastforce
    have "\<not> d"
    proof
      assume d
      then show False
        using r(1) p1 p2 True
        by (auto simp: match_slash_slash_authority_def and_then_def match_path_abempty_def Let_def)
    qed
    then have "r = p2"
      using r(1) p1 p2 True by (auto simp: match_slash_slash_authority_def and_then_def)
    moreover have "p_buffer p2 = p_buffer p1"
      using match_authority_fails [OF consumed_in_buffer [OF p c1], of p2] p2 \<open>\<not> d\<close> by simp
    ultimately show ?thesis
      using r(2) p1 True consumedD(2) [OF c1] by auto
  next
    case False
    then have "r = p"
      using r(1) p1 literal_str_fails [of "''//''" p p1]
      by (auto simp: match_slash_slash_authority_def and_then_def)
    then show ?thesis
      using r(2) by simp
  qed
qed

text \<open>\<^verbatim>\<open>match_hier_part\<close> always succeeds; without an authority it ends where it started.\<close>

lemma match_hier_part_effect:
  assumes p: "in_buffer p" and fresh: "fresh_authority (m_result p)"
  obtains (authority) q a x where "match_hier_part p = (True, q)"
      "consumed p (''//'' @ authority_text a @ x)
        ((m_result p)\<lparr>m_has_authority := True, m_authority := a, m_path := x\<rparr>) q"
    | (rollback) q where "match_hier_part p = (True, q)" "m_current q = m_current p"
      "p_buffer q = p_buffer p" "path_stop p \<Longrightarrow> q = set_result (URI_SetPath []) p"
proof -
  let ?alt = "or_else match_path_absolute (or_else match_path_rootless match_path_empty)"
  obtain b r where r: "Result match_slash_slash_authority p = (b, r)"
    by fastforce
  show thesis
  proof (cases b)
    case True
    then show thesis
      using r authority slash_slash_authority_stores [OF p fresh]
      by (auto simp: match_hier_part_def Result_def split: prod.splits bool.splits)
  next
    case False
    then have rf: "m_current r = m_current p" "p_buffer r = p_buffer p"
        "r = p \<or> (\<exists>r. match_literal_str ''//'' p = (True, r))"
      using slash_slash_authority_fails [OF p] r by auto
    have br: "in_buffer r"
      using rf p by (simp add: in_buffer_def)
    obtain q where q: "?alt r = (True, q)"
      by (cases "?alt r") (auto simp: or_else_def match_path_empty_def split: prod.splits bool.splits)
    have pm: "path_matcher ?alt"
      by (intro path_matcher_or_else path_absolute.path_matcher_axioms path_rootless.path_matcher_axioms
          path_empty.path_matcher_axioms)
    obtain y where y: "consumed r y (URI_SetPath y (m_result r)) q"
      using path_matcher.stores [OF pm br q] by blast
    have "\<not> next_is p CHR ''/'' \<Longrightarrow> r = p"
      using rf(3) by (auto dest!: literal_str_consumed simp: consumed_def intro: next_isI)
    moreover have "path_stop p \<Longrightarrow> \<not> next_is p CHR ''/''"
      by (auto simp: path_stop_def next_is_def)
    ultimately have "path_stop p \<Longrightarrow> q = set_result (URI_SetPath []) p"
      using path_alternatives_stop [of p] q by auto
    then show thesis
      using rollback [of "q\<lparr>m_current := m_current p\<rparr>"] r False q rf consumedD(2) [OF y]
      by (simp add: match_hier_part_def set_result_def)
  qed
qed

text \<open>The query and the fragment append to the text of the URI.\<close>

definition no_query_fragment :: "uri \<Rightarrow> bool" where
  "no_query_fragment u \<longleftrightarrow> \<not> m_has_query u \<and> \<not> m_has_fragment u"

lemma opt_query_text:
  assumes "in_buffer p"
  shows "\<exists>x u. consumed p x u (match_opt_query p) \<and>
    (no_query_fragment (m_result p) \<longrightarrow>
       uri_text u = uri_text (m_result p) @ x \<and> \<not> m_has_fragment u)"
proof (cases "next_is p CHR ''?''")
  case True
  then obtain x where "consumed p (CHR ''?'' # x) (URI_SetQuery x (m_result p)) (match_opt_query p)"
    using opt_query_stores [OF assms] by auto
  moreover have "uri_text (URI_SetQuery x (m_result p)) = uri_text (m_result p) @ CHR ''?'' # x \<and>
      \<not> m_has_fragment (URI_SetQuery x (m_result p))" if "no_query_fragment (m_result p)"
    using that by (simp add: URI_SetQuery_def uri_text_def no_query_fragment_def)
  ultimately show ?thesis
    by blast
next
  case False
  then have "match_opt_query p = p"
    using opt_query_stores [OF assms] by simp
  then show ?thesis
    by (intro exI [of _ "[]"] exI [of _ "m_result p"]) (simp add: no_query_fragment_def)
qed

lemma opt_fragment_text:
  assumes "in_buffer p"
  shows "\<exists>x u. consumed p x u (match_opt_fragment p) \<and>
    (\<not> m_has_fragment (m_result p) \<longrightarrow> uri_text u = uri_text (m_result p) @ x)"
proof (cases "next_is p CHR ''#''")
  case True
  then obtain x where "consumed p (CHR ''#'' # x) (URI_SetFragment x (m_result p)) (match_opt_fragment p)"
    using opt_fragment_stores [OF assms] by auto
  moreover have "\<not> m_has_fragment (m_result p) \<longrightarrow>
      uri_text (URI_SetFragment x (m_result p)) = uri_text (m_result p) @ CHR ''#'' # x"
    by (simp add: URI_SetFragment_def uri_text_def)
  ultimately show ?thesis
    by blast
next
  case False
  then have "match_opt_fragment p = p"
    using opt_fragment_stores [OF assms] by simp
  then show ?thesis
    by (intro exI [of _ "[]"] exI [of _ "m_result p"]) simp
qed

lemma tail_text:
  assumes p: "in_buffer p"
  shows "\<exists>x u. consumed p x u (match_opt_fragment (match_opt_query p)) \<and>
    (no_query_fragment (m_result p) \<longrightarrow> uri_text u = uri_text (m_result p) @ x)"
proof -
  obtain x u where x: "consumed p x u (match_opt_query p)" "no_query_fragment (m_result p) \<longrightarrow>
      uri_text u = uri_text (m_result p) @ x \<and> \<not> m_has_fragment u"
    using opt_query_text [OF p] by blast
  obtain y v where y: "consumed (match_opt_query p) y v (match_opt_fragment (match_opt_query p))"
      "\<not> m_has_fragment u \<longrightarrow> uri_text v = uri_text u @ y"
    using opt_fragment_text [OF consumed_in_buffer [OF p x(1)]] consumedD(1) [OF x(1)] by auto
  show ?thesis
    using consumed_trans [OF x(1) y(1)] x(2) y(2) by (intro exI [of _ "x @ y"] exI [of _ v]) auto
qed

lemma tail_stuck:
  assumes "in_buffer p" and "\<not> path_stop p"
  shows "match_opt_query p = p" "match_opt_fragment p = p"
  using opt_query_stores [OF assms(1)] opt_fragment_stores [OF assms(1)] assms(2)
  by (auto simp: path_stop_def)

lemma scheme_stores:
  assumes p: "in_buffer p" and eq: "match_scheme_and_colon p = (True, q)"
  shows "\<exists>x. x \<noteq> [] \<and> consumed p (x @ '':'') (URI_SetScheme x (m_result p)) q"
proof -
  obtain p1 r where p1: "match_alpha p = (True, p1)"
    and r: "match_literal CHR '':'' (snd (repeat (match_byteset scheme) p1)) = (True, r)"
    and q: "q = set_result (URI_SetScheme (text_until 1 p r)) r"
    using eq by (auto simp: match_scheme_and_colon_def split: prod.splits bool.splits)
  let ?p2 = "snd (repeat (match_byteset scheme) p1)"
  have m1: "moved p p1"
    by (rule alpha.moves [OF p p1])
  have m2: "moved p1 ?p2"
    by (rule byteset.repeat_snd_moves [OF moved_in_buffer [OF m1]])
  note c1 = moved_consumed [OF moved_trans [OF m1 m2]]
  have "m_current p < m_current p1" "m_current p1 \<le> m_current ?p2"
    using alpha.advances [OF p p1] m2 by (simp_all add: moved_def)
  then have "text_until 0 p ?p2 \<noteq> []"
    using consumedD(3) [OF c1] by auto
  moreover have c: "consumed p (text_until 0 p ?p2 @ '':'') (m_result p) r"
    using consumed_trans [OF c1 literal_consumed [OF r]] consumedD(1) [OF c1] by simp
  ultimately show ?thesis
    using consumed_set_result [OF c] q consumed_slice(2) [OF c] by auto
qed

lemma scheme_fails:
  assumes p: "in_buffer p" and eq: "match_scheme_and_colon p = (False, q)"
  shows "q = p"
proof -
  obtain b p1 where p1: "Result match_alpha p = (b, p1)"
    by fastforce
  show ?thesis
  proof (cases b)
    case True
    then have a: "match_alpha p = (True, p1)"
      using p1 by simp
    have m1: "moved p p1"
      by (rule alpha.moves [OF p a])
    have m2: "moved p1 (snd (repeat (match_byteset scheme) p1))"
      by (rule byteset.repeat_snd_moves [OF moved_in_buffer [OF m1]])
    obtain r where r: "match_literal CHR '':'' (snd (repeat (match_byteset scheme) p1)) = (False, r)"
      "q = r\<lparr>m_current := m_current p\<rparr>"
      using eq a by (auto simp: match_scheme_and_colon_def Result_def split: prod.splits bool.splits)
    have "moved p r"
      using moved_trans [OF moved_trans [OF m1 m2] literal.moves [OF moved_in_buffer [OF m2] r(1)]] .
    then show ?thesis
      using r(2) by (simp add: moved_restore)
  next
    case False
    then have "p1 = p"
      using scanner.restores [OF scanner_Result [OF advancing_mover [OF alpha.advancing_axioms]] p] p1
      by simp
    then show ?thesis
      using eq p1 False by (simp add: match_scheme_and_colon_def)
  qed
qed

section \<open>Parsing and printing\<close>

text \<open>The state in which \<^verbatim>\<open>UriParser::Parse\<close> starts.\<close>

abbreviation start :: "string \<Rightarrow> uri_parser" where
  "start s \<equiv> \<lparr>p_buffer = s, m_current = 0, m_result = URI_init\<rparr>"

lemma URI_init_facts:
  "fresh_authority URI_init" "no_query_fragment URI_init" "\<not> m_has_authority URI_init"
  "m_path URI_init = []" "m_scheme URI_init = []" "uri_text URI_init = []" "in_buffer (start s)"
  by (simp_all add: URI_init_def UriAuthority_init_def fresh_authority_def no_query_fragment_def
      uri_text_def in_buffer_def)

text \<open>\<open>exact s q\<close>: inside the buffer, and if all of \<open>s\<close> was read, the URI prints as \<open>s\<close>.\<close>

definition exact :: "string \<Rightarrow> uri_parser \<Rightarrow> bool" where
  "exact s q \<longleftrightarrow> m_current q \<le> length s \<and> (m_current q = length s \<longrightarrow> uri_text (m_result q) = s)"

lemma consumed_exact:
  assumes "consumed (start s) x u q" and "uri_text u = x"
  shows "exact s q"
proof -
  obtain y where "s = x @ y" "q = (start s)\<lparr>m_current := length x, m_result := u\<rparr>"
    using assms(1) by (auto simp: consumed_def)
  then show ?thesis
    using assms(2) by (auto simp: exact_def)
qed

lemma tail_exact:
  assumes c: "consumed (start s) x u q" and "uri_text u = x" "no_query_fragment u"
  shows "exact s (match_opt_fragment (match_opt_query q))" "exact s (match_opt_query q)"
proof -
  have q: "in_buffer q" "m_result q = u"
    using consumed_in_buffer [OF URI_init_facts(7) c] consumedD(1) [OF c] by simp_all
  obtain y v where "consumed q y v (match_opt_fragment (match_opt_query q))" "uri_text v = x @ y"
    using tail_text [OF q(1)] q(2) assms(2,3) by auto
  then show "exact s (match_opt_fragment (match_opt_query q))"
    using consumed_exact [OF consumed_trans [OF c]] by simp
  obtain y v where "consumed q y v (match_opt_query q)" "uri_text v = x @ y"
    using opt_query_text [OF q(1)] q(2) assms(2,3) by auto
  then show "exact s (match_opt_query q)"
    using consumed_exact [OF consumed_trans [OF c]] by simp
qed

lemma exact_short: "m_current q < length s \<Longrightarrow> exact s q"
  by (simp add: exact_def)

lemma not_path_stop_short: "in_buffer p \<Longrightarrow> \<not> path_stop p \<Longrightarrow> m_current p < length (p_buffer p)"
  by (auto simp: path_stop_def in_buffer_def)

lemma match_URI_exact:
  assumes sch: "match_scheme_and_colon (start s) = (True, p1)" and h: "match_hier_part p1 = (True, q)"
  shows "exact s (match_opt_fragment (match_opt_query q))"
proof -
  obtain x where x: "x \<noteq> []" "consumed (start s) (x @ '':'') (URI_SetScheme x URI_init) p1"
    using scheme_stores [OF URI_init_facts(7) sch] by auto
  define u where "u = URI_SetScheme x URI_init"
  have u: "fresh_authority u" "no_query_fragment u" "uri_text u = x @ '':''" "m_result p1 = u"
    "m_scheme u = x" "\<not> m_has_authority u" "m_path u = []"
    using URI_init_facts x(1) consumedD(1) [OF x(2)]
    by (auto simp: u_def URI_SetScheme_def fresh_authority_def no_query_fragment_def uri_text_def)
  have p1: "in_buffer p1" "p_buffer p1 = s"
    using consumed_in_buffer [OF URI_init_facts(7) x(2)] consumedD(2) [OF x(2)] by simp_all
  from p1(1) u(1) [folded u(4)] show ?thesis
  proof (cases rule: match_hier_part_effect)
    case (authority q' a y)
    have "consumed (start s) ((x @ '':'') @ ''//'' @ authority_text a @ y)
        (u\<lparr>m_has_authority := True, m_authority := a, m_path := y\<rparr>) q"
      using consumed_trans [OF x(2)] authority h u(4) by auto
    then show ?thesis
      by (rule tail_exact) (use u x(1) in \<open>auto simp: uri_text_def no_query_fragment_def\<close>)
  next
    case (rollback q')
    then have q: "q' = q" "m_current q = m_current p1" "p_buffer q = s" "in_buffer q"
      using h p1 by (auto simp: in_buffer_def)
    show ?thesis
    proof (cases "path_stop p1")
      case True
      then have "consumed (start s) (x @ '':'') (URI_SetPath [] u) q"
        using rollback(4) q(1) consumed_set_result [OF x(2)] by (simp add: u_def)
      then show ?thesis
        by (rule tail_exact) (use u in \<open>auto simp: URI_SetPath_def no_query_fragment_def uri_text_def\<close>)
    next
      case False
      then have "\<not> path_stop q" "m_current q < length s"
        using q p1 not_path_stop_short [OF p1(1)] by (auto simp: path_stop_def next_is_def)
      then show ?thesis
        using tail_stuck [OF q(4)] exact_short by simp
    qed
  qed
qed

lemma relative_path_exact:
  assumes "Result (or_else match_path_absolute (or_else match_path_noscheme match_path_empty)) (start s) = (True, q)"
  shows "exact s (match_opt_query q)"
proof -
  have "path_matcher (or_else match_path_absolute (or_else match_path_noscheme match_path_empty))"
    by (intro path_matcher_or_else path_absolute.path_matcher_axioms path_noscheme.path_matcher_axioms
        path_empty.path_matcher_axioms)
  then obtain x where "consumed (start s) x (URI_SetPath x URI_init) q"
    using path_matcher.stores [OF _ URI_init_facts(7)] assms by fastforce
  then show ?thesis
    by (rule tail_exact) (use URI_init_facts in \<open>auto simp: URI_SetPath_def uri_text_def no_query_fragment_def\<close>)
qed

lemma double_slash_exact:
  assumes lit: "match_literal_str ''//'' (start s) = (True, r')" and r: "m_current r = 0" "p_buffer r = s"
    and q: "or_else match_path_absolute m r = (True, q)"
  shows "exact s (match_opt_query q)"
proof -
  have lit': "match_literal_str ''//'' r = (True, r\<lparr>m_current := 2\<rparr>)"
    using lit r by (auto simp: match_literal_str_def split: if_splits)
  note ds = path_absolute_double_slash [OF lit']
  have "q = set_result (URI_SetPath ''/'') (r\<lparr>m_current := m_current r + 1\<rparr>)"
    using q ds(1) by (auto simp: or_else_True_iff)
  then have n: "next_is q CHR ''/''" "p_buffer q = s"
    using ds(2) r by (simp_all add: set_result_def next_is_def)
  then have "match_opt_query q = q"
    by (intro tail_stuck(1)) (auto simp: in_buffer_def path_stop_def next_is_def)
  then show ?thesis
    using n exact_short by (simp add: next_is_def)
qed

lemma match_relative_ref_exact:
  assumes "match_relative_ref (start s) = (b, q)"
  shows "exact s q"
proof -
  let ?alt = "or_else match_path_absolute (or_else match_path_noscheme match_path_empty)"
  obtain d r where r: "Result match_slash_slash_authority (start s) = (d, r)"
    by fastforce
  obtain e q' where q': "?alt r = (e, q')"
    by fastforce
  have e: e
    using q' by (auto simp: or_else_def match_path_empty_def split: prod.splits bool.splits)
  show ?thesis
  proof (cases d)
    case True
    then obtain a x where c: "consumed (start s) (''//'' @ authority_text a @ x)
        (URI_init\<lparr>m_has_authority := True, m_authority := a, m_path := x\<rparr>) r"
      using r slash_slash_authority_stores [OF URI_init_facts(7)] URI_init_facts(1) by fastforce
    have "q = match_opt_query r"
      using assms r True by (auto simp: match_relative_ref_def match_relative_part_def Result_def
          split: prod.splits bool.splits)
    with tail_exact(2) [OF c] show ?thesis
      using URI_init_facts by (simp add: uri_text_def no_query_fragment_def)
  next
    case False
    then have rf: "m_current r = 0" "p_buffer r = s"
        "r = start s \<or> (\<exists>r. match_literal_str ''//'' (start s) = (True, r))"
      using slash_slash_authority_fails [OF URI_init_facts(7)] r by fastforce+
    have q: "q = match_opt_query q'"
      using assms r q' e False by (simp add: match_relative_ref_def match_relative_part_def Result_def)
    from rf(3) show ?thesis
    proof
      assume "r = start s"
      then show ?thesis
        using relative_path_exact [of s q'] q q' e by simp
    next
      assume "\<exists>r. match_literal_str ''//'' (start s) = (True, r)"
      then show ?thesis
        using double_slash_exact [OF _ rf(1,2)] q q' e by auto
    qed
  qed
qed

lemma match_hier_part_total:
  assumes "in_buffer p" "fresh_authority (m_result p)"
  shows "\<exists>q. match_hier_part p = (True, q)"
  by (rule match_hier_part_effect [OF assms]) blast+

lemma match_URI_reference_cases:
  obtains p1 q where "match_scheme_and_colon (start s) = (True, p1)" "match_hier_part p1 = (True, q)"
      "match_URI_reference (start s) = (True, match_opt_fragment (match_opt_query q))"
    | "match_URI_reference (start s) = match_relative_ref (start s)"
proof (cases "match_scheme_and_colon (start s)")
  case (Pair b p1)
  show thesis
  proof (cases b)
    case True
    then obtain x where x: "consumed (start s) (x @ '':'') (URI_SetScheme x URI_init) p1"
      using scheme_stores [OF URI_init_facts(7)] Pair by auto
    have "fresh_authority (m_result p1)"
      using consumedD(1) [OF x] URI_init_facts(1) by (simp add: fresh_authority_def URI_SetScheme_def)
    then obtain q where "match_hier_part p1 = (True, q)"
      using match_hier_part_total [OF consumed_in_buffer [OF URI_init_facts(7) x]] by blast
    then show thesis
      using that(1) Pair True
      by (simp add: match_URI_reference_def or_else_def match_URI_def Result_def and_then_def)
  next
    case False
    then have "p1 = start s"
      using scheme_fails [OF URI_init_facts(7)] Pair by simp
    then show thesis
      using that(2) Pair False
      by (simp add: match_URI_reference_def or_else_def match_URI_def Result_def and_then_def)
  qed
qed

lemma match_URI_reference_exact: "exact s (snd (match_URI_reference (start s)))"
proof (cases rule: match_URI_reference_cases [of s])
  case (1 p1 q)
  then show ?thesis
    using match_URI_exact by simp
next
  case 2
  then show ?thesis
    using match_relative_ref_exact [of s] by (metis prod.collapse)
qed

lemma URI_ParseBuffer_eq:
  "URI_ParseBuffer s u =
     (let q = snd (match_URI_reference (start s)) in (m_current q, m_result q))"
  by (simp add: URI_ParseBuffer_def UriParser_Parse_def URI_Clear_eq case_prod_unfold Let_def)

section \<open>Evaluating the parser\<close>

text \<open>For evaluation, a byte set is replaced by the predicate it stands for.\<close>

definition match_if :: "(char \<Rightarrow> bool) \<Rightarrow> matcher" where
  "match_if f p =
     (if m_current p < length (p_buffer p) \<and> f (p_buffer p ! m_current p)
      then (True, p\<lparr>m_current := m_current p + 1\<rparr>) else (False, p))"

lemma Find_uri_sets:
  "ByteSet_Find sub_delims c \<longleftrightarrow> c \<in> set ''!$&'()*+,;=''"
  "ByteSet_Find unreserved c \<longleftrightarrow> c_isalnum c \<or> c \<in> set ''-._~''"
  "ByteSet_Find userinfo c \<longleftrightarrow> c_isalnum c \<or> c \<in> set ''-._~,:&=+$''"
  "ByteSet_Find scheme c \<longleftrightarrow> c_isalnum c \<or> c \<in> set ''+-.''"
  "ByteSet_Find pchar c \<longleftrightarrow> c_isalnum c \<or> c \<in> set ''-._~!$&'()*+,;=:@|{}''"
  "ByteSet_Find query_or_fragment c \<longleftrightarrow> c_isalnum c \<or> c \<in> set ''-._~!$&'()*+,;=:@|{}/?''"
  by (auto simp: sub_delims_def unreserved_def userinfo_def scheme_def pchar_def query_or_fragment_def
      char_class c_str_def)

lemma match_byteset_code [code_unfold]:
  "match_byteset DigitSet = match_if c_isdigit" "match_byteset AlphaSet = match_if c_isalpha"
  "match_byteset AlphaNumSet = match_if c_isalnum"
  "match_byteset sub_delims = match_if (\<lambda>c. c \<in> set ''!$&'()*+,;='')"
  "match_byteset unreserved = match_if (\<lambda>c. c_isalnum c \<or> c \<in> set ''-._~'')"
  "match_byteset userinfo = match_if (\<lambda>c. c_isalnum c \<or> c \<in> set ''-._~,:&=+$'')"
  "match_byteset scheme = match_if (\<lambda>c. c_isalnum c \<or> c \<in> set ''+-.'')"
  "match_byteset pchar = match_if (\<lambda>c. c_isalnum c \<or> c \<in> set ''-._~!$&'()*+,;=:@|{}'')"
  "match_byteset query_or_fragment = match_if (\<lambda>c. c_isalnum c \<or> c \<in> set ''-._~!$&'()*+,;=:@|{}/?'')"
  by (rule ext, simp add: match_byteset_def match_if_def Find_uri_sets)+

lemma HexSet_code [code_unfold]: "ByteSet_Find HexSet c = c_isxdigit c"
  by simp

text \<open>C1: when \<^verbatim>\<open>URI::Parse\<close> accepts a text, \<^verbatim>\<open>URI::ToString\<close> of the parsed URI is that text.\<close>

theorem URI_Parse_roundtrip:
  assumes "URI_Parse s u = (True, v)"
  shows "URI_ToString v = Inr s"
proof -
  have "m_current (snd (match_URI_reference (start s))) = length s"
    "v = m_result (snd (match_URI_reference (start s)))"
    using assms by (auto simp: URI_Parse_def URI_ParseBuffer_eq Let_def)
  then show ?thesis
    using match_URI_reference_exact [of s] by (simp add: exact_def URI_ToString_eq)
qed

text \<open>At a concrete input.\<close>

theorem URI_Parse_roundtrip_witness:
  "\<exists>v. URI_Parse ''http://u@a.b:80/c?d#e'' URI_init = (True, v) \<and> URI_ToString v = Inr ''http://u@a.b:80/c?d#e''"
proof -
  have "fst (URI_Parse ''http://u@a.b:80/c?d#e'' URI_init)"
    by code_simp
  then obtain v where v: "URI_Parse ''http://u@a.b:80/c?d#e'' URI_init = (True, v)"
    by (cases "URI_Parse ''http://u@a.b:80/c?d#e'' URI_init") simp
  from URI_Parse_roundtrip [OF v] v show ?thesis
    by blast
qed

text \<open>whatever the text, the number of bytes \<^verbatim>\<open>URI::ParseBuffer\<close> reports as parsed does not
  exceed its length.\<close>

theorem URI_ParseBuffer_bounds:
  "fst (URI_ParseBuffer s u) \<le> length s"
  using match_URI_reference_exact [of s] by (simp add: URI_ParseBuffer_eq Let_def exact_def)


section \<open>A scheme without an authority\<close>

lemma takeWhile_drop: "i < length s \<Longrightarrow> P (s ! i) \<Longrightarrow>
    length (takeWhile P (drop i s)) = Suc (length (takeWhile P (drop (Suc i) s)))"
  by (simp add: drop_split1)

text \<open>The loop \<^verbatim>\<open>while (match_byteset(cs)) {}\<close> runs to the first byte outside the set.\<close>

lemma repeat_byteset:
  "in_buffer p \<Longrightarrow> snd (repeat (match_byteset cs) p) =
   p\<lparr>m_current := m_current p + length (takeWhile (ByteSet_Find cs) (drop (m_current p) (p_buffer p)))\<rparr>"
proof (induction "length (p_buffer p) - m_current p" arbitrary: p rule: less_induct)
  case less
  show ?case
  proof (cases "m_current p < length (p_buffer p) \<and> ByteSet_Find cs (p_buffer p ! m_current p)")
    case True
    let ?q = "p\<lparr>m_current := m_current p + 1\<rparr>"
    have q: "match_byteset cs p = (True, ?q)"
      using True by (simp add: match_byteset_def)
    have "snd (repeat (match_byteset cs) ?q) =
      ?q\<lparr>m_current := m_current ?q + length (takeWhile (ByteSet_Find cs) (drop (m_current ?q) (p_buffer ?q)))\<rparr>"
      by (rule less.hyps) (use True in \<open>auto simp: in_buffer_def\<close>)
    then show ?thesis
      using True takeWhile_drop [of "m_current p" "p_buffer p" "ByteSet_Find cs"] q
      by (subst byteset.repeat_unfold [OF less.prems]) (simp add: case_prod_unfold)
  next
    case False
    then have "match_byteset cs p = (False, p)" "takeWhile (ByteSet_Find cs) (drop (m_current p) (p_buffer p)) = []"
      by (auto simp: match_byteset_def drop_split1)
        (cases "drop (m_current p) (p_buffer p)"; auto simp: nth_via_drop drop_eq_Nil [symmetric] simp del: drop_eq_Nil)
    then show ?thesis
      using byteset.repeat_stop by simp
  qed
qed

lemma scheme_and_colon_matches:
  assumes "c_isalpha a" and "list_all (ByteSet_Find scheme) sch"
  shows "\<exists>p1. match_scheme_and_colon (start (a # sch @ CHR '':'' # rest)) = (True, p1) \<and>
    consumed (start (a # sch @ CHR '':'' # rest)) (a # sch @ '':'') (URI_SetScheme (a # sch) URI_init) p1"
proof -
  let ?s = "a # sch @ CHR '':'' # rest"
  let ?p = "(start ?s)\<lparr>m_current := 1\<rparr>" and ?r = "(start ?s)\<lparr>m_current := length (a # sch @ '':'')\<rparr>"
  have "\<not> ByteSet_Find scheme CHR '':''"
    by (simp add: Find_uri_sets ctype_defs)
  then have "takeWhile (ByteSet_Find scheme) (sch @ CHR '':'' # rest) = sch"
    using assms(2) by (auto simp: list_all_iff takeWhile_append)
  then have "snd (repeat (match_byteset scheme) ?p) = (start ?s)\<lparr>m_current := Suc (length sch)\<rparr>"
    by (subst repeat_byteset) (simp_all add: in_buffer_def)
  then have "match_literal CHR '':'' (snd (repeat (match_byteset scheme) ?p)) = (True, ?r)"
    by (simp add: match_literal_def nth_append)
  moreover have "Result match_alpha (start ?s) = (True, ?p)"
    using assms(1) by (simp add: match_alpha_def match_byteset_def)
  moreover have c: "consumed (start ?s) (a # sch @ '':'') URI_init ?r"
    by (simp add: consumed_def)
  ultimately show ?thesis
    using consumed_slice(2) [OF c] consumed_set_result [OF c, of "URI_SetScheme (a # sch)"]
    by (simp add: match_scheme_and_colon_def butlast_append del: Result_True_iff)
qed

text \<open>C31: a text that starts with a scheme and a colon and goes on with a path instead of
  \<^verbatim>\<open>//authority\<close> is rejected: the position is rolled back to the colon after the path has been matched.\<close>

theorem URI_Parse_scheme_path_rejected:
  assumes "c_isalpha a" and "list_all (ByteSet_Find scheme) sch"
    and "c \<noteq> CHR ''?''" "c \<noteq> CHR ''#''" "take 2 (c # rest) \<noteq> ''//''"
  shows "fst (URI_Parse (a # sch @ CHR '':'' # c # rest) u) = False \<and>
    fst (URI_ParseBuffer (a # sch @ CHR '':'' # c # rest) u) = length sch + 2"
proof -
  let ?s = "a # sch @ CHR '':'' # c # rest"
  obtain p1 where sch: "match_scheme_and_colon (start ?s) = (True, p1)"
    and c: "consumed (start ?s) (a # sch @ '':'') (URI_SetScheme (a # sch) URI_init) p1"
    using scheme_and_colon_matches [OF assms(1,2), of "c # rest"] by blast
  have p1: "in_buffer p1" "fresh_authority (m_result p1)" "m_current p1 = length sch + 2" "p_buffer p1 = ?s"
    "drop (length sch + 2) ?s = c # rest"
    using consumed_in_buffer [OF URI_init_facts(7) c] consumedD [OF c] URI_init_facts(1)
    by (simp_all add: fresh_authority_def URI_SetScheme_def)
  then have "next_is p1 c"
    by (intro next_isI [of _ _ rest]) simp
  then have stop: "\<not> path_stop p1"
    using assms(3,4) next_is_unique by (auto simp: path_stop_def next_is_def)
  have "\<exists>q. match_hier_part p1 = (True, q) \<and> m_current q = m_current p1 \<and> p_buffer q = p_buffer p1"
    using p1(1,2)
  proof (cases rule: match_hier_part_effect)
    case (authority q a x)
    then have "take 2 (drop (length sch + 2) ?s) = ''//''"
      using p1(3,4) by (auto simp: consumed_def)
    then show ?thesis
      using assms(5) p1(5) by simp
  qed blast
  then obtain q where q: "match_hier_part p1 = (True, q)" "m_current q = m_current p1" "p_buffer q = p_buffer p1"
    by blast
  have "match_opt_fragment (match_opt_query q) = q"
    using tail_stuck [of q] stop p1(1) q by (simp add: path_stop_def next_is_def in_buffer_def)
  then have "snd (match_URI_reference (start ?s)) = q"
    using sch q(1) by (simp add: match_URI_reference_def or_else_def match_URI_def Result_def and_then_def)
  then show ?thesis
    using q p1(3) by (simp add: URI_Parse_def URI_ParseBuffer_eq Let_def)
qed

text \<open>At a concrete input: \<^verbatim>\<open>mailto:a@b\<close>.\<close>

theorem URI_Parse_scheme_path_rejected_witness:
  "c_isalpha CHR ''m'' \<and> list_all (ByteSet_Find scheme) ''ailto'' \<and>
   fst (URI_Parse ''mailto:a@b'' URI_init) = False \<and> fst (URI_ParseBuffer ''mailto:a@b'' URI_init) = 7"
proof -
  have "c_isalpha CHR ''m''" "list_all (ByteSet_Find scheme) ''ailto''"
    by (simp_all add: Find_uri_sets ctype_defs)
  then show ?thesis
    using URI_Parse_scheme_path_rejected [of "CHR ''m''" "''ailto''" "CHR ''a''" "''@b''" URI_init] by simp
qed

end
