(* ===== verification/Uri_Merge.thy ===== *)
theory Uri_Merge
  imports Uri
begin

text \<open>
  Resolution of a URI reference against a base: the merge helpers of \<^verbatim>\<open>uri.cpp\<close> and \<^verbatim>\<open>URI::Merge\<close>.
  \<^verbatim>\<open>remove_dot_segments\<close> is shown to compute the stack discipline of RFC 3986, section 5.2.4, on
  absolute paths, and \<^verbatim>\<open>URI::Merge\<close> to refine the transformation of section 5.2.2 on references
  whose undefined components are \<^const>\<open>None\<close>.
\<close>

section \<open>The merge helpers\<close>

definition remove_last_segment_and_preceding_slash :: "string \<Rightarrow> string" where
  "remove_last_segment_and_preceding_slash path =
     (case find_last_of CHR ''/'' path of Some pos \<Rightarrow> take pos path | None \<Rightarrow> path)"

text \<open>
  The loop of \<^verbatim>\<open>remove_dot_segments\<close>: \<open>inp\<close> is the unread part of the input buffer, which the rules B
  and C overwrite at its first byte.
\<close>

function remove_dot_loop :: "string \<Rightarrow> string \<Rightarrow> string" where
  "remove_dot_loop inp result =
     (if inp = [] then result
      else if length inp \<ge> 3 \<and> take 3 inp = ''../'' then remove_dot_loop (drop 3 inp) result
      else if length inp \<ge> 2 \<and> take 2 inp = ''./'' then remove_dot_loop (drop 2 inp) result
      else if length inp \<ge> 3 \<and> take 3 inp = ''/./'' then
        remove_dot_loop ((drop 2 inp)[0 := CHR ''/'']) result
      else if length inp = 2 \<and> take 2 inp = ''/.'' then
        remove_dot_loop ((drop 1 inp)[0 := CHR ''/'']) result
      else if length inp \<ge> 4 \<and> take 4 inp = ''/../'' then
        remove_dot_loop ((drop 3 inp)[0 := CHR ''/'']) (remove_last_segment_and_preceding_slash result)
      else if length inp = 3 \<and> take 3 inp = ''/..'' then
        remove_dot_loop ((drop 2 inp)[0 := CHR ''/'']) (remove_last_segment_and_preceding_slash result)
      else if length inp = 1 \<and> hd inp = CHR ''.'' then remove_dot_loop (drop 1 inp) result
      else if length inp = 2 \<and> take 2 inp = ''..'' then remove_dot_loop (drop 2 inp) result
      else (case find_char CHR ''/'' (tl inp) of
              Some k \<Rightarrow> remove_dot_loop (drop (k + 1) inp) (result @ take (k + 1) inp)
            | None \<Rightarrow> result @ inp))"
  by pat_completeness auto

termination
  by (relation "measure (\<lambda>(inp, result). length inp)") auto

declare remove_dot_loop.simps [simp del]

definition remove_dot_segments :: "string \<Rightarrow> string" where
  "remove_dot_segments path = remove_dot_loop path []"

definition merge_path :: "bool \<Rightarrow> string \<Rightarrow> string \<Rightarrow> string" where
  "merge_path base_has_authority base_path path =
     (if base_has_authority \<and> base_path = [] then ''/'' @ path
      else (case find_last_of CHR ''/'' base_path of
              Some pos \<Rightarrow> take (pos + 1) base_path @ path
            | None \<Rightarrow> path))"

section \<open>URI::Merge\<close>

text \<open>
  Every call of \<^verbatim>\<open>Authority()\<close> is guarded by \<^verbatim>\<open>HasAuthority()\<close>, so its assertion holds and the field is
  read directly.
\<close>

definition copy_authority :: "uri \<Rightarrow> uri \<Rightarrow> uri" where
  "copy_authority u result = (if m_has_authority u then URI_SetAuthority (m_authority u) result else result)"

definition copy_query :: "uri \<Rightarrow> uri \<Rightarrow> uri" where
  "copy_query u result = (if m_has_query u then URI_SetQuery (m_query u) result else result)"

definition URI_Merge :: "uri \<Rightarrow> bool \<Rightarrow> uri \<Rightarrow> bool \<times> uri" where
  "URI_Merge base strict this =
     (let scheme_undefined = (\<not> strict \<and> m_scheme this = m_scheme base);
          result =
            (if \<not> scheme_undefined \<and> m_scheme this \<noteq> [] then
               copy_query this (URI_SetPath (remove_dot_segments (m_path this))
                 (copy_authority this (URI_SetScheme (m_scheme this) URI_init)))
             else
               URI_SetScheme (m_scheme base)
                 (if m_has_authority this then
                    copy_query this (URI_SetPath (remove_dot_segments (m_path this))
                      (copy_authority this URI_init))
                  else
                    copy_authority base
                      (if m_path this = [] then
                         (if m_has_query this then URI_SetQuery (m_query this) (URI_SetPath (m_path base) URI_init)
                          else copy_query base (URI_SetPath (m_path base) URI_init))
                       else
                         (let path =
                            (if m_path this ! 0 = CHR ''/'' then remove_dot_segments (m_path this)
                             else remove_dot_segments
                               (merge_path (m_has_authority base) (m_path base) (m_path this)))
                          in copy_query this (URI_SetPath path URI_init)))));
          result' = (if m_has_fragment this then URI_SetFragment (m_fragment this) result else result)
      in (True, fst (URI_Swap this result')))"

definition URI_ToAbsolute :: "uri \<Rightarrow> uri \<Rightarrow> bool \<times> uri" where
  "URI_ToAbsolute base this = URI_Merge base False this"

section \<open>Dot segments\<close>

text \<open>
  An absolute path is a slash before each of its segments. RFC 3986 keeps a stack of output segments:
  a \<open>.\<close> is skipped, a \<open>..\<close> pops, and either of them as the last segment leaves an empty segment.
\<close>

definition path_of :: "string list \<Rightarrow> string" where
  "path_of segs = concat (map (\<lambda>s. CHR ''/'' # s) segs)"

definition segment_ok :: "string \<Rightarrow> bool" where
  "segment_ok s \<longleftrightarrow> CHR ''/'' \<notin> set s"

fun rfc_segments :: "string list \<Rightarrow> string list \<Rightarrow> string list" where
  "rfc_segments out [] = out"
| "rfc_segments out [s] =
     (if s = ''.'' then out @ [[]] else if s = ''..'' then butlast out @ [[]] else out @ [s])"
| "rfc_segments out (s # t # ts) =
     (if s = ''.'' then rfc_segments out (t # ts)
      else if s = ''..'' then rfc_segments (butlast out) (t # ts)
      else rfc_segments (out @ [s]) (t # ts))"

lemma path_of_simps [simp]:
  "path_of [] = []" "path_of (s # ss) = CHR ''/'' # s @ path_of ss"
  "path_of (xs @ ys) = path_of xs @ path_of ys"
  by (simp_all add: path_of_def)

lemma remove_last_path_of:
  assumes "list_all segment_ok out"
  shows "remove_last_segment_and_preceding_slash (path_of out) = path_of (butlast out)"
proof (cases out rule: rev_cases)
  case (snoc ys y)
  then have "find_last_of CHR ''/'' (path_of ys @ CHR ''/'' # y) = Some (length (path_of ys))"
    using assms by (intro find_last_of_append_notin) (simp add: segment_ok_def)
  then show ?thesis
    using snoc by (simp add: remove_last_segment_and_preceding_slash_def)
qed (simp add: remove_last_segment_and_preceding_slash_def)

lemma path_of_nonempty: "ss \<noteq> [] \<Longrightarrow> \<exists>r. path_of ss = CHR ''/'' # r"
  by (cases ss) auto

text \<open>One turn of the loop on an input that starts with a slash.\<close>

lemma remove_dot_loop_dot: "remove_dot_loop (''/./'' @ r) out = remove_dot_loop (CHR ''/'' # r) out"
  by (subst remove_dot_loop.simps) simp

lemma remove_dot_loop_dot_end: "remove_dot_loop ''/.'' out = remove_dot_loop ''/'' out"
  by (subst remove_dot_loop.simps) simp

lemma remove_dot_loop_dotdot:
  "remove_dot_loop (''/../'' @ r) out =
   remove_dot_loop (CHR ''/'' # r) (remove_last_segment_and_preceding_slash out)"
  by (subst remove_dot_loop.simps) simp

lemma remove_dot_loop_dotdot_end:
  "remove_dot_loop ''/..'' out = remove_dot_loop ''/'' (remove_last_segment_and_preceding_slash out)"
  by (subst remove_dot_loop.simps) simp

lemma remove_dot_loop_slash: "remove_dot_loop ''/'' out = out @ ''/''"
  by (subst remove_dot_loop.simps) simp

lemma plain_segment_no_rule:
  assumes "segment_ok s" "s \<noteq> ''.''" "s \<noteq> ''..''" "r = [] \<or> hd r = CHR ''/''"
  shows "take 3 (CHR ''/'' # s @ r) \<noteq> ''/./''" "CHR ''/'' # s @ r \<noteq> ''/.''"
    "take 4 (CHR ''/'' # s @ r) \<noteq> ''/../''" "CHR ''/'' # s @ r \<noteq> ''/..''"
  by (cases s; cases "tl s"; cases "tl (tl s)"; cases r; use assms in \<open>auto simp: segment_ok_def\<close>)+

lemma remove_dot_loop_plain:
  assumes s: "segment_ok s" "s \<noteq> ''.''" "s \<noteq> ''..''"
  shows "remove_dot_loop (CHR ''/'' # s) out = out @ CHR ''/'' # s"
    and "remove_dot_loop (CHR ''/'' # s @ CHR ''/'' # r) out =
      remove_dot_loop (CHR ''/'' # r) (out @ CHR ''/'' # s)"
proof -
  have none: "find_char CHR ''/'' s = None"
    using s(1) by (simp add: segment_ok_def)
  show "remove_dot_loop (CHR ''/'' # s) out = out @ CHR ''/'' # s"
    using plain_segment_no_rule [OF s, of "[]"]
    by (subst remove_dot_loop.simps) (auto simp: none numeral_eq_Suc)
  show "remove_dot_loop (CHR ''/'' # s @ CHR ''/'' # r) out =
      remove_dot_loop (CHR ''/'' # r) (out @ CHR ''/'' # s)"
    using plain_segment_no_rule [OF s, of "CHR ''/'' # r"] s(1)
      find_char_append_notin [of "CHR ''/''" s r]
    by (subst remove_dot_loop.simps) (auto simp: segment_ok_def numeral_eq_Suc)
qed

lemma remove_dot_loop_refines:
  assumes "list_all segment_ok segs" "list_all segment_ok out"
  shows "remove_dot_loop (path_of segs) (path_of out) = path_of (rfc_segments out segs)"
  using assms
proof (induction out segs rule: rfc_segments.induct)
  case (1 out)
  then show ?case
    by (simp add: remove_dot_loop.simps [of "[]"])
next
  case (2 out s)
  then show ?case
    using remove_dot_loop_plain(1) [of s "path_of out"]
    by (simp add: remove_dot_loop_dot_end remove_dot_loop_dotdot_end remove_dot_loop_slash remove_last_path_of)
next
  case (3 out s t ts)
  note IH = 3(1-3) and ok = 3(4,5)
  have b: "list_all segment_ok (butlast out)"
    using ok(2) by (auto simp: list_all_iff dest: in_set_butlastD)
  consider "s = ''.''" | "s = ''..''" | "s \<noteq> ''.''" "s \<noteq> ''..''"
    by blast
  then show ?case
  proof cases
    case 1
    then show ?thesis
      using IH(1) ok remove_dot_loop_dot [of "t @ path_of ts" "path_of out"] by simp
  next
    case 2
    then show ?thesis
      using IH(2) ok b remove_dot_loop_dotdot [of "t @ path_of ts" "path_of out"]
      by (simp add: remove_last_path_of)
  next
    case 3
    then show ?thesis
      using IH(3) ok remove_dot_loop_plain(2) [of s "t @ path_of ts" "path_of out"] by simp
  qed
qed

lemma list_all_butlast [simp]: "list_all P xs \<Longrightarrow> list_all P (butlast xs)"
  by (auto simp: list_all_iff dest: in_set_butlastD)

lemma rfc_segments_no_dots:
  assumes "list_all (\<lambda>s. s \<noteq> ''.'' \<and> s \<noteq> ''..'') out"
  shows "list_all (\<lambda>s. s \<noteq> ''.'' \<and> s \<noteq> ''..'') (rfc_segments out segs)"
  using assms
  by (induction out segs rule: rfc_segments.induct) simp_all

lemma rfc_segments_ok:
  assumes "list_all segment_ok out" "list_all segment_ok segs"
  shows "list_all segment_ok (rfc_segments out segs)"
  using assms
  by (induction out segs rule: rfc_segments.induct) (simp_all add: segment_ok_def)

lemma rfc_segments_clean:
  assumes "list_all (\<lambda>s. s \<noteq> ''.'' \<and> s \<noteq> ''..'') segs"
  shows "rfc_segments out segs = out @ segs"
  using assms by (induction out segs rule: rfc_segments.induct) auto

text \<open>
  C11: on an absolute path, \<^verbatim>\<open>remove_dot_segments\<close> computes the stack discipline of RFC 3986,
  section 5.2.4; its result has no \<open>.\<close> or \<open>..\<close> segment, and applying it again changes nothing.
\<close>

theorem remove_dot_segments_correct:
  assumes "list_all segment_ok segs"
  shows "remove_dot_segments (path_of segs) = path_of (rfc_segments [] segs) \<and>
    list_all (\<lambda>s. s \<noteq> ''.'' \<and> s \<noteq> ''..'') (rfc_segments [] segs) \<and>
    remove_dot_segments (remove_dot_segments (path_of segs)) = remove_dot_segments (path_of segs)"
proof -
  have eq: "remove_dot_segments (path_of ss) = path_of (rfc_segments [] ss)" if "list_all segment_ok ss" for ss
    using remove_dot_loop_refines [OF that, of "[]"] by (simp add: remove_dot_segments_def)
  have ok: "list_all segment_ok (rfc_segments [] segs)"
    using rfc_segments_ok [of "[]"] assms by simp
  have clean: "list_all (\<lambda>s. s \<noteq> ''.'' \<and> s \<noteq> ''..'') (rfc_segments [] segs)"
    using rfc_segments_no_dots [of "[]"] by simp
  have "rfc_segments [] (rfc_segments [] segs) = rfc_segments [] segs"
    using rfc_segments_clean [OF clean, of "[]"] by simp
  then show ?thesis
    using eq [OF assms] eq [OF ok] clean by simp
qed

theorem remove_dot_segments_correct_witness:
  "list_all segment_ok [''a'', ''b'', ''.'', ''..'', ''c''] \<and>
   remove_dot_segments ''/a/b/./../c'' = ''/a/c''"
proof -
  have ok: "list_all segment_ok [''a'', ''b'', ''.'', ''..'', ''c'']"
    by (simp add: segment_ok_def)
  show ?thesis
    using remove_dot_segments_correct [OF ok] ok by simp
qed

section \<open>Reference resolution\<close>

text \<open>A URI whose absent components are \<^const>\<open>None\<close>, and the transformation of RFC 3986, section 5.2.2.\<close>

record reference =
  r_scheme :: "string option"
  r_authority :: "uri_authority option"
  r_path :: string
  r_query :: "string option"
  r_fragment :: "string option"

definition reference_of :: "uri \<Rightarrow> reference" where
  "reference_of u =
     \<lparr>r_scheme = (if m_scheme u = [] then None else Some (m_scheme u)),
      r_authority = (if m_has_authority u then Some (m_authority u) else None),
      r_path = m_path u,
      r_query = (if m_has_query u then Some (m_query u) else None),
      r_fragment = (if m_has_fragment u then Some (m_fragment u) else None)\<rparr>"

definition rfc_transform :: "reference \<Rightarrow> reference \<Rightarrow> reference" where
  "rfc_transform base r =
     (if r_scheme r \<noteq> None then r\<lparr>r_path := remove_dot_segments (r_path r)\<rparr>
      else if r_authority r \<noteq> None then
        r\<lparr>r_scheme := r_scheme base, r_path := remove_dot_segments (r_path r)\<rparr>
      else if r_path r = [] then
        base\<lparr>r_query := (if r_query r \<noteq> None then r_query r else r_query base), r_fragment := r_fragment r\<rparr>
      else
        base\<lparr>r_path := remove_dot_segments
               (if hd (r_path r) = CHR ''/'' then r_path r
                else merge_path (r_authority base \<noteq> None) (r_path base) (r_path r)),
             r_query := r_query r, r_fragment := r_fragment r\<rparr>)"

lemmas merge_defs =
  URI_Merge_def copy_authority_def copy_query_def Let_def URI_Swap_eq uri_setter_defs
  URI_init_def reference_of_def rfc_transform_def

text \<open>
  C7: \<^verbatim>\<open>URI::Merge\<close> always succeeds and computes the RFC transformation of the reference; without
  \<^verbatim>\<open>strict\<close>, a scheme equal to that of the base is first taken as absent.
\<close>

theorem URI_Merge_refines_rfc:
  "fst (URI_Merge base strict u) \<and>
   reference_of (snd (URI_Merge base strict u)) =
     rfc_transform (reference_of base)
       (if \<not> strict \<and> m_scheme u = m_scheme base then (reference_of u)\<lparr>r_scheme := None\<rparr> else reference_of u)"
proof
  show "fst (URI_Merge base strict u)"
    by (simp add: URI_Merge_def Let_def)
  have path: "m_path u \<noteq> [] \<Longrightarrow> hd (m_path u) = m_path u ! 0"
    by (rule hd_conv_nth)
  show "reference_of (snd (URI_Merge base strict u)) =
     rfc_transform (reference_of base)
       (if \<not> strict \<and> m_scheme u = m_scheme base then (reference_of u)\<lparr>r_scheme := None\<rparr> else reference_of u)"
    by (cases "m_has_authority u"; cases "m_has_query u"; cases "m_path u = []")
       (simp_all add: merge_defs path)
qed

end
