(* ===== verification/Compare.thy ===== *)
theory Compare
  imports Ascii "HOL-Library.List_Lexorder"
begin

unbundle bit_operations_syntax

text \<open>
  The byte comparison routines of \<^verbatim>\<open>common/base/string/compare.h\<close>. A pointer is the list of bytes from
  its target to the end of the object it points into; reading past that end is \<^const>\<open>Out_of_bounds\<close>.
  The routines read the memory in little-endian words of two, four and eight bytes. They are shown to
  read only inside the given lengths and to agree with the byte-wise definitions of equality, longest
  common prefix and lexicographic order.
\<close>

section \<open>Reading words\<close>

definition le_value :: "string \<Rightarrow> nat" where
  "le_value bs = foldr (\<lambda>c acc. code c + 256 * acc) bs 0"

definition load :: "nat \<Rightarrow> string \<Rightarrow> ('w::len) word result" where
  "load n p = (if n \<le> length p then Inr (word_of_nat (le_value (take n p))) else Inl Out_of_bounds)"

definition load16 :: "string \<Rightarrow> 16 word result" where "load16 p = load 2 p"
definition load32 :: "string \<Rightarrow> 32 word result" where "load32 p = load 4 p"
definition load64 :: "string \<Rightarrow> 64 word result" where "load64 p = load 8 p"

definition load8 :: "string \<Rightarrow> 8 word result" where "load8 p = load 1 p"

text \<open>\<^verbatim>\<open>*(T*)&p1[off] == *(T*)&p2[off]\<close>, and the short-circuit conjunction of two such tests.\<close>

definition eq_at :: "(string \<Rightarrow> ('w::len) word result) \<Rightarrow> nat \<Rightarrow> string \<Rightarrow> string \<Rightarrow> bool result" where
  "eq_at ld off p1 p2 = bindR (ld (drop off p1)) (\<lambda>x. bindR (ld (drop off p2)) (\<lambda>y. Inr (x = y)))"

definition andR :: "bool result \<Rightarrow> bool result \<Rightarrow> bool result" where
  "andR a b = bindR a (\<lambda>x. if x then b else Inr False)"

section \<open>Equality of memory\<close>

definition memeql_2 :: "string \<Rightarrow> string \<Rightarrow> bool result" where
  "memeql_2 p1 p2 = eq_at load16 0 p1 p2"

definition memeql_3 :: "string \<Rightarrow> string \<Rightarrow> bool result" where
  "memeql_3 p1 p2 = andR (eq_at load16 0 p1 p2) (eq_at load8 2 p1 p2)"

definition memeql_4 :: "string \<Rightarrow> string \<Rightarrow> bool result" where
  "memeql_4 p1 p2 = eq_at load32 0 p1 p2"

definition memeql_5 :: "string \<Rightarrow> string \<Rightarrow> bool result" where
  "memeql_5 p1 p2 = andR (eq_at load32 0 p1 p2) (eq_at load8 4 p1 p2)"

definition memeql_6 :: "string \<Rightarrow> string \<Rightarrow> bool result" where
  "memeql_6 p1 p2 = andR (eq_at load32 0 p1 p2) (eq_at load16 4 p1 p2)"

definition memeql_7 :: "string \<Rightarrow> string \<Rightarrow> bool result" where
  "memeql_7 p1 p2 = andR (eq_at load32 0 p1 p2) (andR (eq_at load16 4 p1 p2) (eq_at load8 6 p1 p2))"

definition memeql_8 :: "string \<Rightarrow> string \<Rightarrow> bool result" where
  "memeql_8 p1 p2 = eq_at load64 0 p1 p2"

definition memeql_9 :: "string \<Rightarrow> string \<Rightarrow> bool result" where
  "memeql_9 p1 p2 = andR (eq_at load64 0 p1 p2) (eq_at load8 8 p1 p2)"

definition memeql_10 :: "string \<Rightarrow> string \<Rightarrow> bool result" where
  "memeql_10 p1 p2 = andR (eq_at load64 0 p1 p2) (eq_at load16 8 p1 p2)"

definition memeql_11 :: "string \<Rightarrow> string \<Rightarrow> bool result" where
  "memeql_11 p1 p2 = andR (eq_at load64 0 p1 p2) (andR (eq_at load16 8 p1 p2) (eq_at load8 10 p1 p2))"

definition memeql_12 :: "string \<Rightarrow> string \<Rightarrow> bool result" where
  "memeql_12 p1 p2 = andR (eq_at load64 0 p1 p2) (eq_at load32 8 p1 p2)"

definition memeql_13 :: "string \<Rightarrow> string \<Rightarrow> bool result" where
  "memeql_13 p1 p2 = andR (eq_at load64 0 p1 p2) (andR (eq_at load32 8 p1 p2) (eq_at load8 12 p1 p2))"

definition memeql_14 :: "string \<Rightarrow> string \<Rightarrow> bool result" where
  "memeql_14 p1 p2 = andR (eq_at load64 0 p1 p2) (andR (eq_at load32 8 p1 p2) (eq_at load16 12 p1 p2))"

definition memeql_15 :: "string \<Rightarrow> string \<Rightarrow> bool result" where
  "memeql_15 p1 p2 = andR (eq_at load64 0 p1 p2) (andR (eq_at load32 8 p1 p2)
     (andR (eq_at load16 12 p1 p2) (eq_at load8 14 p1 p2)))"

definition memeql_16 :: "string \<Rightarrow> string \<Rightarrow> bool result" where
  "memeql_16 p1 p2 = andR (eq_at load64 0 p1 p2) (eq_at load64 8 p1 p2)"

text \<open>The part after the loop over eight-byte words, and the loop itself.\<close>

definition memeql_tail :: "string \<Rightarrow> string \<Rightarrow> nat \<Rightarrow> bool result" where
  "memeql_tail p1 p2 sz =
     andR (if sz \<ge> 4 then eq_at load32 0 p1 p2 else Inr True)
       (let p1 = (if sz \<ge> 4 then drop 4 p1 else p1);
            p2 = (if sz \<ge> 4 then drop 4 p2 else p2);
            sz = (if sz \<ge> 4 then sz - 4 else sz)
        in andR (if sz \<ge> 2 then eq_at load16 0 p1 p2 else Inr True)
             (let p1 = (if sz \<ge> 2 then drop 2 p1 else p1);
                  p2 = (if sz \<ge> 2 then drop 2 p2 else p2);
                  sz = (if sz \<ge> 2 then sz - 2 else sz)
              in if sz = 1 then eq_at load8 0 p1 p2 else Inr True))"

function memeql_loop :: "string \<Rightarrow> string \<Rightarrow> nat \<Rightarrow> bool result" where
  "memeql_loop p1 p2 sz =
     (if sz \<ge> 8
      then andR (eq_at load64 0 p1 p2) (memeql_loop (drop 8 p1) (drop 8 p2) (sz - 8))
      else memeql_tail p1 p2 sz)"
  by pat_completeness auto

termination
  by (relation "measure (\<lambda>(p1, p2, sz). sz)") auto

declare memeql_loop.simps [simp del]

definition memeql :: "string \<Rightarrow> string \<Rightarrow> nat \<Rightarrow> bool result" where
  "memeql a1 a2 sz =
     (if sz = 0 then Inr True
      else if sz = 1 then eq_at load8 0 a1 a2
      else if sz = 2 then memeql_2 a1 a2
      else if sz = 3 then memeql_3 a1 a2
      else if sz = 4 then memeql_4 a1 a2
      else if sz = 5 then memeql_5 a1 a2
      else if sz = 6 then memeql_6 a1 a2
      else if sz = 7 then memeql_7 a1 a2
      else if sz = 8 then memeql_8 a1 a2
      else if sz = 9 then memeql_9 a1 a2
      else if sz = 10 then memeql_10 a1 a2
      else if sz = 11 then memeql_11 a1 a2
      else if sz = 12 then memeql_12 a1 a2
      else if sz = 13 then memeql_13 a1 a2
      else if sz = 14 then memeql_14 a1 a2
      else if sz = 15 then memeql_15 a1 a2
      else if sz = 16 then memeql_16 a1 a2
      else memeql_loop a1 a2 sz)"

definition MemoryEqual :: "string \<Rightarrow> string \<Rightarrow> nat \<Rightarrow> bool result" where
  "MemoryEqual a1 a2 sz = memeql a1 a2 sz"

section \<open>Order of memory\<close>

text \<open>
  \<open>k\<close> uses of the macro \<^verbatim>\<open>COMPARE_MEMORY_ONE_BYTE\<close>: the difference and position of the first two
  bytes that differ, if any. \<^verbatim>\<open>size_t\<close> has eight bytes.
\<close>

fun compare_bytes :: "nat \<Rightarrow> string \<Rightarrow> string \<Rightarrow> nat \<Rightarrow> (int \<times> nat) option result" where
  "compare_bytes 0 a b pos = Inr None"
| "compare_bytes (Suc k) a b pos =
     bindR (checked_nth a pos) (\<lambda>x. bindR (checked_nth b pos) (\<lambda>y.
       let result = int (code x) - int (code y)
       in if result \<noteq> 0 then Inr (Some (result, pos)) else compare_bytes k a b (pos + 1)))"

function CompareMemory_loop :: "string \<Rightarrow> string \<Rightarrow> nat \<Rightarrow> nat \<Rightarrow> (int \<times> nat) result" where
  "CompareMemory_loop a b len pos =
     (if int pos \<le> int len - 8 then
        bindR (load64 (drop pos a)) (\<lambda>x. bindR (load64 (drop pos b)) (\<lambda>y.
          if x \<noteq> y then
            bindR (compare_bytes 8 a b pos) (\<lambda>r.
              case r of Some d \<Rightarrow> Inr d | None \<Rightarrow> Inl Assertion_failed)
          else CompareMemory_loop a b len (pos + 8)))
      else
        bindR (compare_bytes (len - pos) a b pos) (\<lambda>r.
          case r of Some d \<Rightarrow> Inr d | None \<Rightarrow> Inr (0, len)))"
  by pat_completeness auto

termination
  by (relation "measure (\<lambda>(a, b, len, pos). len - pos)") auto

declare CompareMemory_loop.simps [simp del]

definition CompareMemory :: "string \<Rightarrow> string \<Rightarrow> nat \<Rightarrow> (int \<times> nat) result" where
  "CompareMemory b1 b2 len = CompareMemory_loop b1 b2 len 0"

definition GetCommonPrefixLength :: "string \<Rightarrow> nat \<Rightarrow> string \<Rightarrow> nat \<Rightarrow> nat result" where
  "GetCommonPrefixLength lhs lhs_len rhs rhs_len =
     (let common_length = (if lhs_len < rhs_len then lhs_len else rhs_len)
      in bindR (CompareMemory lhs rhs common_length) (\<lambda>(r, prefix_length). Inr prefix_length))"

function CompareByteString_words :: "string \<Rightarrow> string \<Rightarrow> nat \<Rightarrow> nat \<Rightarrow> nat result" where
  "CompareByteString_words p1 p2 min_len pos =
     (if int pos < int min_len - 8 + 1 then
        bindR (load64 (drop pos p1)) (\<lambda>x. bindR (load64 (drop pos p2)) (\<lambda>y.
          if x = y then CompareByteString_words p1 p2 min_len (pos + 8) else Inr pos))
      else Inr pos)"
  by pat_completeness auto

termination
  by (relation "measure (\<lambda>(p1, p2, min_len, pos). min_len - pos)") auto

declare CompareByteString_words.simps [simp del]

function CompareByteString_bytes :: "string \<Rightarrow> string \<Rightarrow> nat \<Rightarrow> nat \<Rightarrow> nat result" where
  "CompareByteString_bytes p1 p2 min_len pos =
     (if pos < min_len then
        bindR (checked_nth p1 pos) (\<lambda>x. bindR (checked_nth p2 pos) (\<lambda>y.
          if x = y then CompareByteString_bytes p1 p2 min_len (pos + 1) else Inr pos))
      else Inr pos)"
  by pat_completeness auto

termination
  by (relation "measure (\<lambda>(p1, p2, min_len, pos). min_len - pos)") auto

declare CompareByteString_bytes.simps [simp del]

text \<open>The result, \<^verbatim>\<open>*inclusive\<close> and \<^verbatim>\<open>*common_prefix_len\<close>.\<close>

definition CompareByteString :: "string \<Rightarrow> nat \<Rightarrow> string \<Rightarrow> nat \<Rightarrow> (int \<times> bool \<times> nat) result" where
  "CompareByteString lhs lhs_len rhs rhs_len =
     (let min_len = (if lhs_len \<le> rhs_len then lhs_len else rhs_len)
      in bindR (CompareByteString_words lhs rhs min_len 0) (\<lambda>pos0.
         bindR (CompareByteString_bytes lhs rhs min_len pos0) (\<lambda>pos.
           let inclusive = (pos = min_len)
           in if inclusive then
                Inr (if lhs_len > rhs_len then 1 else if lhs_len = rhs_len then 0 else - 1, inclusive, pos)
              else
                bindR (checked_nth lhs pos) (\<lambda>x. bindR (checked_nth rhs pos) (\<lambda>y.
                  Inr (int (code x) - int (code y), inclusive, pos))))))"

definition CompareByteString_str :: "string \<Rightarrow> string \<Rightarrow> int result" where
  "CompareByteString_str lhs rhs =
     bindR (CompareByteString lhs (length lhs) rhs (length rhs)) (\<lambda>(r, inclusive, n). Inr r)"

text \<open>\<^verbatim>\<open>tolower\<close> is that of the C locale.\<close>

fun memcasecmp_loop :: "nat \<Rightarrow> string \<Rightarrow> string \<Rightarrow> nat \<Rightarrow> int result" where
  "memcasecmp_loop 0 s1 s2 i = Inr 0"
| "memcasecmp_loop (Suc k) s1 s2 i =
     bindR (checked_nth s1 i) (\<lambda>u1. bindR (checked_nth s2 i) (\<lambda>u2.
       let diff = int (code (c_tolower u1)) - int (code (c_tolower u2))
       in if diff \<noteq> 0 then Inr diff else memcasecmp_loop k s1 s2 (i + 1)))"

definition memcasecmp :: "string \<Rightarrow> string \<Rightarrow> nat \<Rightarrow> int result" where
  "memcasecmp s1 s2 n = memcasecmp_loop n s1 s2 0"

section \<open>Bounded copies\<close>

text \<open>
  \<^verbatim>\<open>memcpy\<close> into a buffer at an offset, and the two BSD string functions. \<open>count - dsize\<close> and
  \<open>count - 1\<close> are computed modulo \<open>2 ^ 64\<close>. The block at \<open>dest\<close> is exactly the list, so that
  \<^verbatim>\<open>strlen(dest)\<close> leaves it when it has no NUL.
\<close>

definition memcpy_at :: "string \<Rightarrow> nat \<Rightarrow> string \<Rightarrow> nat \<Rightarrow> string result" where
  "memcpy_at dest off src n =
     (if n \<le> length src \<and> off + n \<le> length dest
      then Inr (take off dest @ take n src @ drop (off + n) dest) else Inl Out_of_bounds)"

definition store_at :: "string \<Rightarrow> nat \<Rightarrow> char \<Rightarrow> string result" where
  "store_at dest i c = (if i < length dest then Inr (dest[i := c]) else Inl Out_of_bounds)"

definition strlcpy :: "string \<Rightarrow> string \<Rightarrow> nat \<Rightarrow> (nat \<times> string) result" where
  "strlcpy dest src sz =
     (let ret = length (c_str src)
      in if sz \<noteq> 0 then
           (let len = (if ret \<ge> sz then sz - 1 else ret)
            in bindR (memcpy_at dest 0 src len) (\<lambda>d. bindR (store_at d len NUL) (\<lambda>d'. Inr (ret, d'))))
         else Inr (ret, dest))"

definition strlen_in :: "string \<Rightarrow> nat result" where
  "strlen_in block = (if NUL \<in> set block then Inr (length (c_str block)) else Inl Out_of_bounds)"

definition strlcat :: "string \<Rightarrow> string \<Rightarrow> nat \<Rightarrow> (nat \<times> string) result" where
  "strlcat dest src count =
     bindR (strlen_in dest) (\<lambda>dsize.
       let len = length (c_str src); res = dsize + len
       in if dsize \<ge> count then
            (let count' = nat ((int count - int dsize) mod 2 ^ 64);
                 len' = (if len \<ge> count' then nat ((int count' - 1) mod 2 ^ 64) else len)
             in bindR (memcpy_at dest dsize src len') (\<lambda>d.
                bindR (store_at d (dsize + len') NUL) (\<lambda>d'. Inr (res, d'))))
          else Inr (res, dest))"

section \<open>Searching\<close>

text \<open>\<^verbatim>\<open>memmem\<close> for compilers that do not have it.\<close>

function memmem_loop :: "string \<Rightarrow> nat \<Rightarrow> string \<Rightarrow> nat \<Rightarrow> nat \<Rightarrow> nat option result" where
  "memmem_loop haystack last_possible needle needle_len i =
     (if i \<le> last_possible then
        bindR (andR (eq_at load8 0 (drop i haystack) needle)
            (memeql (drop (i + 1) haystack) (drop 1 needle) (needle_len - 1)))
          (\<lambda>found. if found then Inr (Some i)
             else memmem_loop haystack last_possible needle needle_len (i + 1))
      else Inr None)"
  by pat_completeness auto

termination
  by (relation "measure (\<lambda>(h, l, n, k, i). Suc l - i)") auto

declare memmem_loop.simps [simp del]

definition internal_memmem :: "string \<Rightarrow> nat \<Rightarrow> string \<Rightarrow> nat \<Rightarrow> nat option result" where
  "internal_memmem haystack haystack_len needle needle_len =
     (if needle_len = 0 then Inr (Some 0)
      else if haystack_len < needle_len then Inr None
      else memmem_loop haystack (haystack_len - needle_len) needle needle_len 0)"

fun internal_memrchr :: "string \<Rightarrow> char \<Rightarrow> nat \<Rightarrow> nat option result" where
  "internal_memrchr start c 0 = Inr None"
| "internal_memrchr start c (Suc len) =
     bindR (checked_nth start len) (\<lambda>x. if x = c then Inr (Some len) else internal_memrchr start c len)"

text \<open>
  \<^verbatim>\<open>strnpbrk\<close>: the loop that builds the bitmap advances \<^verbatim>\<open>chars\<close> but tests \<^verbatim>\<open>p\<close>, which does not move.
  Its bitmap has \<^verbatim>\<open>UCHAR_MAX / CHAR_BIT\<close>, that is 31, bytes. \<^const>\<open>None\<close> is not returning.
\<close>

partial_function (option) strnpbrk_bitmap :: "string \<Rightarrow> 8 word list \<Rightarrow> 8 word list result option" where
  "strnpbrk_bitmap p bitmap =
     (case p of
        [] \<Rightarrow> Some (Inl Out_of_bounds)
      | c # _ \<Rightarrow>
          if c = NUL then Some (Inr bitmap)
          else if code c div 8 < length bitmap
          then strnpbrk_bitmap p (bitmap[code c div 8 := (bitmap ! (code c div 8)) OR push_bit (code c mod 8) 1])
          else Some (Inl Out_of_bounds))"

fun strnpbrk_loop :: "nat \<Rightarrow> string \<Rightarrow> 8 word list \<Rightarrow> nat \<Rightarrow> nat option result" where
  "strnpbrk_loop 0 str bitmap i = Inr None"
| "strnpbrk_loop (Suc k) str bitmap i =
     bindR (checked_nth str i) (\<lambda>c. bindR (checked_nth bitmap (code c div 8)) (\<lambda>b.
       if schar c < 0 \<and> schar c mod 8 \<noteq> 0 then Inl Undefined_arith
       else if b AND push_bit (code c mod 8) 1 \<noteq> 0 then Inr (Some i)
       else strnpbrk_loop k str bitmap (i + 1)))"

definition strnpbrk :: "string \<Rightarrow> nat \<Rightarrow> string \<Rightarrow> nat option result option" where
  "strnpbrk str len chars =
     map_option (\<lambda>r. bindR r (\<lambda>bitmap. strnpbrk_loop len str bitmap 0))
       (strnpbrk_bitmap chars (replicate 31 0))"

section \<open>Words and bytes\<close>

lemma le_value_Nil [simp]: "le_value [] = 0"
  by (simp add: le_value_def)

lemma le_value_Cons [simp]: "le_value (c # bs) = code c + 256 * le_value bs"
  by (simp add: le_value_def)

lemma le_value_bound: "le_value bs < 256 ^ length bs"
proof (induction bs)
  case (Cons c bs)
  have "code c < 256"
    by simp
  with Cons show ?case
    unfolding le_value_Cons length_Cons power_Suc by linarith
qed simp

lemma le_value_inj: "length xs = length ys \<Longrightarrow> le_value xs = le_value ys \<longleftrightarrow> xs = ys"
proof (induction xs ys rule: list_induct2)
  case (Cons x xs y ys)
  have lt: "code x < 256" "code y < 256"
    by simp_all
  have "code x = code y \<and> le_value xs = le_value ys" if "code x + 256 * le_value xs = code y + 256 * le_value ys"
  proof -
    from that lt have "le_value xs = le_value ys"
      by linarith
    with that show ?thesis
      by simp
  qed
  then show ?case
    using Cons.IH by auto
qed simp

lemma load_inside:
  assumes "n \<le> length p" "n \<le> length q" "256 ^ n = (2::nat) ^ LENGTH('w)"
  shows "bindR (load n p :: ('w::len) word result) (\<lambda>x. bindR (load n q) (\<lambda>y. Inr (x = y))) =
    Inr (take n p = take n q)"
proof -
  have b: "le_value (take n p) < 2 ^ LENGTH('w)" "le_value (take n q) < 2 ^ LENGTH('w)"
    using le_value_bound [of "take n p"] le_value_bound [of "take n q"] assms by simp_all
  then have "(word_of_nat (le_value (take n p)) :: 'w word) = word_of_nat (le_value (take n q)) \<longleftrightarrow>
      le_value (take n p) = le_value (take n q)"
    by (simp add: word_of_nat_eq_iff take_bit_nat_eq_self)
  also have "\<dots> \<longleftrightarrow> take n p = take n q"
    using assms by (intro le_value_inj) simp
  finally show ?thesis
    using assms by (simp add: load_def)
qed

lemma eq_at_inside:
  "off + 1 \<le> length p \<Longrightarrow> off + 1 \<le> length q \<Longrightarrow> eq_at load8 off p q = Inr (slice p off 1 = slice q off 1)"
  "off + 2 \<le> length p \<Longrightarrow> off + 2 \<le> length q \<Longrightarrow> eq_at load16 off p q = Inr (slice p off 2 = slice q off 2)"
  "off + 4 \<le> length p \<Longrightarrow> off + 4 \<le> length q \<Longrightarrow> eq_at load32 off p q = Inr (slice p off 4 = slice q off 4)"
  "off + 8 \<le> length p \<Longrightarrow> off + 8 \<le> length q \<Longrightarrow> eq_at load64 off p q = Inr (slice p off 8 = slice q off 8)"
  unfolding eq_at_def load8_def load16_def load32_def load64_def slice_def
  by (rule load_inside; simp)+

lemma andR_Inr [simp]: "andR (Inr a) r = (if a then r else Inr False)"
  by (simp add: andR_def)

text \<open>Equality of prefixes, split after \<open>k\<close> bytes.\<close>

lemma take_eq_split:
  assumes "k \<le> length p" "k \<le> length q"
  shows "take (k + n) p = take (k + n) q \<longleftrightarrow> take k p = take k q \<and> slice p k n = slice q k n"
  using assms by (simp add: take_add slice_def)


lemma slice_at_0 [simp]: "slice p 0 n = take n p"
  by (simp add: slice_def)

lemmas memeql_n_defs =
  memeql_2_def memeql_3_def memeql_4_def memeql_5_def memeql_6_def memeql_7_def memeql_8_def
  memeql_9_def memeql_10_def memeql_11_def memeql_12_def memeql_13_def memeql_14_def memeql_15_def
  memeql_16_def

lemma memeql_tail_inside:
  assumes "sz < 8" "sz \<le> length p" "sz \<le> length q"
  shows "memeql_tail p q sz = Inr (take sz p = take sz q)"
proof -
  have "sz \<in> {0, 1, 2, 3, 4, 5, 6, 7}"
    using assms(1) by auto
  then show ?thesis
    using assms take_eq_split [of 4 p q 1] take_eq_split [of 4 p q 2] take_eq_split [of 4 p q 3]
      take_eq_split [of 2 p q 1] take_eq_split [of 2 "drop 4 p" "drop 4 q" 1]
    by (auto simp: memeql_tail_def eq_at_inside slice_def)
qed

lemma memeql_loop_inside:
  "sz \<le> length p \<Longrightarrow> sz \<le> length q \<Longrightarrow> memeql_loop p q sz = Inr (take sz p = take sz q)"
proof (induction p q sz rule: memeql_loop.induct)
  case (1 p q sz)
  show ?case
  proof (cases "8 \<le> sz")
    case True
    have "take sz p = take sz q \<longleftrightarrow> take 8 p = take 8 q \<and> slice p 8 (sz - 8) = slice q 8 (sz - 8)"
      using take_eq_split [of 8 p q "sz - 8"] 1 True by simp
    then show ?thesis
      using 1 True by (subst memeql_loop.simps) (simp add: eq_at_inside slice_def)
  next
    case False
    then show ?thesis
      using 1 by (subst memeql_loop.simps) (simp add: memeql_tail_inside)
  qed
qed

lemma memeql_small:
  assumes "sz \<le> 16" "0 < sz" "sz \<le> length p" "sz \<le> length q"
  shows "memeql p q sz = Inr (take sz p = take sz q)"
proof -
  have "sz \<in> {1, 2, 3, 4, 5, 6, 7, 8, 9, 10, 11, 12, 13, 14, 15, 16}"
    using assms(1,2) unfolding insert_iff empty_iff by presburger
  then show ?thesis
    using assms(3,4) take_eq_split [of 2 p q 1] take_eq_split [of 4 p q 1] take_eq_split [of 4 p q 2]
      take_eq_split [of 6 p q 1] take_eq_split [of 8 p q 1] take_eq_split [of 8 p q 2]
      take_eq_split [of 10 p q 1] take_eq_split [of 8 p q 4] take_eq_split [of 12 p q 1]
      take_eq_split [of 12 p q 2] take_eq_split [of 14 p q 1] take_eq_split [of 8 p q 8]
    by (elim insertE emptyE; simp add: memeql_def memeql_n_defs eq_at_inside)
qed

lemma memeql_inside:
  assumes "sz \<le> length p" "sz \<le> length q"
  shows "memeql p q sz = Inr (take sz p = take sz q)"
proof -
  consider "sz = 0" | "0 < sz" "sz \<le> 16" | "16 < sz"
    by linarith
  then show ?thesis
  proof cases
    case 2
    then show ?thesis
      using memeql_small assms by simp
  next
    case 3
    then have "memeql p q sz = memeql_loop p q sz"
      by (simp add: memeql_def)
    then show ?thesis
      using memeql_loop_inside assms by simp
  qed (simp add: memeql_def)
qed

section \<open>Longest common prefixes\<close>

fun lcp :: "'a list \<Rightarrow> 'a list \<Rightarrow> nat" where
  "lcp (x # xs) (y # ys) = (if x = y then Suc (lcp xs ys) else 0)"
| "lcp _ _ = 0"

lemma lcp_le: "lcp xs ys \<le> length xs" "lcp xs ys \<le> length ys"
  by (induction xs ys rule: lcp.induct) auto

lemma take_lcp: "take (lcp xs ys) xs = take (lcp xs ys) ys"
  by (induction xs ys rule: lcp.induct) auto

lemma nth_lcp: "lcp xs ys < length xs \<Longrightarrow> lcp xs ys < length ys \<Longrightarrow> xs ! lcp xs ys \<noteq> ys ! lcp xs ys"
  by (induction xs ys rule: lcp.induct) (auto split: if_splits)

lemma lcp_unique:
  assumes "n \<le> length xs" "n \<le> length ys" "take n xs = take n ys"
    "n < length xs \<Longrightarrow> n < length ys \<Longrightarrow> xs ! n \<noteq> ys ! n"
  shows "lcp xs ys = n"
  using assms
proof (induction xs ys arbitrary: n rule: lcp.induct)
  case (1 x xs y ys)
  show ?case
  proof (cases n)
    case 0
    then show ?thesis
      using 1(5) by simp
  next
    case (Suc m)
    then show ?thesis
      using 1(1) [of m] 1(2-5) by auto
  qed
qed auto

text \<open>The reference: the position of the first difference within \<open>len\<close> bytes, and the difference there.\<close>

definition first_diff :: "string \<Rightarrow> string \<Rightarrow> nat \<Rightarrow> int \<times> nat" where
  "first_diff a b len =
     (let n = lcp (take len a) (take len b)
      in (if n = len then 0 else int (code (a ! n)) - int (code (b ! n)), n))"

lemma first_diffI:
  assumes "n \<le> len" "len \<le> length a" "len \<le> length b" "take n a = take n b"
    "n < len \<Longrightarrow> a ! n \<noteq> b ! n"
  shows "first_diff a b len = (if n = len then 0 else int (code (a ! n)) - int (code (b ! n)), n)"
proof -
  have "lcp (take len a) (take len b) = n"
    by (rule lcp_unique) (use assms in \<open>simp_all add: min_absorb2\<close>)
  then show ?thesis
    by (simp add: first_diff_def)
qed

lemma first_diff_facts:
  assumes "first_diff a b len = (d, n)" "len \<le> length a" "len \<le> length b"
  shows "n \<le> len" "take n a = take n b" "n \<noteq> len \<Longrightarrow> n < len \<and> a ! n \<noteq> b ! n"
    "d = (if n = len then 0 else int (code (a ! n)) - int (code (b ! n)))"
proof -
  let ?a = "take len a" and ?b = "take len b"
  have n: "n = lcp ?a ?b"
    using assms(1) by (simp add: first_diff_def Let_def)
  show le: "n \<le> len"
    using lcp_le(1) [of ?a ?b] n assms by simp
  show "take n a = take n b"
    using take_lcp [of ?a ?b] le by (simp add: n min_absorb1)
  show "n < len \<and> a ! n \<noteq> b ! n" if "n \<noteq> len"
    using nth_lcp [of ?a ?b] le that assms(2,3) by (simp flip: n)
  show "d = (if n = len then 0 else int (code (a ! n)) - int (code (b ! n)))"
    using assms(1) by (auto simp: first_diff_def Let_def)
qed

lemma take_Suc_eq:
  "i < length a \<Longrightarrow> i < length b \<Longrightarrow> take (Suc i) a = take (Suc i) b \<longleftrightarrow> take i a = take i b \<and> a ! i = b ! i"
  by (auto simp: take_Suc_conv_app_nth)

lemma compare_bytes_inside:
  assumes "pos + k \<le> length a" "pos + k \<le> length b" "take pos a = take pos b"
  shows "(\<exists>n. compare_bytes k a b pos = Inr (Some (int (code (a ! n)) - int (code (b ! n)), n)) \<and>
      pos \<le> n \<and> n < pos + k \<and> take n a = take n b \<and> a ! n \<noteq> b ! n) \<or>
    compare_bytes k a b pos = Inr None \<and> take (pos + k) a = take (pos + k) b"
  using assms
proof (induction k arbitrary: pos)
  case (Suc k)
  show ?case
  proof (cases "a ! pos = b ! pos")
    case True
    then have "compare_bytes (Suc k) a b pos = compare_bytes k a b (Suc pos)"
      using Suc.prems by (simp add: checked_nth_def)
    moreover have "take (Suc pos) a = take (Suc pos) b"
      using Suc.prems True by (simp add: take_Suc_eq)
    ultimately show ?thesis
      using Suc.IH [of "Suc pos"] Suc.prems(1,2) by auto
  next
    case False
    then have "compare_bytes (Suc k) a b pos = Inr (Some (int (code (a ! pos)) - int (code (b ! pos)), pos))"
      using Suc.prems by (simp add: checked_nth_def)
    then show ?thesis
      using False Suc.prems(3) by auto
  qed
qed simp

lemma load64_inside:
  assumes "pos + 8 \<le> length a" "pos + 8 \<le> length b"
  shows "\<exists>x y. load64 (drop pos a) = Inr x \<and> load64 (drop pos b) = Inr y \<and> (x = y \<longleftrightarrow> slice a pos 8 = slice b pos 8)"
proof -
  have "8 \<le> length (drop pos a)" "8 \<le> length (drop pos b)"
    using assms by simp_all
  then obtain x y where "load64 (drop pos a) = Inr x" "load64 (drop pos b) = Inr y"
    unfolding load64_def load_def by auto
  then show ?thesis
    using eq_at_inside(4) [OF assms] by (simp add: eq_at_def)
qed

lemma CompareMemory_loop_inside:
  assumes "pos \<le> len" "len \<le> length a" "len \<le> length b" "take pos a = take pos b"
  shows "CompareMemory_loop a b len pos = Inr (first_diff a b len)"
  using assms
proof (induction a b len pos rule: CompareMemory_loop.induct)
  case (1 a b len pos)
  show ?case
  proof (cases "pos + 8 \<le> len")
    case True
    then have g: "int pos \<le> int len - 8" "pos + 8 \<le> length a" "pos + 8 \<le> length b"
      using 1(3,4) by simp_all
    obtain x y where xy: "load64 (drop pos a) = Inr x" "load64 (drop pos b) = Inr y"
      "x = y \<longleftrightarrow> slice a pos 8 = slice b pos 8"
      using load64_inside [OF g(2,3)] by blast
    have split: "take (pos + 8) a = take (pos + 8) b \<longleftrightarrow> x = y"
      using take_eq_split [of pos a b 8] g 1(5) xy(3) by simp
    show ?thesis
    proof (cases "x = y")
      case eq: True
      then have "CompareMemory_loop a b len (pos + 8) = Inr (first_diff a b len)"
        using 1(1) [OF g(1)] True 1(3,4) split by blast
      then show ?thesis
        using g(1) xy(1,2) eq by (subst CompareMemory_loop.simps) simp
    next
      case False
      then obtain n where n: "compare_bytes 8 a b pos = Inr (Some (int (code (a ! n)) - int (code (b ! n)), n))"
          "n < pos + 8" "take n a = take n b" "a ! n \<noteq> b ! n"
        using compare_bytes_inside [of pos 8 a b] g split 1(5) by blast
      then have "first_diff a b len = (int (code (a ! n)) - int (code (b ! n)), n)"
        using first_diffI [of n len a b] True 1(3,4) by simp
      then show ?thesis
        using g(1) xy(1,2) False n(1) by (subst CompareMemory_loop.simps) simp
    qed
  next
    case False
    then have g: "\<not> int pos \<le> int len - 8" "pos + (len - pos) = len"
      using 1(2) by simp_all
    consider n where "compare_bytes (len - pos) a b pos = Inr (Some (int (code (a ! n)) - int (code (b ! n)), n))"
        "n < len" "take n a = take n b" "a ! n \<noteq> b ! n"
      | "compare_bytes (len - pos) a b pos = Inr None" "take len a = take len b"
      using compare_bytes_inside [of pos "len - pos" a b] g(2) 1(3-5) by metis
    then show ?thesis
    proof cases
      case (1 n)
      then show ?thesis
        using g(1) first_diffI [of n len a b] \<open>len \<le> length a\<close> \<open>len \<le> length b\<close>
        by (subst CompareMemory_loop.simps) simp
    next
      case 2
      then show ?thesis
        using g(1) first_diffI [of len len a b] \<open>len \<le> length a\<close> \<open>len \<le> length b\<close>
        by (subst CompareMemory_loop.simps) simp
    qed
  qed
qed

section \<open>Lexicographic order\<close>

lemma CompareByteString_words_inside:
  assumes "pos \<le> len" "len \<le> length a" "len \<le> length b" "take pos a = take pos b"
  shows "\<exists>n. CompareByteString_words a b len pos = Inr n \<and> n \<le> len \<and> take n a = take n b"
  using assms
proof (induction a b len pos rule: CompareByteString_words.induct)
  case (1 a b len pos)
  show ?case
  proof (cases "pos + 8 \<le> len")
    case True
    then have g: "int pos < int len - 8 + 1" "pos + 8 \<le> length a" "pos + 8 \<le> length b"
      using 1(3,4) by simp_all
    obtain x y where xy: "load64 (drop pos a) = Inr x" "load64 (drop pos b) = Inr y"
      "x = y \<longleftrightarrow> slice a pos 8 = slice b pos 8"
      using load64_inside [OF g(2,3)] by blast
    show ?thesis
    proof (cases "x = y")
      case eq: True
      then have "take (pos + 8) a = take (pos + 8) b"
        using take_eq_split [of pos a b 8] g 1(5) xy(3) by simp
      then show ?thesis
        using 1(1) [OF g(1) eq True 1(3,4)] g(1) xy(1,2) eq
        by (subst CompareByteString_words.simps) simp
    next
      case False
      then show ?thesis
        using g(1) xy(1,2) 1(2,5) by (subst CompareByteString_words.simps) simp
    qed
  next
    case False
    then show ?thesis
      using 1(2,5) by (subst CompareByteString_words.simps) simp
  qed
qed

lemma CompareByteString_bytes_inside:
  assumes "pos \<le> len" "len \<le> length a" "len \<le> length b" "take pos a = take pos b"
  shows "CompareByteString_bytes a b len pos = Inr (snd (first_diff a b len))"
  using assms
proof (induction a b len pos rule: CompareByteString_bytes.induct)
  case (1 a b len pos)
  consider "pos < len" "a ! pos = b ! pos" | "pos < len" "a ! pos \<noteq> b ! pos" | "pos = len"
    using 1(2) by linarith
  then show ?case
  proof cases
    case c: 1
    then have "take (Suc pos) a = take (Suc pos) b"
      using 1(3-5) by (simp add: take_Suc_eq)
    then show ?thesis
      using 1(1) [of "a ! pos" "b ! pos"] c 1(3,4)
      by (subst CompareByteString_bytes.simps) (simp add: checked_nth_def)
  next
    case 2
    then show ?thesis
      using first_diffI [of pos len a b] 1(3-5)
      by (subst CompareByteString_bytes.simps) (simp add: checked_nth_def)
  next
    case 3
    then show ?thesis
      using first_diffI [of len len a b] 1(3-5) by (subst CompareByteString_bytes.simps) simp
  qed
qed

lemma CompareByteString_inside:
  assumes "l \<le> length a" "r \<le> length b"
  shows "CompareByteString a l b r =
    (let m = min l r; (d, n) = first_diff a b m
     in Inr (if n = m then (if r < l then 1 else if l = r then 0 else - 1) else d, n = m, n))"
proof -
  let ?m = "min l r"
  have m: "?m \<le> length a" "?m \<le> length b" "(if l \<le> r then l else r) = ?m"
    using assms by (simp_all add: min_def)
  obtain n0 where n0: "CompareByteString_words a b ?m 0 = Inr n0" "n0 \<le> ?m" "take n0 a = take n0 b"
    using CompareByteString_words_inside [of 0 ?m a b] m by auto
  obtain d n where dn: "first_diff a b ?m = (d, n)"
    by fastforce
  then have b: "CompareByteString_bytes a b ?m n0 = Inr n"
    using CompareByteString_bytes_inside [OF n0(2) m(1,2) n0(3)] by simp
  have n: "n \<le> ?m" "n \<noteq> ?m \<Longrightarrow> n < ?m \<and> d = int (code (a ! n)) - int (code (b ! n))"
    using first_diff_facts [OF dn m(1,2)] by simp_all
  show ?thesis
    unfolding CompareByteString_def m(3) Let_def n0(1) dn
    using b n m by (auto simp: checked_nth_def)
qed

lemma append_less_append: "u @ x < u @ y \<longleftrightarrow> x < (y :: string)"
  by (induction u) simp_all

lemma first_diff_less:
  assumes "first_diff a b (min (length a) (length b)) = (d, n)" "n \<noteq> min (length a) (length b)"
  shows "d \<noteq> 0 \<and> (d < 0 \<longleftrightarrow> a < b) \<and> a \<noteq> b"
proof -
  let ?m = "min (length a) (length b)"
  note facts = first_diff_facts [OF assms(1)]
  have t: "take n a = take n b" and lt: "n < ?m" and ne: "a ! n \<noteq> b ! n"
    and n: "d = int (code (a ! n)) - int (code (b ! n))"
    using facts assms(2) by simp_all
  have "a = take n a @ a ! n # drop (Suc n) a" "b = take n a @ b ! n # drop (Suc n) b"
    using id_take_nth_drop [of n a] id_take_nth_drop [of n b] lt t by simp_all
  then have "a < b \<longleftrightarrow> a ! n < b ! n"
    using append_less_append [of "take n a" "a ! n # drop (Suc n) a" "b ! n # drop (Suc n) b"] ne
    by (metis Cons_less_Cons)
  then show ?thesis
    using n ne by (auto simp: less_char_def)
qed

lemma first_diff_prefix:
  assumes "first_diff a b (min (length a) (length b)) = (d, min (length a) (length b))"
  shows "(a < b \<longleftrightarrow> length a < length b) \<and> (a = b \<longleftrightarrow> length a = length b)"
proof -
  let ?m = "min (length a) (length b)"
  have t: "take ?m a = take ?m b"
    using first_diff_facts(2) [OF assms] by simp
  show ?thesis
  proof (cases "length a < length b")
    case True
    then have "b = a @ drop (length a) b" "drop (length a) b \<noteq> []"
      using t by (metis append_take_drop_id min.absorb3 take_all_iff order_refl) (use True in simp)
    then show ?thesis
      using True append_less_append [of a "[]" "drop (length a) b"] by (metis append_Nil2 Nil_less_Cons neq_Nil_conv less_irrefl)
  next
    case False
    then have a: "a = b @ drop (length b) a"
      using t by (metis append_take_drop_id linorder_not_less min.absorb2 take_all_iff order_refl)
    then have "\<not> a < b"
      using append_less_append [of b "drop (length b) a" "[]"] by (metis append_Nil2 not_less_Nil)
    moreover have "a = b \<longleftrightarrow> length a = length b"
      using a by (metis append_Nil2 drop_eq_Nil order_refl)
    ultimately show ?thesis
      using False by simp
  qed
qed

lemma CompareByteString_str_sign:
  "\<exists>d. CompareByteString_str a b = Inr d \<and> (d < 0 \<longleftrightarrow> a < b) \<and> (d = 0 \<longleftrightarrow> a = b)"
proof -
  let ?m = "min (length a) (length b)"
  obtain d n where dn: "first_diff a b ?m = (d, n)"
    by fastforce
  note eq = CompareByteString_inside [of "length a" a "length b" b, unfolded dn Let_def]
  show ?thesis
  proof (cases "n = ?m")
    case True
    then show ?thesis
      using first_diff_prefix [of a b d] dn eq by (auto simp: CompareByteString_str_def)
  next
    case False
    then show ?thesis
      using first_diff_less [OF dn] eq by (auto simp: CompareByteString_str_def)
  qed
qed

text \<open>
  comparing memory in words of two, four and eight bytes decides equality of the first \<open>sz\<close> bytes,
  and reads no byte beyond them.
\<close>

theorem MemoryEqual_correct:
  assumes "sz \<le> length a1" "sz \<le> length a2"
  shows "MemoryEqual a1 a2 sz = Inr (take sz a1 = take sz a2)"
  unfolding MemoryEqual_def using assms by (rule memeql_inside)

theorem MemoryEqual_correct_witness:
  "MemoryEqual ''abcdefghijklmnopqrs'' ''abcdefghijklmnopqrt'' 18 = Inr True"
  by (subst MemoryEqual_correct) simp_all

text \<open>
  the comparison in words of eight bytes finds the first position at which two blocks of memory
  differ and the difference of the bytes there; its assertion is never reached.
\<close>

theorem CompareMemory_correct:
  assumes "len \<le> length a" "len \<le> length b"
  shows "CompareMemory a b len =
    (let n = lcp (take len a) (take len b)
     in Inr (if n = len then 0 else int (code (a ! n)) - int (code (b ! n)), n))"
  using CompareMemory_loop_inside [of 0 len a b] assms
  by (simp add: CompareMemory_def first_diff_def Let_def)

theorem CompareMemory_correct_witness:
  "CompareMemory ''abcdefghijkl'' ''abcdefghzjkl'' 12 = Inr (- 17, 8)"
  by (subst CompareMemory_correct) (simp_all add: Let_def)

text \<open>
  C12: the sign of \<^verbatim>\<open>CompareByteString\<close> on two strings is their lexicographic order by unsigned bytes,
  and it is zero only for equal strings.
\<close>

theorem CompareByteString_is_lexicographic:
  "\<exists>d. CompareByteString_str lhs rhs = Inr d \<and> (d < 0 \<longleftrightarrow> lhs < rhs) \<and> (d = 0 \<longleftrightarrow> lhs = rhs) \<and>
     (d > 0 \<longleftrightarrow> rhs < lhs)"
  using CompareByteString_str_sign [of lhs rhs] by (metis less_linear order_less_asym)

text \<open>\<^verbatim>\<open>GetCommonPrefixLength\<close> returns the length of the longest common prefix.\<close>

theorem GetCommonPrefixLength_correct:
  assumes "l \<le> length a" "r \<le> length b"
  shows "GetCommonPrefixLength a l b r = Inr (lcp (take l a) (take r b))"
proof -
  let ?m = "min l r"
  have m: "?m \<le> length a" "?m \<le> length b" "(if l < r then l else r) = ?m"
    using assms by (auto simp: min_def)
  obtain d n where dn: "first_diff a b ?m = (d, n)"
    by fastforce
  note facts = first_diff_facts [OF dn m(1,2)]
  have "lcp (take l a) (take r b) = n"
    by (rule lcp_unique) (use facts assms in \<open>auto simp: min_absorb1 min_absorb2\<close>)
  then show ?thesis
    using CompareMemory_loop_inside [of 0 ?m a b] m dn
    by (simp add: GetCommonPrefixLength_def CompareMemory_def Let_def)
qed

theorem GetCommonPrefixLength_correct_witness:
  "GetCommonPrefixLength ''interest'' 8 ''internal'' 8 = Inr 5"
  by (subst GetCommonPrefixLength_correct) simp_all

section \<open>Bounded copies\<close>

lemma c_str_prefix: "\<exists>r. s = c_str s @ r"
  unfolding c_str_def by (metis takeWhile_dropWhile_id)

lemma c_str_take: "take n (c_str s) = take n s" if "n \<le> length (c_str s)"
  using that c_str_prefix [of s] by (metis append_eq_conv_conj min.absorb1 take_take)

lemma NUL_notin_c_str: "NUL \<notin> set (c_str s)"
  unfolding c_str_def by (auto dest: set_takeWhileD)

text \<open>
  \<^verbatim>\<open>strlcpy\<close> into a buffer of at least \<open>sz\<close> bytes stays inside its first \<open>sz\<close> bytes, leaves there a
  NUL-terminated copy of as much of the source as fits, and returns the length of the source.
\<close>

theorem strlcpy_correct:
  assumes "0 < sz" "sz \<le> length dest"
  shows "\<exists>d. strlcpy dest src sz = Inr (length (c_str src), d) \<and> length d = length dest \<and>
    c_str d = take (sz - 1) (c_str src) \<and> drop sz d = drop sz dest"
proof -
  define n where "n = min (length (c_str src)) (sz - 1)"
  have n: "(if length (c_str src) \<ge> sz then sz - 1 else length (c_str src)) = n" "n < sz" "n \<le> length (c_str src)"
    using assms(1) by (auto simp: n_def)
  have nsrc: "n \<le> length src"
    using n(3) c_str_prefix [of src] by (metis length_append trans_le_add1)
  let ?d = "take n src @ NUL # drop (Suc n) dest"
  have "drop n dest = dest ! n # drop (Suc n) dest"
    using n(2) assms(2) by (simp add: drop_split1)
  then have "(take n src @ drop n dest)[n := NUL] = ?d"
    using nsrc by (simp add: list_update_append min_absorb2)
  then have eq: "strlcpy dest src sz = Inr (length (c_str src), ?d)"
    using n assms nsrc by (simp add: strlcpy_def Let_def memcpy_at_def store_at_def)
  have t: "take n src = take n (c_str src)"
    using n(3) by (simp add: c_str_take)
  then have "NUL \<notin> set (take n src)"
    using NUL_notin_c_str [of src] by (metis in_set_takeD)
  then have "c_str ?d = take n src"
    by (simp add: c_str_def takeWhile_append)
  then have "c_str ?d = take (sz - 1) (c_str src)"
    using t by (simp add: n_def min_def)
  then show ?thesis
    using eq n(2) nsrc assms by (intro exI [of _ ?d]) (auto simp: min_absorb2 drop_Cons')
qed


theorem strlcpy_correct_witness:
  "\<exists>d. strlcpy ''xxxx'' ''hello'' 4 = Inr (length (c_str ''hello''), d) \<and> length d = length ''xxxx'' \<and>
    c_str d = take (4 - 1) (c_str ''hello'') \<and> drop 4 d = drop 4 ''xxxx''"
  by (rule strlcpy_correct) simp_all

text \<open>
  C34: \<^verbatim>\<open>strlcat\<close> tests the size of its buffer the wrong way round. For a NUL-terminated destination whose
  string is shorter than \<open>count\<close>, which is every correct call, it appends nothing and leaves the destination as it is.
  When \<open>count\<close> equals the length of the string, the copy leaves the block; when it is smaller, the whole source is
  appended without regard to \<open>count\<close>, and leaves the block unless it happens to fit. A destination without NUL is read
  beyond its end.
\<close>

theorem strlcat_reversed:
  assumes "length dest + length src < 2 ^ 64"
  shows "strlcat dest src count =
    (let d = length (c_str dest); l = length (c_str src)
     in if NUL \<notin> set dest then Inl Out_of_bounds
        else if d < count then Inr (d + l, dest)
        else if count < d \<and> d + l < length dest
          then Inr (d + l, take d dest @ c_str src @ NUL # drop (d + l + 1) dest)
        else Inl Out_of_bounds)"
proof -
  let ?d = "length (c_str dest)" and ?l = "length (c_str src)"
  have le: "?d \<le> length dest" "?l \<le> length src"
    by (simp_all add: c_str_def length_takeWhile_le)
  consider "NUL \<notin> set dest \<or> ?d < count" | "NUL \<in> set dest" "count = ?d" | "NUL \<in> set dest" "count < ?d"
    by linarith
  then show ?thesis
  proof cases
    case 1
    then show ?thesis
      by (auto simp: strlcat_def strlen_in_def Let_def)
  next
    case 2
    have "0 < length dest"
      using 2(1) by (cases dest) simp_all
    moreover have "length dest + length src < 18446744073709551616"
      using assms by simp
    ultimately have "\<not> 18446744073709551615 \<le> length src"
      by linarith
    then show ?thesis
      using 2 by (simp add: strlcat_def strlen_in_def Let_def memcpy_at_def)
  next
    case 3
    define M :: int where "M = 2 ^ 64"
    have bound: "int (length dest) + int (length src) < M"
      using assms by (simp add: M_def flip: of_nat_add)
    have "(int count - int ?d + M) mod M = int count - int ?d + M"
      using 3 bound le by (intro mod_pos_pos_trivial) linarith+
    then have "(int count - int ?d) mod M = int count - int ?d + M"
      by (simp only: mod_add_self2)
    then have "int ?l < (int count - int ?d) mod M"
      using bound le by linarith
    then have c: "\<not> nat ((int count - int ?d) mod 2 ^ 64) \<le> ?l"
      by (simp only: M_def nat_le_iff not_le)
    have src: "take ?l src = c_str src"
      using c_str_take [of ?l src] by simp
    have "(take ?d dest @ c_str src @ drop (?d + ?l) dest)[?d + ?l := NUL] =
        take ?d dest @ c_str src @ NUL # drop (?d + ?l + 1) dest" if "?d + ?l < length dest"
      using that le by (simp add: list_update_append min_absorb2 Cons_nth_drop_Suc [symmetric])
    then show ?thesis
      using 3 c le src by (auto simp: strlcat_def strlen_in_def Let_def memcpy_at_def store_at_def)
  qed
qed

theorem strlcat_reversed_witness:
  "strlcat [CHR ''a'', NUL, NUL, NUL] ''b'' 4 = Inr (2, [CHR ''a'', NUL, NUL, NUL]) \<and>
   strlcat [CHR ''a'', NUL, NUL, NUL] ''b'' 1 = Inl Out_of_bounds \<and>
   strlcat [CHR ''a'', NUL, NUL, NUL] ''b'' 0 = Inr (2, [CHR ''a'', CHR ''b'', NUL, NUL])"
  using strlcat_reversed [of "[CHR ''a'', NUL, NUL, NUL]" "''b''" 4]
    strlcat_reversed [of "[CHR ''a'', NUL, NUL, NUL]" "''b''" 1]
    strlcat_reversed [of "[CHR ''a'', NUL, NUL, NUL]" "''b''" 0]
  by (simp add: c_str_def)

section \<open>Searching\<close>

lemma strnpbrk_bitmap_diverges:
  assumes "c \<noteq> NUL" "code c < 248" "length bitmap = 31"
  shows "strnpbrk_bitmap (c # cs) bitmap = None"
proof -
  have in_range: "code c div 8 < 31"
    using assms(2) by (simp add: div_less_iff_less_mult)
  have "p = c # cs \<longrightarrow> length b = 31 \<longrightarrow> False" if "strnpbrk_bitmap p b = Some y" for p b y
    by (rule strnpbrk_bitmap.raw_induct [OF _ that, of "\<lambda>p b y. p = c # cs \<longrightarrow> length b = 31 \<longrightarrow> False"])
      (use assms(1) in_range in fastforce)
  then have "strnpbrk_bitmap (c # cs) bitmap \<noteq> Some y" for y
    using assms(3) by blast
  then show ?thesis
    by (cases "strnpbrk_bitmap (c # cs) bitmap") auto
qed

text \<open>C35: with a nonempty set of characters that starts below 248, \<^verbatim>\<open>strnpbrk\<close> never returns.\<close>

theorem strnpbrk_diverges:
  assumes "c \<noteq> NUL" "code c < 248"
  shows "strnpbrk str len (c # cs) = None"
  using strnpbrk_bitmap_diverges [OF assms] by (simp add: strnpbrk_def)

theorem strnpbrk_diverges_witness: "strnpbrk ''a,b'' 3 [CHR '','', NUL] = None"
  by (rule strnpbrk_diverges) simp_all

text \<open>\<open>occurs_at s t i\<close>: the string \<open>t\<close> occurs in \<open>s\<close> at position \<open>i\<close>.\<close>

definition occurs_at :: "string \<Rightarrow> string \<Rightarrow> nat \<Rightarrow> bool" where
  "occurs_at s t i \<longleftrightarrow> i + length t \<le> length s \<and> slice s i (length t) = t"

lemma memmem_test:
  assumes "t \<noteq> []" "i + length t \<le> length s"
  shows "andR (eq_at load8 0 (drop i s) t) (memeql (drop (i + 1) s) (drop 1 t) (length t - 1)) =
    Inr (occurs_at s t i)"
proof -
  have "Suc 0 \<le> length (drop i s)" "Suc 0 \<le> length t"
    using assms by (cases t; simp)+
  then have e: "eq_at load8 0 (drop i s) t = Inr (take 1 (drop i s) = take 1 t)"
    using eq_at_inside(1) [of 0 "drop i s" t] by simp
  have m: "memeql (drop (i + 1) s) (drop 1 t) (length t - 1) =
      Inr (take (length t - 1) (drop (i + 1) s) = take (length t - 1) (drop 1 t))"
    by (rule memeql_inside) (use assms in auto)
  have "slice s i (length t) = t \<longleftrightarrow> take (1 + (length t - 1)) (drop i s) = take (1 + (length t - 1)) t"
    using assms(1) by (cases t) (simp_all add: slice_def)
  also have "\<dots> \<longleftrightarrow> take 1 (drop i s) = take 1 t \<and> take (length t - 1) (drop (i + 1) s) = take (length t - 1) (drop 1 t)"
    using \<open>Suc 0 \<le> length t\<close> \<open>Suc 0 \<le> length (drop i s)\<close>
    by (subst take_eq_split) (simp_all add: slice_def add.commute)
  finally show ?thesis
    using assms(2) unfolding e m by (simp add: occurs_at_def)
qed

lemma memmem_loop_inside:
  assumes "t \<noteq> []" "lp + length t = length s" "\<And>j. j < i \<Longrightarrow> \<not> occurs_at s t j"
  shows "memmem_loop s lp t (length t) i =
    Inr (if \<exists>j. occurs_at s t j then Some (LEAST j. occurs_at s t j) else None)"
  using assms
proof (induction "Suc lp - i" arbitrary: i)
  case 0
  then have "\<not> occurs_at s t j" for j
    by (cases "j < i") (auto simp: occurs_at_def)
  then show ?case
    using 0 by (subst memmem_loop.simps) simp
next
  case (Suc k)
  then have i: "i \<le> lp"
    by simp
  then have test: "andR (eq_at load8 0 (drop i s) t) (memeql (drop (i + 1) s) (drop 1 t) (length t - 1)) =
      Inr (occurs_at s t i)"
    using Suc.prems by (intro memmem_test) auto
  show ?case
  proof (cases "occurs_at s t i")
    case True
    then have "(LEAST j. occurs_at s t j) = i"
      using Suc.prems(3) by (metis Least_equality linorder_not_less)
    then show ?thesis
      using True i test by (subst memmem_loop.simps) auto
  next
    case False
    then have "memmem_loop s lp t (length t) (i + 1) =
        Inr (if \<exists>j. occurs_at s t j then Some (LEAST j. occurs_at s t j) else None)"
      using Suc by (intro Suc.hyps(1)) (auto simp: less_Suc_eq)
    then show ?thesis
      using False i test by (subst memmem_loop.simps) simp
  qed
qed

text \<open>C25: \<^verbatim>\<open>internal_memmem\<close> returns the first position at which the needle occurs, if there is one.\<close>

theorem internal_memmem_correct:
  "internal_memmem s (length s) t (length t) =
     Inr (if \<exists>j. occurs_at s t j then Some (LEAST j. occurs_at s t j) else None)"
proof -
  consider "t = []" | "t \<noteq> []" "length s < length t" | "t \<noteq> []" "length t \<le> length s"
    by linarith
  then show ?thesis
  proof cases
    case 1
    then have "occurs_at s t 0"
      by (simp add: occurs_at_def)
    moreover from this have "(LEAST j. occurs_at s t j) = 0"
      by (simp add: Least_equality)
    ultimately show ?thesis
      using 1 by (auto simp: internal_memmem_def)
  next
    case 2
    then show ?thesis
      by (auto simp: internal_memmem_def occurs_at_def)
  next
    case 3
    then show ?thesis
      using memmem_loop_inside [of t "length s - length t" s 0] by (auto simp: internal_memmem_def)
  qed
qed

end
