(* ===== verification/String_Piece.thy ===== *)
theory String_Piece
  imports Compare
begin

text \<open>
  The class \<^verbatim>\<open>StringPiece\<close>, a pointer into a string with a length. A piece is the list of the bytes it
  denotes; positions are natural numbers and \<^const>\<open>None\<close> is \<^verbatim>\<open>npos\<close> as a result. The searching members
  are described by two contracts, one for the searches that go forward from a position and one for
  those that go backward, and every one of them is shown to keep its contract.
\<close>

section \<open>Comparison\<close>

definition StringPiece_eq :: "string \<Rightarrow> string \<Rightarrow> bool result" where
  "StringPiece_eq x y = (if length x = length y then MemoryEqual x y (length x) else Inr False)"

definition StringPiece_compare :: "string \<Rightarrow> string \<Rightarrow> int result" where
  "StringPiece_compare this x = CompareByteString_str this x"

definition StringPiece_less :: "string \<Rightarrow> string \<Rightarrow> bool result" where
  "StringPiece_less x y = bindR (StringPiece_compare x y) (\<lambda>r. Inr (r < 0))"

definition StringPiece_ignore_case_compare :: "string \<Rightarrow> string \<Rightarrow> int result" where
  "StringPiece_ignore_case_compare this x =
     bindR (memcasecmp this x (if length this < length x then length this else length x)) (\<lambda>r.
       if r \<noteq> 0 then Inr r
       else if length this < length x then Inr (- 1)
       else if length this > length x then Inr 1
       else Inr 0)"

fun ignore_case_equal_loop :: "string \<Rightarrow> string \<Rightarrow> bool" where
  "ignore_case_equal_loop (p # ps) (q # qs) =
     (if Ascii_ToUpper p \<noteq> Ascii_ToUpper q then False else ignore_case_equal_loop ps qs)"
| "ignore_case_equal_loop _ _ = True"

definition StringPiece_ignore_case_equal :: "string \<Rightarrow> string \<Rightarrow> bool" where
  "StringPiece_ignore_case_equal this other =
     (if length this \<noteq> length other then False else ignore_case_equal_loop this other)"

definition StringPiece_starts_with :: "string \<Rightarrow> string \<Rightarrow> bool result" where
  "StringPiece_starts_with this x =
     (if length this \<ge> length x then MemoryEqual this x (length x) else Inr False)"

definition StringPiece_ends_with :: "string \<Rightarrow> string \<Rightarrow> bool result" where
  "StringPiece_ends_with this x =
     (if length this \<ge> length x then MemoryEqual (drop (length this - length x) this) x (length x)
      else Inr False)"

section \<open>Parts\<close>

definition StringPiece_remove_prefix :: "int \<Rightarrow> string \<Rightarrow> string result" where
  "StringPiece_remove_prefix n this =
     (if int (length this) \<ge> n then (if n < 0 then Inl Out_of_bounds else Inr (drop (nat n) this))
      else Inl Assertion_failed)"

definition StringPiece_remove_suffix :: "int \<Rightarrow> string \<Rightarrow> string result" where
  "StringPiece_remove_suffix n this =
     (if int (length this) \<ge> n
      then (if n < 0 then Inl Out_of_bounds else Inr (take (length this - nat n) this))
      else Inl Assertion_failed)"

text \<open>\<^verbatim>\<open>copy\<close> does not test \<^verbatim>\<open>pos\<close>: the subtraction \<^verbatim>\<open>m_length - pos\<close> is modulo \<open>2 ^ 64\<close>.\<close>

definition StringPiece_copy :: "string \<Rightarrow> nat \<Rightarrow> nat \<Rightarrow> string result" where
  "StringPiece_copy this n pos =
     (let ret = min (nat ((int (length this) - int pos) mod 2 ^ 64)) n
      in if pos + ret \<le> length this then Inr (slice this pos ret) else Inl Out_of_bounds)"

definition StringPiece_substr :: "string \<Rightarrow> nat \<Rightarrow> nat \<Rightarrow> string" where
  "StringPiece_substr this pos n =
     (let pos = (if pos > length this then length this else pos);
          n = (if n > length this - pos then length this - pos else n)
      in slice this pos n)"

definition StringPiece_append_to_string :: "string \<Rightarrow> string \<Rightarrow> string" where
  "StringPiece_append_to_string this target = (if this \<noteq> [] then target @ this else target)"

section \<open>Searching forward\<close>

text \<open>
  \<^verbatim>\<open>std::search\<close> over the bytes from \<open>pos\<close>: the first position of an occurrence, or the end; and
  \<^verbatim>\<open>memchr\<close>.
\<close>

function search_from :: "string \<Rightarrow> string \<Rightarrow> nat \<Rightarrow> nat" where
  "search_from s t i =
     (if i + length t > length s then length s
      else if slice s i (length t) = t then i else search_from s t (i + 1))"
  by pat_completeness auto

termination
  by (relation "measure (\<lambda>(s, t, i). Suc (length s) - i)") auto

declare search_from.simps [simp del]

definition StringPiece_find :: "string \<Rightarrow> string \<Rightarrow> nat \<Rightarrow> nat option" where
  "StringPiece_find this s pos =
     (if pos > length this then None
      else (let xpos = search_from this s pos
            in if xpos + length s \<le> length this then Some xpos else None))"

definition StringPiece_find_char :: "string \<Rightarrow> char \<Rightarrow> nat \<Rightarrow> nat option" where
  "StringPiece_find_char this c pos =
     (if pos \<ge> length this then None
      else (case find_char c (drop pos this) of Some k \<Rightarrow> Some (pos + k) | None \<Rightarrow> None))"

text \<open>The table of 256 flags and the loops that read it.\<close>

fun BuildLookupTable :: "string \<Rightarrow> bool list \<Rightarrow> bool list" where
  "BuildLookupTable [] table = table"
| "BuildLookupTable (c # cs) table = BuildLookupTable cs (table[code c := True])"

definition lookup_table :: "string \<Rightarrow> bool list" where
  "lookup_table s = BuildLookupTable s (replicate 256 False)"

function scan_up :: "(char \<Rightarrow> bool) \<Rightarrow> string \<Rightarrow> nat \<Rightarrow> nat option" where
  "scan_up P s i = (if i < length s then (if P (s ! i) then Some i else scan_up P s (i + 1)) else None)"
  by pat_completeness auto

termination
  by (relation "measure (\<lambda>(P, s, i). length s - i)") auto

declare scan_up.simps [simp del]

definition StringPiece_find_first_of :: "string \<Rightarrow> string \<Rightarrow> nat \<Rightarrow> nat option" where
  "StringPiece_find_first_of this s pos =
     (if length this = 0 \<or> length s = 0 then None
      else if length s = 1 then StringPiece_find_char this (s ! 0) pos
      else scan_up (\<lambda>c. lookup_table s ! code c) this pos)"

definition StringPiece_find_first_not_of_char :: "string \<Rightarrow> char \<Rightarrow> nat \<Rightarrow> nat option" where
  "StringPiece_find_first_not_of_char this c pos =
     (if length this = 0 then None else scan_up (\<lambda>d. d \<noteq> c) this pos)"

definition StringPiece_find_first_not_of :: "string \<Rightarrow> string \<Rightarrow> nat \<Rightarrow> nat option" where
  "StringPiece_find_first_not_of this s pos =
     (if length this = 0 then None
      else if length s = 0 then Some 0
      else if length s = 1 then StringPiece_find_first_not_of_char this (s ! 0) pos
      else scan_up (\<lambda>c. \<not> lookup_table s ! code c) this pos)"

section \<open>Searching backward\<close>

text \<open>The loops \<^verbatim>\<open>for (i = ...; ; --i) { if (...) return i; if (i == 0) break; }\<close>.\<close>

fun scan_down :: "(char \<Rightarrow> bool) \<Rightarrow> string \<Rightarrow> nat \<Rightarrow> nat option" where
  "scan_down P s 0 = (if P (s ! 0) then Some 0 else None)"
| "scan_down P s (Suc i) = (if P (s ! Suc i) then Some (Suc i) else scan_down P s i)"

definition StringPiece_rfind_char :: "string \<Rightarrow> char \<Rightarrow> nat \<Rightarrow> nat option" where
  "StringPiece_rfind_char this c pos =
     (if length this = 0 then None else scan_down (\<lambda>d. d = c) this (min pos (length this - 1)))"

definition StringPiece_find_last_of :: "string \<Rightarrow> string \<Rightarrow> nat \<Rightarrow> nat option" where
  "StringPiece_find_last_of this s pos =
     (if length this = 0 \<or> length s = 0 then None
      else if length s = 1 then StringPiece_rfind_char this (s ! 0) pos
      else scan_down (\<lambda>c. lookup_table s ! code c) this (min pos (length this - 1)))"

definition StringPiece_find_last_not_of_char :: "string \<Rightarrow> char \<Rightarrow> nat \<Rightarrow> nat option" where
  "StringPiece_find_last_not_of_char this c pos =
     (if length this = 0 then None else scan_down (\<lambda>d. d \<noteq> c) this (min pos (length this - 1)))"

definition StringPiece_find_last_not_of :: "string \<Rightarrow> string \<Rightarrow> nat \<Rightarrow> nat option" where
  "StringPiece_find_last_not_of this s pos =
     (if length this = 0 then None
      else (let i = min pos (length this - 1)
            in if length s = 0 then Some i
               else if length s = 1 then StringPiece_find_last_not_of_char this (s ! 0) pos
               else scan_down (\<lambda>c. \<not> lookup_table s ! code c) this i))"

text \<open>\<^verbatim>\<open>std::find_end\<close> on the first \<open>last\<close> bytes: the last position of an occurrence, or the end.\<close>

fun find_end_from :: "string \<Rightarrow> string \<Rightarrow> nat \<Rightarrow> nat option" where
  "find_end_from s t 0 = (if slice s 0 (length t) = t then Some 0 else None)"
| "find_end_from s t (Suc i) = (if slice s (Suc i) (length t) = t then Some (Suc i) else find_end_from s t i)"

definition StringPiece_rfind :: "string \<Rightarrow> string \<Rightarrow> nat \<Rightarrow> nat option" where
  "StringPiece_rfind this s pos =
     (if length this < length s then None
      else if s = [] then Some (min (length this) pos)
      else find_end_from this s (min (length this - length s) pos))"

section \<open>The search contracts\<close>

text \<open>
  A forward search returns the first position from \<open>pos\<close> on whose byte passes the test, a backward
  search the last one up to \<open>pos\<close>.
\<close>

locale forward_search =
  fixes f :: "string \<Rightarrow> nat \<Rightarrow> nat option" and P :: "char \<Rightarrow> bool"
  assumes sound: "f s pos = Some i \<Longrightarrow> pos \<le> i \<and> i < length s \<and> P (s ! i) \<and> (\<forall>j. pos \<le> j \<longrightarrow> j < i \<longrightarrow> \<not> P (s ! j))"
    and complete: "f s pos = None \<Longrightarrow> pos \<le> j \<Longrightarrow> j < length s \<Longrightarrow> \<not> P (s ! j)"
begin

lemma Some_iff:
  "f s pos = Some i \<longleftrightarrow> pos \<le> i \<and> i < length s \<and> P (s ! i) \<and> (\<forall>j. pos \<le> j \<and> j < i \<longrightarrow> \<not> P (s ! j))"
proof (cases "f s pos")
  case None
  then show ?thesis
    using complete [OF None] by auto
next
  case (Some k)
  then show ?thesis
    using sound [OF Some] by (auto intro: linorder_cases [of i k])
qed

lemma None_iff: "f s pos = None \<longleftrightarrow> (\<forall>j. pos \<le> j \<and> j < length s \<longrightarrow> \<not> P (s ! j))"
  using complete sound by (metis not_None_eq)

end

locale backward_search =
  fixes f :: "string \<Rightarrow> nat \<Rightarrow> nat option" and P :: "char \<Rightarrow> bool"
  assumes sound: "f s pos = Some i \<Longrightarrow> i \<le> pos \<and> i < length s \<and> P (s ! i) \<and>
      (\<forall>j. i < j \<longrightarrow> j \<le> pos \<longrightarrow> j < length s \<longrightarrow> \<not> P (s ! j))"
    and complete: "f s pos = None \<Longrightarrow> j \<le> pos \<Longrightarrow> j < length s \<Longrightarrow> \<not> P (s ! j)"
begin

lemma Some_iff:
  "f s pos = Some i \<longleftrightarrow> i \<le> pos \<and> i < length s \<and> P (s ! i) \<and>
     (\<forall>j. i < j \<and> j \<le> pos \<and> j < length s \<longrightarrow> \<not> P (s ! j))"
proof (cases "f s pos")
  case None
  then show ?thesis
    using complete [OF None] by auto
next
  case (Some k)
  then show ?thesis
    using sound [OF Some] by (auto intro: linorder_cases [of i k])
qed

lemma None_iff: "f s pos = None \<longleftrightarrow> (\<forall>j. j \<le> pos \<and> j < length s \<longrightarrow> \<not> P (s ! j))"
  using complete sound by (metis not_None_eq)

end

subsection \<open>The loops\<close>

lemma all_from_iff: "(\<forall>j. pos \<le> j \<longrightarrow> Q j) \<longleftrightarrow> Q pos \<and> (\<forall>j. Suc pos \<le> j \<longrightarrow> Q j)"
  by (metis Suc_leD Suc_leI le_eq_less_or_eq)

lemma scan_up_laws:
  "(scan_up P s pos = Some i \<longrightarrow> pos \<le> i \<and> i < length s \<and> P (s ! i) \<and> (\<forall>j. pos \<le> j \<longrightarrow> j < i \<longrightarrow> \<not> P (s ! j))) \<and>
   (scan_up P s pos = None \<longrightarrow> (\<forall>j. pos \<le> j \<longrightarrow> j < length s \<longrightarrow> \<not> P (s ! j)))"
proof (induction P s pos rule: scan_up.induct)
  case (1 P s pos)
  consider "length s \<le> pos" | "pos < length s" "P (s ! pos)" | "pos < length s" "\<not> P (s ! pos)"
    by linarith
  then show ?case
  proof cases
    case 3
    then have "scan_up P s pos = scan_up P s (Suc pos)"
      using scan_up.simps [of P s pos] by simp
    then show ?thesis
      using 1 3 by (auto simp: all_from_iff [of pos])
  next
    case 1
    then have "scan_up P s pos = None"
      using scan_up.simps [of P s pos] by simp
    then show ?thesis
      using 1 by auto
  next
    case 2
    then have "scan_up P s pos = Some pos"
      using scan_up.simps [of P s pos] by simp
    then show ?thesis
      using 2 by auto
  qed
qed

interpretation scan_up: forward_search "scan_up P" P for P
proof
  fix s pos i j
  show "pos \<le> i \<and> i < length s \<and> P (s ! i) \<and> (\<forall>j. pos \<le> j \<longrightarrow> j < i \<longrightarrow> \<not> P (s ! j))"
    if "scan_up P s pos = Some i"
    using scan_up_laws [of P s pos i] that by simp
  show "\<not> P (s ! j)" if "scan_up P s pos = None" "pos \<le> j" "j < length s"
    using scan_up_laws [of P s pos j] that by simp
qed

lemma scan_down_laws:
  assumes "pos < length s"
  shows "(scan_down P s pos = Some i \<longrightarrow> i \<le> pos \<and> P (s ! i) \<and> (\<forall>j. i < j \<longrightarrow> j \<le> pos \<longrightarrow> \<not> P (s ! j))) \<and>
   (scan_down P s pos = None \<longrightarrow> (\<forall>j. j \<le> pos \<longrightarrow> \<not> P (s ! j)))"
  using assms
proof (induction pos)
  case (Suc pos)
  then show ?case
    by (cases "P (s ! Suc pos)") (auto simp: le_Suc_eq)
qed simp

text \<open>A backward search as the members run it.\<close>

definition scan_back :: "(char \<Rightarrow> bool) \<Rightarrow> string \<Rightarrow> nat \<Rightarrow> nat option" where
  "scan_back P s pos = (if length s = 0 then None else scan_down P s (min pos (length s - 1)))"

interpretation scan_back: backward_search "scan_back P" P for P
proof
  fix s :: string and pos i j
  have m: "min pos (length s - 1) < length s" if "length s \<noteq> 0"
    using that by (cases s) auto
  have le: "k \<le> length s - Suc 0 \<longleftrightarrow> k < length s" if "s \<noteq> []" for k
    using that by (cases s) auto
  show "i \<le> pos \<and> i < length s \<and> P (s ! i) \<and> (\<forall>j. i < j \<longrightarrow> j \<le> pos \<longrightarrow> j < length s \<longrightarrow> \<not> P (s ! j))"
    if "scan_back P s pos = Some i"
    using that scan_down_laws [OF m, of P i] by (auto simp: scan_back_def le split: if_splits)
  show "\<not> P (s ! j)" if "scan_back P s pos = None" "j \<le> pos" "j < length s"
    using that scan_down_laws [OF m, of P j] by (auto simp: scan_back_def le split: if_splits)
qed

subsection \<open>The lookup table\<close>

lemma BuildLookupTable_nth:
  "length table = 256 \<Longrightarrow> BuildLookupTable s table ! code c \<longleftrightarrow> c \<in> set s \<or> table ! code c"
proof (induction s table rule: BuildLookupTable.induct)
  case (2 d ds table)
  then show ?case
    by (cases "c = d") (auto simp: nth_list_update)
qed simp

lemma lookup_table_nth [simp]: "lookup_table s ! code c \<longleftrightarrow> c \<in> set s"
  by (simp add: lookup_table_def BuildLookupTable_nth)

section \<open>The members keep the contracts\<close>

lemma find_char_drop:
  "(case find_char c (drop pos s) of Some k \<Rightarrow> Some (pos + k) | None \<Rightarrow> None) = scan_up (\<lambda>d. d = c) s pos"
proof (cases "find_char c (drop pos s)")
  case None
  have "scan_up (\<lambda>d. d = c) s pos = None"
    unfolding scan_up.None_iff
  proof (intro allI impI notI)
    fix j
    assume "pos \<le> j \<and> j < length s" "s ! j = c"
    then have "c \<in> set (drop pos s)"
      using nth_mem [of "j - pos" "drop pos s"] by (simp add: diff_less_mono)
    with None show False
      by simp
  qed
  with None show ?thesis
    by (simp del: find_char_None_iff)
next
  case (Some k)
  then have k: "pos + k < length s" "s ! (pos + k) = c" "c \<notin> set (take k (drop pos s))"
    by (auto simp: find_char_Some_iff)
  have "s ! j \<noteq> c" if "pos \<le> j" "j < pos + k" for j
  proof -
    have "take k (drop pos s) ! (j - pos) = s ! j" "j - pos < length (take k (drop pos s))"
      using that k(1) by simp_all
    then show ?thesis
      using k(3) by (metis nth_mem)
  qed
  then have "scan_up (\<lambda>d. d = c) s pos = Some (pos + k)"
    using k by (simp add: scan_up.Some_iff)
  with Some show ?thesis
    by simp
qed

lemma scan_up_past_end: "length s \<le> pos \<Longrightarrow> scan_up P s pos = None"
  by (simp add: scan_up.simps)

lemma StringPiece_find_char_eq: "StringPiece_find_char s c pos = scan_up (\<lambda>d. d = c) s pos"
  by (simp add: StringPiece_find_char_def find_char_drop scan_up_past_end)

lemma single_char: "length t = Suc 0 \<Longrightarrow> c \<in> set t \<longleftrightarrow> c = t ! 0"
  by (cases t) auto

lemma StringPiece_find_first_of_eq:
  "StringPiece_find_first_of s t pos = scan_up (\<lambda>c. c \<in> set t) s pos"
proof (cases "s = [] \<or> t = []")
  case True
  then have "scan_up (\<lambda>c. c \<in> set t) s pos = None"
    by (auto simp: scan_up.None_iff)
  with True show ?thesis
    by (simp add: StringPiece_find_first_of_def)
qed (auto simp: StringPiece_find_first_of_def StringPiece_find_char_eq single_char)

lemma StringPiece_find_first_not_of_char_eq:
  "StringPiece_find_first_not_of_char s c pos = scan_up (\<lambda>d. d \<noteq> c) s pos"
  by (auto simp: StringPiece_find_first_not_of_char_def scan_up_past_end)

lemma StringPiece_find_first_not_of_eq:
  "t \<noteq> [] \<Longrightarrow> StringPiece_find_first_not_of s t pos = scan_up (\<lambda>c. c \<notin> set t) s pos"
  by (auto simp: StringPiece_find_first_not_of_def StringPiece_find_first_not_of_char_eq single_char
      scan_up_past_end)

lemma StringPiece_rfind_char_eq: "StringPiece_rfind_char s c pos = scan_back (\<lambda>d. d = c) s pos"
  by (simp add: StringPiece_rfind_char_def scan_back_def)

lemma StringPiece_find_last_of_eq:
  "StringPiece_find_last_of s t pos = scan_back (\<lambda>c. c \<in> set t) s pos"
proof (cases "t = []")
  case True
  then have "scan_back (\<lambda>c. c \<in> set t) s pos = None"
    by (auto simp: scan_back.None_iff)
  with True show ?thesis
    by (simp add: StringPiece_find_last_of_def)
qed (auto simp: StringPiece_find_last_of_def StringPiece_rfind_char_eq single_char scan_back_def)

lemma StringPiece_find_last_not_of_char_eq:
  "StringPiece_find_last_not_of_char s c pos = scan_back (\<lambda>d. d \<noteq> c) s pos"
  by (simp add: StringPiece_find_last_not_of_char_def scan_back_def)

lemma scan_down_True: "scan_down (\<lambda>c. True) s i = Some i"
  by (cases i) simp_all

lemma StringPiece_find_last_not_of_eq:
  "StringPiece_find_last_not_of s t pos = scan_back (\<lambda>c. c \<notin> set t) s pos"
  by (cases "t = []")
    (auto simp: StringPiece_find_last_not_of_def StringPiece_find_last_not_of_char_eq single_char
      scan_back_def Let_def scan_down_True)

interpretation find_char: forward_search "\<lambda>s. StringPiece_find_char s c" "\<lambda>d. d = c" for c
  unfolding StringPiece_find_char_eq by (rule scan_up.forward_search_axioms)

interpretation find_first_of: forward_search "\<lambda>s. StringPiece_find_first_of s t" "\<lambda>c. c \<in> set t" for t
  unfolding StringPiece_find_first_of_eq by (rule scan_up.forward_search_axioms)

interpretation rfind_char: backward_search "\<lambda>s. StringPiece_rfind_char s c" "\<lambda>d. d = c" for c
  unfolding StringPiece_rfind_char_eq by (rule scan_back.backward_search_axioms)

interpretation find_last_of: backward_search "\<lambda>s. StringPiece_find_last_of s t" "\<lambda>c. c \<in> set t" for t
  unfolding StringPiece_find_last_of_eq by (rule scan_back.backward_search_axioms)

interpretation find_last_not_of: backward_search "\<lambda>s. StringPiece_find_last_not_of s t" "\<lambda>c. c \<notin> set t" for t
  unfolding StringPiece_find_last_not_of_eq by (rule scan_back.backward_search_axioms)

text \<open>
  C21: each forward search returns the first position from \<open>pos\<close> on whose byte it looks for, and each
  backward search the last one up to \<open>pos\<close>; the special cases for one wanted byte and for empty
  strings and the table of flags make no difference.
\<close>

theorem StringPiece_searches_correct:
  "(StringPiece_find_first_of s t pos = Some i \<longleftrightarrow>
      pos \<le> i \<and> i < length s \<and> s ! i \<in> set t \<and> (\<forall>j. pos \<le> j \<and> j < i \<longrightarrow> s ! j \<notin> set t)) \<and>
   (StringPiece_find_first_of s t pos = None \<longleftrightarrow> (\<forall>j. pos \<le> j \<and> j < length s \<longrightarrow> s ! j \<notin> set t)) \<and>
   (StringPiece_find_last_of s t pos = Some i \<longleftrightarrow>
      i \<le> pos \<and> i < length s \<and> s ! i \<in> set t \<and> (\<forall>j. i < j \<and> j \<le> pos \<and> j < length s \<longrightarrow> s ! j \<notin> set t)) \<and>
   (StringPiece_find_last_of s t pos = None \<longleftrightarrow> (\<forall>j. j \<le> pos \<and> j < length s \<longrightarrow> s ! j \<notin> set t)) \<and>
   (StringPiece_find_last_not_of s t pos = Some i \<longleftrightarrow>
      i \<le> pos \<and> i < length s \<and> s ! i \<notin> set t \<and> (\<forall>j. i < j \<and> j \<le> pos \<and> j < length s \<longrightarrow> s ! j \<in> set t))"
  using find_last_not_of.Some_iff [of s t pos i]
  by (simp add: find_first_of.Some_iff find_first_of.None_iff find_last_of.Some_iff find_last_of.None_iff)


theorem StringPiece_searches_correct_witness:
  "StringPiece_find_first_of ''a,b;c'' '',;'' 2 = Some 3 \<and> StringPiece_find_last_not_of ''a,b;c'' '',;'' 3 = Some 2"
proof -
  have a: "\<And>j. 2 \<le> j \<and> j < 3 \<Longrightarrow> j = (2::nat)" "\<And>j. 2 < j \<and> j \<le> 3 \<Longrightarrow> j = (3::nat)"
    by linarith+
  show ?thesis
    using StringPiece_searches_correct [of "''a,b;c''" "'',;''" 2 3]
      StringPiece_searches_correct [of "''a,b;c''" "'',;''" 3 2] a
    by (auto simp: numeral_eq_Suc)
qed

section \<open>Substrings\<close>

lemma occurs_atD: "occurs_at s t i \<Longrightarrow> i + length t \<le> length s"
  by (simp add: occurs_at_def)

lemma search_from_laws:
  "(i \<le> length s \<longrightarrow> search_from s t i + length t \<le> length s \<longrightarrow>
      i \<le> search_from s t i \<and> occurs_at s t (search_from s t i) \<and> (\<forall>j. i \<le> j \<longrightarrow> j < search_from s t i \<longrightarrow> \<not> occurs_at s t j)) \<and>
   (i \<le> length s \<longrightarrow> \<not> search_from s t i + length t \<le> length s \<longrightarrow> (\<forall>j. i \<le> j \<longrightarrow> \<not> occurs_at s t j))"
proof (induction s t i rule: search_from.induct)
  case (1 s t i)
  consider "i + length t > length s" | "i + length t \<le> length s" "slice s i (length t) = t"
    | "i + length t \<le> length s" "slice s i (length t) \<noteq> t"
    by linarith
  then show ?case
  proof cases
    case c: 1
    then have "search_from s t i = length s" "\<forall>j. i \<le> j \<longrightarrow> \<not> occurs_at s t j"
      using search_from.simps [of s t i] by (auto simp: occurs_at_def)
    then show ?thesis
      using c by auto
  next
    case 2
    then have "search_from s t i = i"
      using search_from.simps [of s t i] by simp
    then show ?thesis
      using 2 by (auto simp: occurs_at_def)
  next
    case 3
    then have eq: "search_from s t i = search_from s t (Suc i)" and n: "\<not> occurs_at s t i"
      using search_from.simps [of s t i] by (auto simp: occurs_at_def)
    have lt: "Suc i \<le> length s"
      using 3 by (cases t) (auto simp: slice_def)
    show ?thesis
      using 1 3 n lt unfolding eq by (auto simp: all_from_iff [of i])
  qed
qed

text \<open>
  C22: \<^verbatim>\<open>find\<close> of a string returns the first position from \<open>pos\<close> on at which it occurs, and \<^verbatim>\<open>npos\<close>
  exactly when there is none.
\<close>

theorem StringPiece_find_correct:
  "(StringPiece_find s t pos = Some i \<longleftrightarrow> pos \<le> i \<and> occurs_at s t i \<and> (\<forall>j. pos \<le> j \<and> j < i \<longrightarrow> \<not> occurs_at s t j)) \<and>
   (StringPiece_find s t pos = None \<longleftrightarrow> (\<forall>j. pos \<le> j \<longrightarrow> \<not> occurs_at s t j))"
proof (cases "pos \<le> length s")
  case True
  note laws = search_from_laws [of pos s t]
  show ?thesis
  proof (cases "search_from s t pos + length t \<le> length s")
    case c: True
    then have f: "StringPiece_find s t pos = Some (search_from s t pos)"
      using True by (simp add: StringPiece_find_def Let_def)
    from laws True c show ?thesis
      unfolding f by (auto intro: linorder_cases [of i "search_from s t pos"])
  next
    case c: False
    then have f: "StringPiece_find s t pos = None"
      using True by (simp add: StringPiece_find_def Let_def)
    from laws True c show ?thesis
      unfolding f by auto
  qed
next
  case False
  then show ?thesis
    by (auto simp: StringPiece_find_def occurs_at_def)
qed

theorem StringPiece_find_correct_witness:
  "StringPiece_find ''abcabc'' ''bc'' 2 = Some 4"
proof -
  have "\<not> occurs_at ''abcabc'' ''bc'' j" if "2 \<le> j \<and> j < 4" for j
  proof -
    have "j = 2 \<or> j = 3"
      using that by linarith
    then show ?thesis
      by (auto simp: occurs_at_def slice_def)
  qed
  moreover have "occurs_at ''abcabc'' ''bc'' 4"
    by (simp add: occurs_at_def slice_def)
  ultimately show ?thesis
    using StringPiece_find_correct [of "''abcabc''" "''bc''" 2 4] by simp
qed

lemma find_end_from_laws:
  "(find_end_from s t p = Some i \<longrightarrow> i \<le> p \<and> slice s i (length t) = t \<and> (\<forall>j. i < j \<longrightarrow> j \<le> p \<longrightarrow> slice s j (length t) \<noteq> t)) \<and>
   (find_end_from s t p = None \<longrightarrow> (\<forall>j. j \<le> p \<longrightarrow> slice s j (length t) \<noteq> t))"
proof (induction p)
  case (Suc p)
  then show ?case
    by (cases "slice s (Suc p) (length t) = t") (auto simp: le_Suc_eq)
qed simp

text \<open>
  \<^verbatim>\<open>rfind\<close> of a nonempty string returns the last position up to \<open>pos\<close> at which it occurs, and
  \<^verbatim>\<open>npos\<close> exactly when there is none.
\<close>

theorem StringPiece_rfind_correct:
  assumes "t \<noteq> []"
  shows "(StringPiece_rfind s t pos = Some i \<longleftrightarrow>
      i \<le> pos \<and> occurs_at s t i \<and> (\<forall>j. i < j \<and> j \<le> pos \<longrightarrow> \<not> occurs_at s t j)) \<and>
    (StringPiece_rfind s t pos = None \<longleftrightarrow> (\<forall>j. j \<le> pos \<longrightarrow> \<not> occurs_at s t j))"
proof (cases "length s < length t")
  case True
  then show ?thesis
    by (auto simp: StringPiece_rfind_def occurs_at_def)
next
  case False
  define p where "p = min (length s - length t) pos"
  have occ: "occurs_at s t j \<and> j \<le> pos \<longleftrightarrow> j \<le> p \<and> slice s j (length t) = t" for j
    using False by (auto simp: occurs_at_def p_def)
  have f: "StringPiece_rfind s t pos = find_end_from s t p"
    using False assms by (simp add: StringPiece_rfind_def p_def)
  show ?thesis
  proof (cases "find_end_from s t p")
    case None
    then have "\<not> occurs_at s t j" if "j \<le> pos" for j
      using find_end_from_laws [of s t p] occ [of j] that by blast
    then show ?thesis
      using f None by auto
  next
    case (Some k)
    then have k: "k \<le> p" "slice s k (length t) = t" "\<And>j. k < j \<Longrightarrow> j \<le> p \<Longrightarrow> slice s j (length t) \<noteq> t"
      using find_end_from_laws [of s t p k] by auto
    then have "k \<le> pos \<and> occurs_at s t k" "\<And>j. k < j \<Longrightarrow> j \<le> pos \<Longrightarrow> \<not> occurs_at s t j"
      using occ by blast+
    then show ?thesis
      unfolding f Some by (auto intro: linorder_cases [of i k])
  qed
qed

theorem StringPiece_rfind_correct_witness: "StringPiece_rfind ''abcabc'' ''bc'' 3 = Some 1"
proof -
  have "\<not> occurs_at ''abcabc'' ''bc'' j" if "1 < j \<and> j \<le> 3" for j
  proof -
    have "j = 2 \<or> j = 3"
      using that by linarith
    then show ?thesis
      by (auto simp: occurs_at_def slice_def)
  qed
  moreover have "occurs_at ''abcabc'' ''bc'' 1"
    by (simp add: occurs_at_def slice_def)
  ultimately show ?thesis
    using StringPiece_rfind_correct [of "''bc''" "''abcabc''" 3 1] by simp
qed

text \<open>
  asked for the first byte outside an empty set, \<^verbatim>\<open>find_first_not_of\<close> answers 0 whatever position
  the search was to start from; for every nonempty set it keeps the contract of a forward search.
\<close>

theorem StringPiece_find_first_not_of_empty:
  "(s \<noteq> [] \<longrightarrow> StringPiece_find_first_not_of s [] pos = Some 0) \<and>
   (t \<noteq> [] \<longrightarrow> (StringPiece_find_first_not_of s t pos = Some i \<longleftrightarrow>
      pos \<le> i \<and> i < length s \<and> s ! i \<notin> set t \<and> (\<forall>j. pos \<le> j \<and> j < i \<longrightarrow> s ! j \<in> set t)))"
  by (auto simp: StringPiece_find_first_not_of_eq scan_up.Some_iff) (simp add: StringPiece_find_first_not_of_def)

theorem StringPiece_find_first_not_of_empty_witness: "StringPiece_find_first_not_of ''abc'' [] 2 = Some 0"
  using StringPiece_find_first_not_of_empty [of "''abc''" 2 "''x''" 0] by simp

section \<open>Comparisons\<close>

lemma StringPiece_eq_iff: "StringPiece_eq x y = Inr (x = y)"
  by (auto simp: StringPiece_eq_def MemoryEqual_def memeql_inside)

lemma memcasecmp_loop_inside:
  "i + k \<le> length a \<Longrightarrow> i + k \<le> length b \<Longrightarrow>
   \<exists>d. memcasecmp_loop k a b i = Inr d \<and>
     (d = 0 \<longleftrightarrow> map c_tolower (slice a i k) = map c_tolower (slice b i k))"
proof (induction k arbitrary: i)
  case (Suc k)
  have s: "slice c i (Suc k) = c ! i # slice c (Suc i) k" if "i + Suc k \<le> length c" for c :: string
    using that by (simp add: slice_def drop_split1)
  show ?case
  proof (cases "c_tolower (a ! i) = c_tolower (b ! i)")
    case True
    then show ?thesis
      using Suc.IH [of "Suc i"] Suc.prems s by (simp add: checked_nth_def)
  next
    case False
    then show ?thesis
      using Suc.prems s by (simp add: checked_nth_def)
  qed
qed simp

lemma tolower_eq_iff: "c_tolower c = c_tolower d \<longleftrightarrow> Ascii_ToUpper c = Ascii_ToUpper d"
proof -
  have u: "Ascii_ToUpper (c_tolower e) = Ascii_ToUpper e" for e
    by (rule code_eqI) (simp add: code_ToUpper code_ToLower c_islower_def c_isupper_def flip: Ascii_ToLower_eq)
  have l: "c_tolower (Ascii_ToUpper e) = c_tolower e" for e
    unfolding Ascii_ToLower_eq [symmetric]
    by (rule code_eqI) (auto simp: code_ToUpper code_ToLower c_islower_def c_isupper_def)
  show ?thesis
    using u l by metis
qed

lemma ignore_case_equal_loop_iff:
  "length a = length b \<Longrightarrow> ignore_case_equal_loop a b \<longleftrightarrow> map c_tolower a = map c_tolower b"
  by (induction a b rule: list_induct2) (auto simp: tolower_eq_iff)

text \<open>
  the two case-insensitive comparisons agree, although one folds to lower and the other to upper
  case: the order is zero exactly when the equality test succeeds.
\<close>

theorem StringPiece_ignore_case_consistent:
  "\<exists>d. StringPiece_ignore_case_compare a b = Inr d \<and> (d = 0 \<longleftrightarrow> StringPiece_ignore_case_equal a b) \<and>
     (StringPiece_ignore_case_equal a b \<longleftrightarrow> map c_tolower a = map c_tolower b)"
proof -
  define m where "m = (if length a < length b then length a else length b)"
  have m: "0 + m \<le> length a" "0 + m \<le> length b"
    by (auto simp: m_def)
  obtain d where d: "memcasecmp a b m = Inr d"
    "d = 0 \<longleftrightarrow> map c_tolower (take m a) = map c_tolower (take m b)"
    using memcasecmp_loop_inside [OF m] by (auto simp: memcasecmp_def)
  have eq: "StringPiece_ignore_case_equal a b \<longleftrightarrow> map c_tolower a = map c_tolower b"
    using ignore_case_equal_loop_iff [of a b] by (auto simp: StringPiece_ignore_case_equal_def dest: map_eq_imp_length_eq)
  have cmp: "StringPiece_ignore_case_compare a b =
      (if d \<noteq> 0 then Inr d else if length a < length b then Inr (- 1)
       else if length a > length b then Inr 1 else Inr 0)"
    unfolding StringPiece_ignore_case_compare_def m_def [symmetric] d(1) by simp
  show ?thesis
  proof (cases "length a = length b")
    case True
    then have "take m a = a" "take m b = b"
      by (simp_all add: m_def)
    then show ?thesis
      using d(2) eq True by (simp add: cmp)
  next
    case False
    then have "map c_tolower a \<noteq> map c_tolower b"
      by (metis length_map)
    then show ?thesis
      using d(2) eq False by (auto simp: cmp)
  qed
qed

lemma StringPiece_starts_with_eq: "StringPiece_starts_with s x = Inr (\<exists>r. s = x @ r)"
proof -
  have "length x \<le> length s \<and> take (length x) s = x \<longleftrightarrow> (\<exists>r. s = x @ r)"
    by (metis append_eq_conv_conj append_take_drop_id le_add1 length_append)
  then show ?thesis
    by (auto simp: StringPiece_starts_with_def MemoryEqual_def memeql_inside)
qed

lemma StringPiece_ends_with_eq: "StringPiece_ends_with s x = Inr (\<exists>r. s = r @ x)"
proof -
  have "length x \<le> length s \<and> drop (length s - length x) s = x \<longleftrightarrow> (\<exists>r. s = r @ x)"
    by (metis append_eq_append_conv append_take_drop_id diff_diff_cancel le_add2 length_append length_drop)
  then show ?thesis
    by (auto simp: StringPiece_ends_with_def MemoryEqual_def memeql_inside)
qed

text \<open>\<^verbatim>\<open>starts_with\<close> and \<^verbatim>\<open>ends_with\<close> decide whether one piece is a prefix or a suffix of another.\<close>

theorem StringPiece_affixes_correct:
  "StringPiece_starts_with s x = Inr (\<exists>r. s = x @ r) \<and> StringPiece_ends_with s x = Inr (\<exists>r. s = r @ x)"
  by (simp add: StringPiece_starts_with_eq StringPiece_ends_with_eq)

end
