(* ===== verification/String_Split.thy ===== *)
theory String_Split
  imports String_Piece
begin

text \<open>
  Joining and splitting strings, from \<^verbatim>\<open>common/base/string/algorithm.h\<close> and \<^verbatim>\<open>algorithm.cpp\<close>. The
  splitters that keep empty fields are shown to be undone by \<^verbatim>\<open>JoinStrings\<close>; the ones that drop them are
  shown to return the maximal runs of bytes between the delimiters, whatever optimised path they take.
\<close>

section \<open>Joining\<close>

definition JoinStrings_into :: "string list \<Rightarrow> string \<Rightarrow> string \<Rightarrow> string" where
  "JoinStrings_into components delim result =
     (case components of
        [] \<Rightarrow> result
      | c # cs \<Rightarrow> foldl (\<lambda>res d. res @ delim @ d) c cs)"

definition JoinStrings :: "string list \<Rightarrow> string \<Rightarrow> string" where
  "JoinStrings components delim = JoinStrings_into components delim []"

section \<open>Splitting at bytes, empty fields dropped\<close>

text \<open>The path for a single delimiter byte: \<open>p\<close> is the text from the scanning pointer to the end.\<close>

function split_char_loop :: "char \<Rightarrow> string \<Rightarrow> string list" where
  "split_char_loop c [] = []"
| "split_char_loop c (x # p) =
     (if x = c then split_char_loop c p
      else (x # takeWhile (\<lambda>d. d \<noteq> c) p) # split_char_loop c (dropWhile (\<lambda>d. d \<noteq> c) p))"
  by pat_completeness auto

termination
  by (relation "measure (\<lambda>(c, p). length p)") (auto simp: le_imp_less_Suc length_dropWhile_le)

text \<open>The general path, with the searches of \<^verbatim>\<open>StringPiece\<close>.\<close>

function split_set_loop :: "string \<Rightarrow> string \<Rightarrow> nat option \<Rightarrow> string list" where
  "split_set_loop full delim None = []"
| "split_set_loop full delim (Some begin_index) =
     (case StringPiece_find_first_of full delim begin_index of
        None \<Rightarrow> [StringPiece_substr full begin_index (length full)]
      | Some end_index \<Rightarrow>
          StringPiece_substr full begin_index (end_index - begin_index) #
          split_set_loop full delim (StringPiece_find_first_not_of full delim end_index))"
  by pat_completeness auto

termination
proof (relation "measure (\<lambda>(full, delim, i). case i of None \<Rightarrow> 0 | Some b \<Rightarrow> Suc (length full) - b)", simp)
  fix full delim :: string and b e :: nat
  assume e: "StringPiece_find_first_of full delim b = Some e"
  then have ne: "delim \<noteq> []" "b \<le> e" "full ! e \<in> set delim" "e < length full"
    using find_first_of.sound [OF e] by auto
  have "b < n" if "StringPiece_find_first_not_of full delim e = Some n" for n
  proof -
    have "e \<le> n" "full ! n \<notin> set delim"
      using that ne(1) by (simp_all add: StringPiece_find_first_not_of_eq scan_up.Some_iff)
    then have "e < n"
      using ne(3) by (metis le_neq_implies_less)
    then show ?thesis
      using ne(2) by simp
  qed
  then show "((full, delim, StringPiece_find_first_not_of full delim e), full, delim, Some b)
      \<in> measure (\<lambda>(full, delim, i). case i of None \<Rightarrow> 0 | Some b \<Rightarrow> Suc (length full) - b)"
    using ne(2,4) by (auto split: option.splits simp: diff_less_mono2)
qed

declare split_set_loop.simps [simp del]

definition SplitStringToIteratorUsing :: "string \<Rightarrow> string \<Rightarrow> string list" where
  "SplitStringToIteratorUsing full delim =
     (let delim = c_str delim
      in if length delim = 1 then split_char_loop (delim ! 0) full
         else split_set_loop full delim (StringPiece_find_first_not_of full delim 0))"

definition SplitStringByAnyOf :: "string \<Rightarrow> string \<Rightarrow> string list" where
  "SplitStringByAnyOf full delim = SplitStringToIteratorUsing full delim"

section \<open>Splitting at bytes, empty fields kept\<close>

text \<open>
  \<^verbatim>\<open>SplitString(const std::string&, const char*, ...)\<close>: the table \<^verbatim>\<open>dict\<close> has 127 entries, and a separator
  or text byte of value 127 indexes one past its end.
\<close>

fun dict_loop :: "string \<Rightarrow> bool list \<Rightarrow> bool list option result" where
  "dict_loop [] dict = Inr (Some dict)"
| "dict_loop (c # p) dict =
     (if schar c > 127 \<or> schar c < 0 then Inr None
      else if nat (schar c) < length dict then dict_loop p (dict[nat (schar c) := True])
      else Inl Out_of_bounds)"

function SplitString_loop :: "string \<Rightarrow> bool list \<Rightarrow> nat \<Rightarrow> nat \<Rightarrow> string list result" where
  "SplitString_loop src dict last_pos pos =
     (if pos < length src then
        (let pvalue = schar (src ! pos)
         in if pvalue > 127 \<or> pvalue < 0 then SplitString_loop src dict last_pos (pos + 1)
            else if nat pvalue < length dict then
              if dict ! nat pvalue then
                bindR (SplitString_loop src dict (pos + 1) (pos + 1)) (\<lambda>result.
                  Inr (slice src last_pos (pos - last_pos) # result))
              else SplitString_loop src dict last_pos (pos + 1)
            else Inl Out_of_bounds)
      else Inr (if last_pos = length src then [[]] else [drop last_pos src]))"
  by pat_completeness auto

termination
  by (relation "measure (\<lambda>(src, dict, last_pos, pos). length src - pos)") auto

declare SplitString_loop.simps [simp del]

definition SplitString :: "string \<Rightarrow> string \<Rightarrow> (bool \<times> string list) result" where
  "SplitString src separators =
     (if src = [] then Inr (False, [])
      else bindR (dict_loop (c_str separators) (replicate 127 False)) (\<lambda>d.
        case d of
          None \<Rightarrow> Inr (False, [])
        | Some dict \<Rightarrow> bindR (SplitString_loop src dict 0 0) (\<lambda>result. Inr (True, result))))"

section \<open>Splitting at strings\<close>

lemma StringPiece_find_Some: "StringPiece_find s t pos = Some i \<Longrightarrow> pos \<le> i \<and> i + length t \<le> length s"
proof -
  assume "StringPiece_find s t pos = Some i"
  then have "pos \<le> length s" "i = search_from s t pos" "i + length t \<le> length s"
    by (auto simp: StringPiece_find_def Let_def split: if_splits)
  then show ?thesis
    using search_from_laws [of pos s t] by simp
qed

text \<open>The loop of \<^verbatim>\<open>SplitUsingStringDelimiterToIterator\<close>, which its caller enters with a delimiter of at
  least two bytes, and the function itself.\<close>

function split_string_loop :: "string \<Rightarrow> string \<Rightarrow> nat \<Rightarrow> string list" where
  "split_string_loop full delim begin_index =
     (if begin_index < length full \<and> delim \<noteq> [] then
        (case StringPiece_find full delim begin_index of
           None \<Rightarrow> [StringPiece_substr full begin_index (length full)]
         | Some end_index \<Rightarrow>
             (if end_index > begin_index then [slice full begin_index (end_index - begin_index)] else []) @
             split_string_loop full delim (end_index + length delim))
      else [])"
  by pat_completeness auto

termination
proof (relation "measure (\<lambda>(full, delim, b). length full - b)", simp)
  fix full delim :: string and b e :: nat
  assume "b < length full \<and> delim \<noteq> []" "StringPiece_find full delim b = Some e"
  moreover from this have "b \<le> e" "0 < length delim"
    using StringPiece_find_Some by auto
  ultimately show "((full, delim, e + length delim), full, delim, b) \<in> measure (\<lambda>(full, delim, b). length full - b)"
    by (cases delim) auto
qed

declare split_string_loop.simps [simp del]

definition SplitUsingStringDelimiterToIterator :: "string \<Rightarrow> string \<Rightarrow> string list" where
  "SplitUsingStringDelimiterToIterator full delim =
     (let delim = c_str delim
      in if full = [] then []
         else if delim = [] then [full]
         else if length delim = 1 then SplitStringToIteratorUsing full delim
         else split_string_loop full delim 0)"

definition SplitStringAndStrip :: "string \<Rightarrow> string \<Rightarrow> string list" where
  "SplitStringAndStrip full delim = SplitUsingStringDelimiterToIterator full delim"

definition SplitStringToSet :: "string \<Rightarrow> string \<Rightarrow> string set" where
  "SplitStringToSet full delim = set (SplitUsingStringDelimiterToIterator full delim)"

text \<open>The loops of the two overloads of \<^verbatim>\<open>SplitStringKeepEmpty\<close>.\<close>

function keep_char_loop :: "string \<Rightarrow> char \<Rightarrow> nat \<Rightarrow> string list" where
  "keep_char_loop full delim prev_pos =
     (case StringPiece_find_char full delim prev_pos of
        Some pos \<Rightarrow> slice full prev_pos (pos - prev_pos) # keep_char_loop full delim (pos + 1)
      | None \<Rightarrow> [drop prev_pos full])"
  by pat_completeness auto

termination
proof (relation "measure (\<lambda>(full, delim, p). length full - p)", simp)
  fix full :: string and delim :: char and p pos :: nat
  assume "StringPiece_find_char full delim p = Some pos"
  then have "p \<le> pos" "pos < length full"
    using find_char.sound by blast+
  then show "((full, delim, pos + 1), full, delim, p) \<in> measure (\<lambda>(full, delim, p). length full - p)"
    by simp
qed

declare keep_char_loop.simps [simp del]

definition SplitStringKeepEmpty_char :: "string \<Rightarrow> char \<Rightarrow> string list" where
  "SplitStringKeepEmpty_char full delim = (if full = [] then [[]] else keep_char_loop full delim 0)"

function keep_string_loop :: "string \<Rightarrow> string \<Rightarrow> nat \<Rightarrow> string list" where
  "keep_string_loop full delim prev_pos =
     (if delim = [] then []
      else (case StringPiece_find full delim prev_pos of
              Some pos \<Rightarrow> slice full prev_pos (pos - prev_pos) # keep_string_loop full delim (pos + length delim)
            | None \<Rightarrow> [drop prev_pos full]))"
  by pat_completeness auto

termination
proof (relation "measure (\<lambda>(full, delim, p). Suc (length full) - p)", simp)
  fix full delim :: string and p pos :: nat
  assume "delim \<noteq> []" "StringPiece_find full delim p = Some pos"
  moreover from this have "p \<le> pos" "pos + length delim \<le> length full" "0 < length delim"
    using StringPiece_find_Some by auto
  ultimately show "((full, delim, pos + length delim), full, delim, p) \<in> measure (\<lambda>(full, delim, p). Suc (length full) - p)"
    by (cases delim) auto
qed

declare keep_string_loop.simps [simp del]

definition SplitStringKeepEmpty :: "string \<Rightarrow> string \<Rightarrow> string list" where
  "SplitStringKeepEmpty full delim =
     (if length delim = 1 then SplitStringKeepEmpty_char full (delim ! 0)
      else if delim = [] then []
      else if full = [] then [[]]
      else keep_string_loop full delim 0)"

definition SplitStringByString :: "string \<Rightarrow> string \<Rightarrow> bool \<times> string list" where
  "SplitStringByString src separator =
     (if src = [] \<or> length separator = 0 then (False, []) else (True, SplitStringKeepEmpty src separator))"

section \<open>Lines\<close>

function DoRemoveLineEnding :: "string \<Rightarrow> string" where
  "DoRemoveLineEnding line =
     (if line \<noteq> [] then
        (if last line = CHR 0x0D \<or> last line = CHR 0x0A then DoRemoveLineEnding (butlast line) else line)
      else line)"
  by pat_completeness auto

termination
  by (relation "measure length") auto

declare DoRemoveLineEnding.simps [simp del]

definition RemoveLineEnding :: "string \<Rightarrow> string" where
  "RemoveLineEnding line = DoRemoveLineEnding line"

function split_lines_loop :: "string \<Rightarrow> bool \<Rightarrow> nat \<Rightarrow> string list" where
  "split_lines_loop full keep prev_pos =
     (case StringPiece_find_char full CHR 0x0A prev_pos of
        Some pos \<Rightarrow>
          (let token = slice full prev_pos (pos - prev_pos + 1)
           in (if keep then token else RemoveLineEnding token) # split_lines_loop full keep (pos + 1))
      | None \<Rightarrow>
          (if prev_pos < length full
           then [if keep then drop prev_pos full else RemoveLineEnding (drop prev_pos full)] else []))"
  by pat_completeness auto

termination
proof (relation "measure (\<lambda>(full, keep, p). length full - p)", simp)
  fix full :: string and keep :: bool and p pos :: nat
  assume "StringPiece_find_char full CHR 0x0A p = Some pos"
  then have "p \<le> pos" "pos < length full"
    using find_char.sound by blast+
  then show "((full, keep, pos + 1), full, keep, p) \<in> measure (\<lambda>(full, keep, p). length full - p)"
    by simp
qed

declare split_lines_loop.simps [simp del]

definition SplitLines :: "string \<Rightarrow> bool \<Rightarrow> string list" where
  "SplitLines full keep_line_ending = split_lines_loop full keep_line_ending 0"

section \<open>Joining undoes splitting\<close>

lemma foldl_join: "foldl (\<lambda>res d. res @ delim @ d) (a @ b) cs = a @ foldl (\<lambda>res d. res @ delim @ d) b cs"
  by (induction cs arbitrary: b) simp_all

lemma JoinStrings_simps [simp]:
  "JoinStrings [] delim = []"
  "JoinStrings [c] delim = c"
  "JoinStrings (c # d # cs) delim = c @ delim @ JoinStrings (d # cs) delim"
proof -
  show "JoinStrings (c # d # cs) delim = c @ delim @ JoinStrings (d # cs) delim"
    using foldl_join [of delim "c @ delim" d cs] by (simp add: JoinStrings_def JoinStrings_into_def)
qed (simp_all add: JoinStrings_def JoinStrings_into_def)

lemma JoinStrings_Cons: "cs \<noteq> [] \<Longrightarrow> JoinStrings (c # cs) delim = c @ delim @ JoinStrings cs delim"
  by (cases cs) simp_all

text \<open>The contract of a splitter that keeps empty fields.\<close>

locale keep_splitter =
  fixes split :: "string \<Rightarrow> string list" and delim :: string
  assumes nonempty: "split s \<noteq> []"
    and joins: "JoinStrings (split s) delim = s"
    and fields: "x \<in> set (split s) \<Longrightarrow> \<not> occurs_at x delim i"
begin

lemma injective: "split s = split t \<longleftrightarrow> s = t"
  by (metis joins)

lemma single_field: "split s = [x] \<Longrightarrow> x = s"
  using joins [of s] by simp

lemma delimiter_counts: "length s = sum_list (map length (split s)) + (length (split s) - 1) * length delim"
proof -
  have "length (JoinStrings xs delim) = sum_list (map length xs) + (length xs - 1) * length delim" for xs
  proof (induction xs)
    case (Cons x xs)
    then show ?case
      by (cases xs) simp_all
  qed simp
  then show ?thesis
    using joins [of s] by metis
qed

end

lemma occurs_at_split: "occurs_at s t i \<Longrightarrow> p \<le> i \<Longrightarrow> drop p s = slice s p (i - p) @ t @ drop (i + length t) s"
proof -
  assume o: "occurs_at s t i" and p: "p \<le> i"
  have "drop i s = slice s i (length t) @ drop (i + length t) s"
    by (metis add.commute append_take_drop_id drop_drop slice_def)
  moreover have "drop p s = slice s p (i - p) @ drop i s"
    using p by (metis append_take_drop_id drop_drop le_add_diff_inverse2 slice_def)
  ultimately show ?thesis
    using o by (simp add: occurs_at_def)
qed

lemma occurs_at_slice:
  "occurs_at (slice s p n) t j \<Longrightarrow> p + n \<le> length s \<Longrightarrow> occurs_at s t (p + j)"
proof -
  assume o: "occurs_at (slice s p n) t j" and n: "p + n \<le> length s"
  then have j: "j + length t \<le> n"
    by (simp add: occurs_at_def length_slice)
  have "slice (slice s p n) j (length t) = slice s (p + j) (length t)"
    using j by (simp add: slice_def drop_take add.commute)
  then show ?thesis
    using o n j by (simp add: occurs_at_def)
qed

lemma occurs_at_drop: "occurs_at (drop p s) t j \<Longrightarrow> t \<noteq> [] \<Longrightarrow> occurs_at s t (p + j)"
  by (cases t) (auto simp: occurs_at_def slice_def add.commute)

lemma StringPiece_find_laws:
  "StringPiece_find s t pos = Some i \<Longrightarrow> occurs_at s t i \<and> pos \<le> i \<and> (\<forall>j. pos \<le> j \<longrightarrow> j < i \<longrightarrow> \<not> occurs_at s t j)"
  "StringPiece_find s t pos = None \<Longrightarrow> pos \<le> j \<Longrightarrow> \<not> occurs_at s t j"
proof -
  show "occurs_at s t i \<and> pos \<le> i \<and> (\<forall>j. pos \<le> j \<longrightarrow> j < i \<longrightarrow> \<not> occurs_at s t j)"
    if "StringPiece_find s t pos = Some i"
    using that search_from_laws [of pos s t] by (auto simp: StringPiece_find_def Let_def split: if_splits)
  show "\<not> occurs_at s t j" if "StringPiece_find s t pos = None" "pos \<le> j"
    using that search_from_laws [of pos s t] occurs_atD [of s t j]
    by (auto simp: StringPiece_find_def Let_def split: if_splits)
qed

lemma keep_string_loop_laws:
  assumes "delim \<noteq> []"
  shows "keep_string_loop full delim p \<noteq> [] \<and> JoinStrings (keep_string_loop full delim p) delim = drop p full \<and>
    (\<forall>x \<in> set (keep_string_loop full delim p). \<forall>i. \<not> occurs_at x delim i)"
  using assms
proof (induction full delim p rule: keep_string_loop.induct)
  case (1 full delim p)
  show ?case
  proof (cases "StringPiece_find full delim p")
    case None
    then have k: "keep_string_loop full delim p = [drop p full]"
      using 1(2) by (subst keep_string_loop.simps) simp
    have "\<not> occurs_at (drop p full) delim i" for i
      using StringPiece_find_laws(2) [OF None, of "p + i"] occurs_at_drop [of p full delim i] 1(2) by auto
    then show ?thesis
      by (simp add: k)
  next
    case (Some pos)
    note f = StringPiece_find_laws(1) [OF Some]
    have k: "keep_string_loop full delim p =
        slice full p (pos - p) # keep_string_loop full delim (pos + length delim)"
      using 1(2) Some by (subst keep_string_loop.simps) simp
    note IH = 1(1) [OF 1(2) Some 1(2)]
    have "\<not> occurs_at (slice full p (pos - p)) delim i" for i
    proof
      assume o: "occurs_at (slice full p (pos - p)) delim i"
      have le: "pos \<le> length full"
        using f by (auto simp: occurs_at_def)
      have "occurs_at full delim (p + i)"
        by (rule occurs_at_slice [OF o]) (use f le in simp)
      moreover have "p + i < pos"
        using o f le 1(2) by (cases delim) (auto simp: occurs_at_def length_slice)
      ultimately show False
        using f by simp
    qed
    then show ?thesis
      using IH f occurs_at_split [of full delim pos p] by (simp add: k JoinStrings_Cons)
  qed
qed

lemma occurs_at_single: "occurs_at s [c] i \<longleftrightarrow> i < length s \<and> s ! i = c"
  by (auto simp: occurs_at_def slice_nth)

lemma find_single: "StringPiece_find s [c] p = StringPiece_find_char s c p"
proof (cases "StringPiece_find_char s c p")
  case None
  then have "StringPiece_find s [c] p \<noteq> Some i" for i
    using StringPiece_find_laws(1) [of s "[c]" p i] by (auto simp: find_char.None_iff occurs_at_single)
  with None show ?thesis
    by (cases "StringPiece_find s [c] p") auto
next
  case (Some k)
  then have k: "p \<le> k" "occurs_at s [c] k" "\<And>j. p \<le> j \<Longrightarrow> j < k \<Longrightarrow> \<not> occurs_at s [c] j"
    by (auto simp: find_char.Some_iff occurs_at_single)
  show ?thesis
  proof (cases "StringPiece_find s [c] p")
    case None
    then show ?thesis
      using StringPiece_find_laws(2) k by blast
  next
    case (Some m)
    then have "m = k"
      using StringPiece_find_laws(1) [OF Some] k by (metis linorder_neqE_nat)
    with Some show ?thesis
      using \<open>StringPiece_find_char s c p = Some k\<close> by simp
  qed
qed

lemma keep_char_loop_eq: "keep_char_loop full c p = keep_string_loop full [c] p"
proof (induction full c p rule: keep_char_loop.induct)
  case (1 full c p)
  then show ?case
    by (subst keep_char_loop.simps, subst keep_string_loop.simps) (auto simp: find_single split: option.splits)
qed

lemma find_in_empty: "delim \<noteq> [] \<Longrightarrow> StringPiece_find [] delim p = None"
  using StringPiece_find_Some [of "[]" delim p] by (cases "StringPiece_find [] delim p") auto

lemma SplitStringKeepEmpty_eq:
  assumes "delim \<noteq> []"
  shows "SplitStringKeepEmpty full delim = keep_string_loop full delim 0"
proof -
  have "keep_string_loop [] delim 0 = [[]]"
    using assms find_in_empty by (subst keep_string_loop.simps) simp
  moreover have "length delim = 1 \<Longrightarrow> delim = [delim ! 0]"
    by (cases delim) auto
  ultimately show ?thesis
    using assms by (auto simp: SplitStringKeepEmpty_def SplitStringKeepEmpty_char_def keep_char_loop_eq)
qed

interpretation keep_empty: keep_splitter "\<lambda>s. SplitStringKeepEmpty s (d # ds)" "d # ds" for d ds
  by unfold_locales (use keep_string_loop_laws [of "d # ds" _ 0] in \<open>auto simp: SplitStringKeepEmpty_eq\<close>)

text \<open>
  C13: for every non-empty delimiter, joining the fields of \<^verbatim>\<open>SplitStringKeepEmpty\<close> with it gives the text
  back, and no field contains it.
\<close>

theorem SplitStringKeepEmpty_roundtrip:
  assumes "delim \<noteq> []"
  shows "JoinStrings (SplitStringKeepEmpty full delim) delim = full \<and>
    (x \<in> set (SplitStringKeepEmpty full delim) \<longrightarrow> \<not> occurs_at x delim i)"
proof -
  obtain d ds where "delim = d # ds"
    using assms by (cases delim) auto
  then show ?thesis
    using keep_empty.joins keep_empty.fields by auto
qed

theorem SplitStringKeepEmpty_roundtrip_witness:
  "JoinStrings (SplitStringKeepEmpty ''a, , b'' '', '') '', '' = ''a, , b''"
  using SplitStringKeepEmpty_roundtrip [of "'', ''" "''a, , b''" "[]" 0] by simp

text \<open>The other direction, for one delimiter byte.\<close>

lemma find_char_join: "c \<notin> set x \<Longrightarrow> StringPiece_find_char (pre @ x @ c # r) c (length pre) = Some (length pre + length x)"
  by (auto simp: StringPiece_find_char_def find_char_append_notin)

lemma find_char_end: "c \<notin> set x \<Longrightarrow> StringPiece_find_char (pre @ x) c (length pre) = None"
proof -
  assume "c \<notin> set x"
  then have "find_char c x = None"
    by simp
  then show ?thesis
    by (simp add: StringPiece_find_char_def del: find_char_None_iff)
qed

lemma keep_char_loop_join:
  assumes "xs \<noteq> []" "\<forall>x \<in> set xs. c \<notin> set x"
  shows "keep_char_loop (pre @ JoinStrings xs [c]) c (length pre) = xs"
  using assms
proof (induction xs arbitrary: pre)
  case (Cons x xs)
  show ?case
  proof (cases xs)
    case Nil
    then show ?thesis
      using Cons.prems find_char_end [of c x pre] by (subst keep_char_loop.simps) simp
  next
    case (Cons y ys)
    let ?s = "pre @ x @ c # JoinStrings xs [c]"
    have "StringPiece_find_char ?s c (length pre) = Some (length pre + length x)"
      using Cons.prems by (intro find_char_join) simp
    moreover have "keep_char_loop ?s c (length (pre @ x @ [c])) = xs"
      using Cons.IH [of "pre @ x @ [c]"] Cons.prems \<open>xs = y # ys\<close> by simp
    moreover have "slice ?s (length pre) (length x) = x"
      by (simp add: slice_def)
    ultimately show ?thesis
      using \<open>xs = y # ys\<close> by (subst keep_char_loop.simps) simp
  qed
qed simp

text \<open>
  C27: splitting at a byte gives back the non-empty list of strings that were joined with it, if none of them
  contains it.
\<close>

theorem JoinStrings_roundtrip:
  assumes "xs \<noteq> []" "\<forall>x \<in> set xs. c \<notin> set x"
  shows "SplitStringKeepEmpty (JoinStrings xs [c]) [c] = xs"
  using keep_char_loop_join [OF assms, of "[]"] by (simp add: SplitStringKeepEmpty_eq keep_char_loop_eq)

theorem JoinStrings_roundtrip_witness:
  "SplitStringKeepEmpty (JoinStrings [''a'', [], ''b''] '','') '','' = [''a'', [], ''b'']"
  by (rule JoinStrings_roundtrip) simp_all

section \<open>The fields between delimiter bytes\<close>

text \<open>The reference splitter: cut at every byte that satisfies \<open>P\<close>; \<open>runs\<close> drops the empty fields.\<close>

fun split_by :: "(char \<Rightarrow> bool) \<Rightarrow> string \<Rightarrow> string list" where
  "split_by P [] = [[]]"
| "split_by P (c # s) = (if P c then [] # split_by P s else (c # hd (split_by P s)) # tl (split_by P s))"

definition runs :: "(char \<Rightarrow> bool) \<Rightarrow> string \<Rightarrow> string list" where
  "runs P s = filter (\<lambda>x. x \<noteq> []) (split_by P s)"

lemma split_by_not_Nil [simp]: "split_by P s \<noteq> []"
  by (cases s) simp_all

lemma split_by_append: "\<forall>x \<in> set a. \<not> P x \<Longrightarrow> split_by P (a @ b) = (a @ hd (split_by P b)) # tl (split_by P b)"
  by (induction a) simp_all

lemma split_by_at: "\<forall>x \<in> set a. \<not> P x \<Longrightarrow> P c \<Longrightarrow> split_by P (a @ c # b) = a # split_by P b"
  by (simp add: split_by_append)

lemma split_by_none: "\<forall>x \<in> set a. \<not> P x \<Longrightarrow> split_by P a = [a]"
  using split_by_append [of a P "[]"] by simp

lemma runs_skip: "\<forall>x \<in> set a. P x \<Longrightarrow> runs P (a @ b) = runs P b"
  by (induction a) (simp_all add: runs_def)

lemma runs_run:
  assumes "a \<noteq> []" "\<forall>x \<in> set a. \<not> P x" "b = [] \<or> P (hd b)"
  shows "runs P (a @ b) = a # runs P b"
  using assms by (cases b) (simp_all add: runs_def split_by_append split_by_none)

lemma runs_Nil [simp]: "runs P [] = []"
  by (simp add: runs_def)

lemma split_char_loop_runs: "split_char_loop c s = runs (\<lambda>d. d = c) s"
proof (induction c s rule: split_char_loop.induct)
  case (2 c x p)
  show ?case
  proof (cases "x = c")
    case True
    then show ?thesis
      using 2 runs_skip [of "[x]" "\<lambda>d. d = c" p] by simp
  next
    case False
    let ?t = "takeWhile (\<lambda>d. d \<noteq> c) p" and ?d = "dropWhile (\<lambda>d. d \<noteq> c) p"
    have "?d = [] \<or> hd ?d = c"
      using hd_dropWhile [of "\<lambda>d. d \<noteq> c" p] by blast
    then have "runs (\<lambda>d. d = c) ((x # ?t) @ ?d) = (x # ?t) # runs (\<lambda>d. d = c) ?d"
      using False by (intro runs_run) (auto dest: set_takeWhileD)
    then show ?thesis
      using 2 False by simp
  qed
qed simp

lemma set_slice: "x \<in> set (slice s p n) \<Longrightarrow> \<exists>i. p \<le> i \<and> i < p + n \<and> i < length s \<and> s ! i = x"
proof -
  assume "x \<in> set (slice s p n)"
  then obtain k where "k < length (slice s p n)" "slice s p n ! k = x"
    by (auto simp: in_set_conv_nth)
  moreover from this have "p + k < length s"
    by (simp add: slice_def less_diff_conv add.commute)
  ultimately show ?thesis
    by (intro exI [of _ "p + k"]) (simp add: slice_def)
qed

lemma set_drop_nth: "x \<in> set (drop p s) \<Longrightarrow> \<exists>i. p \<le> i \<and> i < length s \<and> s ! i = x"
  using set_slice [of x s p "length s"] by (auto simp: slice_def)

lemma drop_slice_split: "p \<le> i \<Longrightarrow> drop p s = slice s p (i - p) @ drop i s"
  by (metis append_take_drop_id drop_drop le_add_diff_inverse2 slice_def)

lemma runs_drop_skip:
  assumes "e \<le> n" "\<And>j. e \<le> j \<Longrightarrow> j < n \<Longrightarrow> j < length s \<Longrightarrow> P (s ! j)"
  shows "runs P (drop e s) = runs P (drop n s)"
proof -
  have "\<forall>x \<in> set (slice s e (n - e)). P x"
    using set_slice [of _ s e "n - e"] assms by fastforce
  then show ?thesis
    using runs_skip drop_slice_split [OF assms(1), of s] by metis
qed

lemma find_first_cut:
  assumes "StringPiece_find_first_of s t b = Some e"
  shows "drop b s = slice s b (e - b) @ drop e s" "\<forall>x \<in> set (slice s b (e - b)). x \<notin> set t"
    "b \<le> e" "e < length s" "s ! e \<in> set t" "drop e s = s ! e # drop (e + 1) s"
proof -
  note f = find_first_of.sound [OF assms]
  show "drop b s = slice s b (e - b) @ drop e s"
    using f by (simp add: drop_slice_split)
  show "\<forall>x \<in> set (slice s b (e - b)). x \<notin> set t"
    using f set_slice [of _ s b "e - b"] by fastforce
  show "b \<le> e" "e < length s" "s ! e \<in> set t" "drop e s = s ! e # drop (e + 1) s"
    using f by (simp_all add: Cons_nth_drop_Suc)
qed

lemma split_set_loop_runs:
  assumes "b < length full" "full ! b \<notin> set delim"
  shows "split_set_loop full delim (Some b) = runs (\<lambda>c. c \<in> set delim) (drop b full)"
  using assms
proof (induction "length full - b" arbitrary: b rule: less_induct)
  case less
  let ?P = "\<lambda>c. c \<in> set delim"
  show ?case
  proof (cases "StringPiece_find_first_of full delim b")
    case None
    then have "\<forall>x \<in> set (drop b full). x \<notin> set delim"
      using find_first_of.complete [OF None] set_drop_nth [of _ b full] by metis
    moreover have "drop b full \<noteq> []"
      using less.prems by simp
    ultimately show ?thesis
      using None less.prems
      by (simp add: split_set_loop.simps StringPiece_substr_def slice_def runs_def split_by_none min_def)
  next
    case (Some e)
    note c = find_first_cut [OF Some]
    have be: "b < e"
      using c less.prems by (metis le_neq_implies_less)
    have r: "runs ?P (drop b full) = slice full b (e - b) # runs ?P (drop e full)"
      unfolding c(1) by (rule runs_run) (use c(2,4,5) be in \<open>simp_all add: slice_def hd_drop_conv_nth\<close>)
    have ne: "delim \<noteq> []"
      using c by auto
    have "split_set_loop full delim (StringPiece_find_first_not_of full delim e) = runs ?P (drop e full)"
    proof (cases "StringPiece_find_first_not_of full delim e")
      case None
      then have "runs ?P (drop e full) = runs ?P (drop (length full) full)"
        using c(4) by (intro runs_drop_skip) (simp_all add: StringPiece_find_first_not_of_eq [OF ne] scan_up.None_iff)
      then show ?thesis
        by (simp add: None split_set_loop.simps)
    next
      case (Some n)
      then have n: "e \<le> n" "n < length full" "full ! n \<notin> set delim" "\<And>j. e \<le> j \<Longrightarrow> j < n \<Longrightarrow> full ! j \<in> set delim"
        by (auto simp: StringPiece_find_first_not_of_eq [OF ne] scan_up.Some_iff)
      then have "split_set_loop full delim (Some n) = runs ?P (drop n full)"
        using less.hyps [of n] be by simp
      then show ?thesis
        using runs_drop_skip [of e n full ?P] n by (simp add: Some)
    qed
    then show ?thesis
      using r c(4) be by (simp add: split_set_loop.simps \<open>StringPiece_find_first_of full delim b = Some e\<close>
          StringPiece_substr_def)
  qed
qed

lemma SplitStringToIteratorUsing_runs:
  "SplitStringToIteratorUsing full delim = runs (\<lambda>c. c \<in> set (c_str delim)) full"
proof -
  let ?d = "c_str delim"
  consider "length ?d = 1" | "?d = []" | "?d \<noteq> []" "length ?d \<noteq> 1"
    by blast
  then show ?thesis
  proof cases
    case 1
    then have "set ?d = {?d ! 0}"
      by (cases ?d) auto
    then show ?thesis
      using 1 by (simp add: SplitStringToIteratorUsing_def Let_def split_char_loop_runs)
  next
    case 2
    then show ?thesis
      using split_set_loop_runs [of 0 full "[]"]
      by (cases full) (simp_all add: SplitStringToIteratorUsing_def Let_def StringPiece_find_first_not_of_def
          split_set_loop.simps)
  next
    case 3
    show ?thesis
    proof (cases "StringPiece_find_first_not_of full ?d 0")
      case None
      then have "runs (\<lambda>c. c \<in> set ?d) (drop 0 full) = runs (\<lambda>c. c \<in> set ?d) (drop (length full) full)"
        by (intro runs_drop_skip) (simp_all add: StringPiece_find_first_not_of_eq [OF 3(1)] scan_up.None_iff)
      then show ?thesis
        using 3 None by (simp add: SplitStringToIteratorUsing_def Let_def split_set_loop.simps)
    next
      case (Some n)
      then have n: "n < length full" "full ! n \<notin> set ?d" "\<And>j. j < n \<Longrightarrow> full ! j \<in> set ?d"
        by (auto simp: StringPiece_find_first_not_of_eq [OF 3(1)] scan_up.Some_iff)
      then show ?thesis
        using 3 Some runs_drop_skip [of 0 n full "\<lambda>c. c \<in> set ?d"] split_set_loop_runs [of n full ?d]
        by (simp add: SplitStringToIteratorUsing_def Let_def)
    qed
  qed
qed

text \<open>
  C23: \<^verbatim>\<open>SplitStringByAnyOf\<close> returns the maximal non-empty runs of bytes that are not in the delimiter C string,
  on its path for one delimiter byte and on the one for several.
\<close>

theorem SplitStringByAnyOf_runs:
  "SplitStringByAnyOf full delim = runs (\<lambda>c. c \<in> set (c_str delim)) full"
  by (simp add: SplitStringByAnyOf_def SplitStringToIteratorUsing_runs)

lemma keep_char_loop_split: "keep_char_loop full c p = split_by (\<lambda>d. d = c) (drop p full)"
proof (induction full c p rule: keep_char_loop.induct)
  case (1 full c p)
  show ?case
  proof (cases "StringPiece_find_char full c p")
    case None
    then have "\<forall>x \<in> set (drop p full). x \<noteq> c"
      using find_char.complete [OF None] set_drop_nth [of _ p full] by metis
    then show ?thesis
      using None by (simp add: keep_char_loop.simps [of full c p] split_by_none)
  next
    case (Some e)
    note f = find_char.sound [OF Some]
    have "\<forall>x \<in> set (slice full p (e - p)). x \<noteq> c"
      using f set_slice [of _ full p "e - p"] by fastforce
    moreover have "drop p full = slice full p (e - p) @ c # drop (e + 1) full"
      using f drop_slice_split [of p e full] Cons_nth_drop_Suc [of e full] by simp
    ultimately show ?thesis
      using 1(1) [OF Some] Some by (simp add: keep_char_loop.simps [of full c p] split_by_at)
  qed
qed

lemma split_string_loop_filter:
  assumes "delim \<noteq> []"
  shows "split_string_loop full delim p = filter (\<lambda>x. x \<noteq> []) (keep_string_loop full delim p)"
  using assms
proof (induction full delim p rule: split_string_loop.induct)
  case (1 full delim p)
  show ?case
  proof (cases "StringPiece_find full delim p")
    case None
    then show ?thesis
      using 1(2) by (auto simp: split_string_loop.simps [of full delim p] keep_string_loop.simps [of full delim p]
          StringPiece_substr_def slice_def)
  next
    case (Some e)
    then have e: "p \<le> e" "e + length delim \<le> length full" "0 < length delim"
      using StringPiece_find_Some 1(2) by auto
    then have p: "p < length full \<and> delim \<noteq> []"
      using 1(2) by linarith
    have "slice full p (e - p) \<noteq> [] \<longleftrightarrow> e > p"
      using e by (auto simp: slice_def)
    then show ?thesis
      using p Some 1(1) [OF p Some 1(2)]
      by (simp add: split_string_loop.simps [of full delim p] keep_string_loop.simps [of full delim p])
  qed
qed

text \<open>
  \<^verbatim>\<open>SplitStringAndStrip\<close> returns the fields of \<^verbatim>\<open>SplitStringKeepEmpty\<close> that are not empty, for every
  delimiter, although the two have different loops; so, against the comment in \<^verbatim>\<open>algorithm.h\<close>, it does not undo
  \<^verbatim>\<open>JoinStrings\<close> when a component is empty.
\<close>

theorem SplitStringAndStrip_drops_empty:
  assumes "delim \<noteq> []" "NUL \<notin> set delim"
  shows "SplitStringAndStrip full delim = filter (\<lambda>x. x \<noteq> []) (SplitStringKeepEmpty full delim)"
proof -
  have d: "c_str delim = delim"
    using assms(2) by simp
  show ?thesis
  proof (cases "length delim = 1")
    case True
    then obtain c where "delim = [c]"
      by (cases delim) auto
    then show ?thesis
      using d by (simp add: SplitStringAndStrip_def SplitUsingStringDelimiterToIterator_def Let_def
          SplitStringToIteratorUsing_runs SplitStringKeepEmpty_def SplitStringKeepEmpty_char_def
          keep_char_loop_split runs_def)
  next
    case False
    then show ?thesis
      using d assms(1) by (simp add: SplitStringAndStrip_def SplitUsingStringDelimiterToIterator_def Let_def
          SplitStringKeepEmpty_def split_string_loop_filter)
  qed
qed

theorem SplitStringAndStrip_drops_empty_witness:
  "SplitStringAndStrip ''a,,b'' '','' = [''a'', ''b'']"
  using SplitStringAndStrip_drops_empty [of "'',''" "''a,,b''"]
  by (simp add: SplitStringKeepEmpty_def SplitStringKeepEmpty_char_def keep_char_loop_split)

section \<open>The splitter with the table of 127 flags\<close>

lemma dict_loop_set:
  assumes "\<forall>c \<in> set p. code c < 127" "length dict = 127"
  shows "\<exists>d. dict_loop p dict = Inr (Some d) \<and> length d = 127 \<and>
    (\<forall>n < 127. d ! n \<longleftrightarrow> dict ! n \<or> (\<exists>c \<in> set p. code c = n))"
  using assms
proof (induction p arbitrary: dict)
  case (Cons c p)
  then have c: "schar c = int (code c)" "code c < 127"
    by (simp_all add: schar_def)
  obtain d where d: "dict_loop p (dict[code c := True]) = Inr (Some d)" "length d = 127"
    "\<forall>n < 127. d ! n \<longleftrightarrow> dict[code c := True] ! n \<or> (\<exists>c \<in> set p. code c = n)"
    using Cons.IH [of "dict[code c := True]"] Cons.prems by auto
  have "dict[code c := True] ! n \<longleftrightarrow> dict ! n \<or> code c = n" if "n < 127" for n
    using that Cons.prems(2) by (cases "code c = n") auto
  then have "\<forall>n < 127. d ! n \<longleftrightarrow> dict ! n \<or> (\<exists>c \<in> set (c # p). code c = n)"
    using d(3) by auto
  then show ?case
    using c d(1,2) Cons.prems(2) by (intro exI [of _ d]) simp
qed simp

lemma SplitString_loop_split:
  assumes d: "length dict = 127" "\<And>c. P c \<longleftrightarrow> code c < 127 \<and> dict ! code c"
    and s: "\<forall>c \<in> set src. code c \<noteq> 127"
  shows "l \<le> p \<Longrightarrow> p \<le> length src \<Longrightarrow> SplitString_loop src dict l p =
    Inr ((slice src l (p - l) @ hd (split_by P (drop p src))) # tl (split_by P (drop p src)))"
proof (induction "length src - p" arbitrary: l p)
  case 0
  then have "p = length src"
    by simp
  then show ?case
    using 0 by (simp add: SplitString_loop.simps [of src dict l "length src"] slice_def)
next
  case (Suc n)
  then have p: "p < length src" and c: "drop p src = src ! p # drop (p + 1) src"
    by (simp_all add: Cons_nth_drop_Suc)
  let ?c = "src ! p"
  have sl: "slice src l (Suc p - l) = slice src l (p - l) @ [?c]"
    using Suc.prems p by (simp add: slice_def Suc_diff_le take_Suc_conv_app_nth)
  have ne: "code ?c \<noteq> 127"
    using s p by simp
  show ?case
  proof (cases "P ?c")
    case True
    then show ?thesis
      using Suc.hyps(1) [of "p + 1" "p + 1"] Suc.hyps(2) p d
      by (simp add: SplitString_loop.simps [of src dict l p] c schar_def Let_def slice_def)
  next
    case False
    then have "SplitString_loop src dict l p = SplitString_loop src dict l (p + 1)"
      using p d ne by (auto simp: SplitString_loop.simps [of src dict l p] schar_def Let_def)
    then show ?thesis
      using Suc.hyps(1) [of "p + 1" l] Suc.hyps(2) Suc.prems p False sl by (simp add: c)
  qed
qed

lemma split_by_join:
  assumes "xs \<noteq> []" "\<forall>x \<in> set xs. c \<notin> set x"
  shows "split_by (\<lambda>d. d = c) (JoinStrings xs [c]) = xs"
  using keep_char_loop_join [OF assms, of "[]"] by (simp add: keep_char_loop_split)

lemma JoinStrings_chars: "c \<in> set (JoinStrings xs d) \<Longrightarrow> (\<exists>x \<in> set xs. c \<in> set x) \<or> c \<in> set d"
proof (induction xs)
  case (Cons x xs)
  then show ?case
    by (cases xs) auto
qed simp

lemma SplitString_split:
  assumes "src \<noteq> []" "\<forall>c \<in> set (c_str sep). code c < 127" "\<forall>c \<in> set src. code c \<noteq> 127"
  shows "SplitString src sep = Inr (True, split_by (\<lambda>c. c \<in> set (c_str sep)) src)"
proof -
  obtain d where d: "dict_loop (c_str sep) (replicate 127 False) = Inr (Some d)" "length d = 127"
    "\<forall>n < 127. d ! n \<longleftrightarrow> (\<exists>c \<in> set (c_str sep). code c = n)"
    using dict_loop_set [OF assms(2), of "replicate 127 False"] by auto
  have "c \<in> set (c_str sep) \<longleftrightarrow> code c < 127 \<and> d ! code c" for c
    using d(3) assms(2) by auto
  then show ?thesis
    using SplitString_loop_split [OF d(2) _ assms(3), of "\<lambda>c. c \<in> set (c_str sep)" 0 0] d(1) assms(1)
    by (simp add: SplitString_def slice_def)
qed

text \<open>
  when neither the separators nor the text hold the byte 127, and the separators are ASCII,
  \<^verbatim>\<open>SplitString\<close> cuts a non-empty text at every separator byte and keeps the empty fields.
\<close>

theorem SplitString_correct:
  assumes "src \<noteq> []" "\<forall>c \<in> set (c_str sep). code c < 127" "\<forall>c \<in> set src. code c \<noteq> 127"
  shows "SplitString src sep = Inr (True, split_by (\<lambda>c. c \<in> set (c_str sep)) src)"
  using assms by (rule SplitString_split)

theorem SplitString_correct_witness: "SplitString ''a,;b'' '',;'' = Inr (True, [''a'', [], ''b''])"
  using SplitString_correct [of "''a,;b''" "'',;''"] by simp

text \<open>
  C39: for a non-empty text, a separator of value 127 with only separators below 127 in front of it is let through by
  the guard and written past the end of the table.
\<close>

theorem SplitString_del_out_of_bounds:
  assumes "src \<noteq> []" "\<forall>c \<in> set a. code c < 127 \<and> c \<noteq> NUL"
  shows "SplitString src (a @ CHR 0x7F # b) = Inl Out_of_bounds"
proof -
  have "dict_loop (c_str (a @ CHR 0x7F # b)) dict = Inl Out_of_bounds" if "length dict = 127" for dict
    using assms(2) that
  proof (induction a arbitrary: dict)
    case Nil
    then show ?case
      by (simp add: c_str_def schar_def)
  next
    case (Cons c a)
    then show ?case
      using Cons.IH [of "dict[code c := True]"] by (simp add: c_str_def schar_def)
  qed
  then show ?thesis
    using assms(1) by (simp add: SplitString_def)
qed

theorem SplitString_del_out_of_bounds_witness: "SplitString ''a'' [CHR 0x2C, CHR 0x7F] = Inl Out_of_bounds"
  using SplitString_del_out_of_bounds [of "''a''" "'',''" "[]"] by simp

section \<open>Lines\<close>

lemma DoRemoveLineEnding_eq:
  "DoRemoveLineEnding s = rev (dropWhile (\<lambda>c. c = CHR 0x0D \<or> c = CHR 0x0A) (rev s))"
proof (induction s rule: rev_induct)
  case Nil
  then show ?case
    by (simp add: DoRemoveLineEnding.simps)
next
  case (snoc c s)
  then show ?case
    by (simp add: DoRemoveLineEnding.simps [of "s @ [c]"])
qed

lemma find_newline_cut:
  assumes "StringPiece_find_char full c p = Some e"
  shows "drop p full = slice full p (e - p + 1) @ drop (e + 1) full"
  using find_char.sound [OF assms] drop_slice_split [of p "e + 1" full] by (simp add: Suc_diff_le)

lemma split_lines_keep: "concat (split_lines_loop full True p) = drop p full"
proof (induction full "True" p rule: split_lines_loop.induct)
  case (1 full p)
  then show ?case
    using find_newline_cut [of full "CHR 0x0A" p]
    by (auto simp: split_lines_loop.simps [of full True p] Let_def split: option.splits)
qed

lemma split_lines_strip: "split_lines_loop full False p = map RemoveLineEnding (split_lines_loop full True p)"
proof (induction full "False" p rule: split_lines_loop.induct)
  case (1 full p)
  then show ?case
    by (auto simp: split_lines_loop.simps [of full _ p] Let_def split: option.splits)
qed

lemma split_lines_lines: "x \<in> set (split_lines_loop full True p) \<Longrightarrow> CHR 0x0A \<notin> set (butlast x) \<and> x \<noteq> []"
proof (induction full "True" p rule: split_lines_loop.induct)
  case (1 full p)
  show ?case
  proof (cases "StringPiece_find_char full CHR 0x0A p")
    case None
    then have "CHR 0x0A \<notin> set (drop p full)"
      using find_char.complete [OF None] set_drop_nth [of _ p full] by metis
    then show ?thesis
      using 1(2) None by (auto simp: split_lines_loop.simps [of full True p] dest: in_set_butlastD split: if_splits)
  next
    case (Some e)
    note f = find_char.sound [OF Some]
    have "slice full p (Suc (e - p)) = slice full p (e - p) @ [full ! e]"
      using f take_Suc_conv_app_nth [of "e - p" "drop p full"] by (simp add: slice_def diff_less_mono)
    moreover have "CHR 0x0A \<notin> set (slice full p (e - p))"
      using f set_slice [of "CHR 0x0A" full p "e - p"] by auto
    ultimately show ?thesis
      using 1 Some by (auto simp: split_lines_loop.simps [of full True p] Let_def)
  qed
qed

text \<open>
  C30: the lines of \<^verbatim>\<open>SplitLines\<close> with their endings kept concatenate to the text, a newline occurs in them
  only at the end, and without endings they are those lines with the trailing carriage returns and newlines taken off.
\<close>

theorem SplitLines_correct:
  "concat (SplitLines full True) = full \<and>
   list_all (\<lambda>x. x \<noteq> [] \<and> CHR 0x0A \<notin> set (butlast x)) (SplitLines full True) \<and>
   SplitLines full False =
     map (\<lambda>x. rev (dropWhile (\<lambda>c. c = CHR 0x0D \<or> c = CHR 0x0A) (rev x))) (SplitLines full True)"
  using split_lines_lines [of _ full 0]
  by (simp add: SplitLines_def split_lines_keep split_lines_strip RemoveLineEnding_def DoRemoveLineEnding_eq list_all_iff)

end
