(* ===== verification/String_Algorithm.thy ===== *)
theory String_Algorithm
  imports String_Split
begin

text \<open>
  The rest of the string functions of \<^verbatim>\<open>common/base/string/algorithm.h\<close> and \<^verbatim>\<open>algorithm.cpp\<close>: replacing,
  removing and trimming. Functions that the source gives twice, as a copying and as an in-place overload, are modelled
  twice and shown equivalent; the loops that may run forever are partial functions.
\<close>

section \<open>Replacing\<close>

text \<open>
  \<^verbatim>\<open>std::string::find\<close> and \<^verbatim>\<open>std::string::replace\<close> on a range that \<open>find\<close> returned.
\<close>

definition std_find :: "string \<Rightarrow> string \<Rightarrow> nat \<Rightarrow> nat option" where
  "std_find s t pos = find (\<lambda>i. slice s i (length t) = t) [pos ..< Suc (length s) - length t]"

definition std_replace :: "string \<Rightarrow> nat \<Rightarrow> nat \<Rightarrow> string \<Rightarrow> string" where
  "std_replace s pos n t = take pos s @ t @ drop (pos + n) s"

definition ReplaceFirst :: "string \<Rightarrow> string \<Rightarrow> string \<Rightarrow> string" where
  "ReplaceFirst s oldsub newsub =
     (if oldsub = [] then s
      else (case StringPiece_find s oldsub 0 of
              None \<Rightarrow> s
            | Some pos \<Rightarrow> slice s 0 pos @ newsub @ slice s (pos + length oldsub) (length s - pos - length oldsub)))"

definition ReplaceFirst_inplace :: "string \<Rightarrow> string \<Rightarrow> string \<Rightarrow> string" where
  "ReplaceFirst_inplace s from to =
     (if from = to \<or> from = [] then s
      else (case std_find s from 0 of
              None \<Rightarrow> s
            | Some pos \<Rightarrow> std_replace s pos (length from) to))"

function ReplaceAll_loop :: "string \<Rightarrow> string \<Rightarrow> string \<Rightarrow> nat \<Rightarrow> string \<Rightarrow> string" where
  "ReplaceAll_loop s oldsub newsub start_pos res =
     (if oldsub = [] then res
      else (case StringPiece_find s oldsub start_pos of
              None \<Rightarrow> res @ slice s start_pos (length s - start_pos)
            | Some pos \<Rightarrow>
                ReplaceAll_loop s oldsub newsub (pos + length oldsub)
                  (res @ slice s start_pos (pos - start_pos) @ newsub)))"
  by pat_completeness auto

termination
proof (relation "measure (\<lambda>(s, t, n, p, r). Suc (length s) - p)", simp)
  fix s oldsub newsub res :: string and p pos :: nat
  assume "oldsub \<noteq> []" "StringPiece_find s oldsub p = Some pos"
  moreover from this have "p \<le> pos" "pos + length oldsub \<le> length s" "0 < length oldsub"
    using StringPiece_find_Some by auto
  ultimately show "((s, oldsub, newsub, pos + length oldsub, res @ slice s p (pos - p) @ newsub), s, oldsub, newsub, p, res)
      \<in> measure (\<lambda>(s, t, n, p, r). Suc (length s) - p)"
    by (cases oldsub) auto
qed

declare ReplaceAll_loop.simps [simp del]

definition ReplaceAll :: "string \<Rightarrow> string \<Rightarrow> string \<Rightarrow> string" where
  "ReplaceAll s oldsub newsub = (if oldsub = [] then s else ReplaceAll_loop s oldsub newsub 0 [])"

partial_function (option) ReplaceAll_inplace_loop :: "string \<Rightarrow> string \<Rightarrow> string \<Rightarrow> nat \<Rightarrow> string option" where
  "ReplaceAll_inplace_loop s from to pos =
     (case std_find s from pos of
        None \<Rightarrow> Some s
      | Some p \<Rightarrow> ReplaceAll_inplace_loop (std_replace s p (length from) to) from to (p + length to))"

definition ReplaceAll_inplace :: "string \<Rightarrow> string \<Rightarrow> string \<Rightarrow> string option" where
  "ReplaceAll_inplace s from to = ReplaceAll_inplace_loop s from to 0"

text \<open>\<^verbatim>\<open>StringReplace\<close> searches again from where it replaced, so that it sees what it has put there.\<close>

partial_function (option) StringReplace_loop :: "string \<Rightarrow> string \<Rightarrow> string \<Rightarrow> nat \<Rightarrow> string option" where
  "StringReplace_loop str from to pos =
     (case std_find str from pos of
        None \<Rightarrow> Some str
      | Some p \<Rightarrow> StringReplace_loop (std_replace str p (length from) to) from to p)"

definition StringReplace :: "string \<Rightarrow> string \<Rightarrow> string \<Rightarrow> string option" where
  "StringReplace str from to = (if from = to then Some str else StringReplace_loop str from to 0)"

definition StringReplaceNonRec :: "string \<Rightarrow> string \<Rightarrow> string \<Rightarrow> string option" where
  "StringReplaceNonRec str from to = (if from = to then Some str else ReplaceAll_inplace str from to)"

text \<open>The in-place form returns the number of replaced bytes as well.\<close>

function ReplaceAllChars_loop :: "string \<Rightarrow> string \<Rightarrow> char \<Rightarrow> nat \<Rightarrow> nat \<Rightarrow> string \<times> nat" where
  "ReplaceAllChars_loop s from to i num_replaced =
     (if i < length s then
        (if StringPiece_find_char from (s ! i) 0 \<noteq> None
         then ReplaceAllChars_loop (s[i := to]) from to (i + 1) (num_replaced + 1)
         else ReplaceAllChars_loop s from to (i + 1) num_replaced)
      else (s, num_replaced))"
  by pat_completeness auto

termination
  by (relation "measure (\<lambda>(s, f, t, i, n). length s - i)") auto

declare ReplaceAllChars_loop.simps [simp del]

definition ReplaceAllChars_inplace :: "string \<Rightarrow> string \<Rightarrow> char \<Rightarrow> string \<times> nat" where
  "ReplaceAllChars_inplace s from to = ReplaceAllChars_loop s from to 0 0"

definition ReplaceAllChars :: "string \<Rightarrow> string \<Rightarrow> char \<Rightarrow> string" where
  "ReplaceAllChars s from to = fst (ReplaceAllChars_inplace s from to)"

text \<open>\<^verbatim>\<open>strpbrk\<close> from the position \<open>i\<close> of a string, which a null byte ends; then the loop over it.\<close>

definition strpbrk :: "string \<Rightarrow> string \<Rightarrow> nat \<Rightarrow> nat option" where
  "strpbrk s accept i =
     find (\<lambda>k. s ! k \<in> set (c_str accept)) [i ..< i + length (c_str (drop i s))]"

lemma find_upt: "find P [i ..< n] = Some k \<Longrightarrow> i \<le> k \<and> k < n \<and> P k \<and> (\<forall>j. i \<le> j \<longrightarrow> j < k \<longrightarrow> \<not> P j)"
  by (auto simp: find_Some_iff) (metis add_diff_inverse_nat linorder_not_le nat_add_left_cancel_less)

lemma find_upt_None: "find P [i ..< n] = None \<Longrightarrow> i \<le> k \<Longrightarrow> k < n \<Longrightarrow> \<not> P k"
  by (auto simp: find_None_iff)

function StripString_loop :: "string \<Rightarrow> string \<Rightarrow> char \<Rightarrow> nat option \<Rightarrow> string" where
  "StripString_loop s remove r None = s"
| "StripString_loop s remove r (Some str) =
     (if str < length s
      then StripString_loop (s[str := r]) remove r (strpbrk (s[str := r]) remove (str + 1)) else s)"
  by pat_completeness auto

termination
proof (relation "measure (\<lambda>(s, m, r, i). case i of None \<Rightarrow> 0 | Some k \<Rightarrow> Suc (length s) - k)", simp)
  fix s remove :: string and r :: char and k :: nat
  assume k: "k < length s"
  have "k < m" if "strpbrk (s[k := r]) remove (k + 1) = Some m" for m
    using find_upt [OF that [unfolded strpbrk_def]] by simp
  with k show "((s[k := r], remove, r, strpbrk (s[k := r]) remove (k + 1)), s, remove, r, Some k)
      \<in> measure (\<lambda>(s, m, r, i). case i of None \<Rightarrow> 0 | Some k \<Rightarrow> Suc (length s) - k)"
    by (cases "strpbrk (s[k := r]) remove (k + 1)") auto
qed

declare StripString_loop.simps [simp del]

definition StripString :: "string \<Rightarrow> string \<Rightarrow> char \<Rightarrow> string" where
  "StripString s remove replacewith = StripString_loop s remove replacewith (strpbrk s remove 0)"

section \<open>Removing\<close>

function RemoveContinuousBlank_loop :: "string \<Rightarrow> bool \<Rightarrow> nat \<Rightarrow> nat \<Rightarrow> string result" where
  "RemoveContinuousBlank_loop str first_blank end_pos start_pos =
     (if start_pos < length str then
        bindR (checked_nth str start_pos) (\<lambda>c.
          if c \<noteq> CHR '' '' then
            if end_pos < length str
            then RemoveContinuousBlank_loop (str[end_pos := c]) True (end_pos + 1) (start_pos + 1)
            else Inl Exception_thrown
          else if first_blank then
            if end_pos < length str
            then RemoveContinuousBlank_loop (str[end_pos := c]) False (end_pos + 1) (start_pos + 1)
            else Inl Exception_thrown
          else RemoveContinuousBlank_loop str first_blank end_pos (start_pos + 1))
      else Inr (take end_pos str))"
  by pat_completeness auto

termination
  by (relation "measure (\<lambda>(s, f, e, i). length s - i)") auto

declare RemoveContinuousBlank_loop.simps [simp del]

definition RemoveContinuousBlank :: "string \<Rightarrow> string result" where
  "RemoveContinuousBlank str = RemoveContinuousBlank_loop str True 0 0"

definition RemoveFirst :: "string \<Rightarrow> string \<Rightarrow> bool \<Rightarrow> string" where
  "RemoveFirst s substr fill_blank =
     (if fill_blank then ReplaceFirst s substr '' '' else ReplaceFirst s substr [])"

definition RemoveAll :: "string \<Rightarrow> string \<Rightarrow> bool \<Rightarrow> string" where
  "RemoveAll s substr fill_blank =
     (if fill_blank then ReplaceAll s substr '' '' else ReplaceAll s substr [])"

section \<open>Trimming\<close>

function trim_left_loop :: "string \<Rightarrow> nat \<Rightarrow> nat" where
  "trim_left_loop str start_pos =
     (if start_pos < length str \<and> Ascii_IsSpace (str ! start_pos) then trim_left_loop str (start_pos + 1)
      else start_pos)"
  by pat_completeness auto

termination
  by (relation "measure (\<lambda>(s, i). length s - i)") auto

declare trim_left_loop.simps [simp del]

definition StringTrimLeft :: "string \<Rightarrow> string" where
  "StringTrimLeft str = drop (trim_left_loop str 0) str"

function trim_right_loop :: "string \<Rightarrow> int \<Rightarrow> int" where
  "trim_right_loop str end_pos =
     (if end_pos \<ge> 0 \<and> Ascii_IsSpace (str ! nat end_pos) then trim_right_loop str (end_pos - 1) else end_pos)"
  by pat_completeness auto

termination
  by (relation "measure (\<lambda>(s, i). nat (i + 1))") auto

declare trim_right_loop.simps [simp del]

text \<open>
  \<^verbatim>\<open>end_pos\<close> is an \<^verbatim>\<open>int\<close>: the length is converted, and \<^verbatim>\<open>end_pos + 1\<close> becomes a \<^verbatim>\<open>size_t\<close> in the
  call of \<^verbatim>\<open>substr\<close>.
\<close>

definition StringTrimRight :: "string \<Rightarrow> string result" where
  "StringTrimRight str =
     bindR (checked_int32 (int32_of (length str) - 1)) (\<lambda>end_pos.
       let end_pos = trim_right_loop str end_pos
       in Inr (take (nat ((end_pos + 1) mod 2 ^ 64)) str))"

text \<open>The second loop of \<^verbatim>\<open>DoStringTrim\<close> has no lower bound: passing zero is an access out of bounds.\<close>

fun trim_end_loop :: "string \<Rightarrow> nat \<Rightarrow> nat result" where
  "trim_end_loop str end_pos =
     bindR (checked_nth str end_pos) (\<lambda>c.
       if Ascii_IsSpace c then (case end_pos of 0 \<Rightarrow> Inl Out_of_bounds | Suc e \<Rightarrow> trim_end_loop str e)
       else Inr end_pos)"

declare trim_end_loop.simps [simp del]

definition DoStringTrim :: "string \<Rightarrow> string result" where
  "DoStringTrim str =
     (let start_pos = trim_left_loop str 0; end_pos = length str
      in if start_pos = end_pos then Inr []
         else bindR (trim_end_loop str (end_pos - 1)) (\<lambda>end_pos.
           Inr (slice str start_pos (end_pos - start_pos + 1))))"

definition StringTrim :: "string \<Rightarrow> string result" where
  "StringTrim str = DoStringTrim str"

definition StringTrimLeft_chars :: "string \<Rightarrow> string \<Rightarrow> string" where
  "StringTrimLeft_chars str trim_value =
     (case StringPiece_find_first_not_of str trim_value 0 of
        Some start_pos \<Rightarrow> drop start_pos str
      | None \<Rightarrow> [])"

definition StringTrimRight_chars :: "string \<Rightarrow> string \<Rightarrow> string" where
  "StringTrimRight_chars str trim_value =
     (case StringPiece_find_last_not_of str trim_value (length str) of
        Some end_pos \<Rightarrow> take (end_pos + 1) str
      | None \<Rightarrow> [])"

definition StringTrim_chars :: "string \<Rightarrow> string \<Rightarrow> string" where
  "StringTrim_chars str trim_value =
     (let start_pos = StringPiece_find_first_not_of str trim_value 0;
          end_pos = StringPiece_find_last_not_of str trim_value (length str)
      in case start_pos of
           None \<Rightarrow> []
         | Some b \<Rightarrow> slice str b ((case end_pos of Some e \<Rightarrow> e | None \<Rightarrow> 2 ^ 64 - 1) - b + 1))"

definition LTrimString :: "string \<Rightarrow> string" where
  "LTrimString str = StringTrimLeft str"

definition RTrimString :: "string \<Rightarrow> string result" where
  "RTrimString str = StringTrimRight str"

definition TrimString :: "string \<Rightarrow> string result" where
  "TrimString str = StringTrim str"

section \<open>Predicates, prefixes and suffixes\<close>

fun white_loop :: "string \<Rightarrow> nat" where
  "white_loop [] = 0"
| "white_loop (c # s) = (if Ascii_IsSpace c then Suc (white_loop s) else 0)"

definition IsWhiteString :: "string \<Rightarrow> bool" where
  "IsWhiteString str = (let str = c_str str in white_loop str = length str)"

fun IsCharInString :: "char \<Rightarrow> string \<Rightarrow> bool" where
  "IsCharInString c [] = False"
| "IsCharInString c (d # str) = (if d = c then True else IsCharInString c str)"

definition StringStartsWith :: "string \<Rightarrow> string \<Rightarrow> bool result" where
  "StringStartsWith str prefix = StringPiece_starts_with str prefix"

definition StringEndsWith :: "string \<Rightarrow> string \<Rightarrow> bool result" where
  "StringEndsWith str suffix = StringPiece_ends_with str suffix"

definition StringEqual :: "string \<Rightarrow> string \<Rightarrow> bool result" where
  "StringEqual s1 s2 = (if length s1 = length s2 then MemoryEqual s1 s2 (length s1) else Inr False)"

definition StringRemovePrefix :: "string \<Rightarrow> string \<Rightarrow> string result" where
  "StringRemovePrefix str prefix =
     bindR (StringStartsWith str prefix) (\<lambda>b.
       Inr (if b then StringPiece_substr str (length prefix) (length str) else str))"

definition StringRemovePrefix_inplace :: "string \<Rightarrow> string \<Rightarrow> (bool \<times> string) result" where
  "StringRemovePrefix_inplace str prefix =
     bindR (StringStartsWith str prefix) (\<lambda>b.
       Inr (if b then (True, std_replace str 0 (length prefix) []) else (False, str)))"

definition StringRemoveSuffix :: "string \<Rightarrow> string \<Rightarrow> string result" where
  "StringRemoveSuffix str suffix =
     bindR (StringEndsWith str suffix) (\<lambda>b.
       Inr (if b then StringPiece_substr str 0 (length str - length suffix) else str))"

definition StringRemoveSuffix_inplace :: "string \<Rightarrow> string \<Rightarrow> (bool \<times> string) result" where
  "StringRemoveSuffix_inplace str suffix =
     bindR (StringEndsWith str suffix) (\<lambda>b.
       Inr (if b then (True, std_replace str (length str - length suffix) (length suffix) []) else (False, str)))"

definition ContainsSubString :: "string \<Rightarrow> string \<Rightarrow> bool" where
  "ContainsSubString str sub = (StringPiece_find str sub 0 \<noteq> None)"

definition c_toupper :: "char \<Rightarrow> char" where
  "c_toupper c = (if 97 \<le> code c \<and> code c \<le> 122 then char_of (code c - 32) else c)"

definition StringToUpper :: "string \<Rightarrow> string" where
  "StringToUpper s = map c_toupper s"

definition StringToLower :: "string \<Rightarrow> string" where
  "StringToLower s = map c_tolower s"

definition UpperString :: "string \<Rightarrow> string" where
  "UpperString s = StringToUpper s"

section \<open>Replacing is splitting and joining\<close>

lemma std_find_laws:
  "std_find s t p = Some i \<Longrightarrow> occurs_at s t i \<and> p \<le> i \<and> (\<forall>j. p \<le> j \<longrightarrow> j < i \<longrightarrow> \<not> occurs_at s t j)"
  "std_find s t p = None \<Longrightarrow> p \<le> j \<Longrightarrow> \<not> occurs_at s t j"
proof -
  assume "std_find s t p = Some i"
  then show "occurs_at s t i \<and> p \<le> i \<and> (\<forall>j. p \<le> j \<longrightarrow> j < i \<longrightarrow> \<not> occurs_at s t j)"
    using find_upt [of "\<lambda>i. slice s i (length t) = t" p "Suc (length s) - length t" i]
    by (simp add: std_find_def occurs_at_def) linarith
next
  assume n: "std_find s t p = None" and j: "p \<le> j"
  show "\<not> occurs_at s t j"
  proof
    assume o: "occurs_at s t j"
    then have "j < Suc (length s) - length t"
      by (simp add: occurs_at_def) linarith
    then show False
      using find_upt_None [OF n [unfolded std_find_def] j] o by (simp add: occurs_at_def)
  qed
qed

lemma std_find_eq: "std_find s t p = StringPiece_find s t p"
proof (cases "std_find s t p")
  case None
  then show ?thesis
    using std_find_laws(2) [OF None] StringPiece_find_laws(1) [of s t p] by (cases "StringPiece_find s t p") auto
next
  case (Some k)
  note k = std_find_laws(1) [OF Some]
  show ?thesis
  proof (cases "StringPiece_find s t p")
    case None
    then show ?thesis
      using StringPiece_find_laws(2) [OF None] k by blast
  next
    case (Some m)
    then show ?thesis
      using StringPiece_find_laws(1) [OF Some] k \<open>std_find s t p = Some k\<close> by (metis linorder_neqE_nat)
  qed
qed

lemma ReplaceAll_loop_join:
  assumes "old \<noteq> []"
  shows "ReplaceAll_loop s old new p res = res @ JoinStrings (keep_string_loop s old p) new"
  using assms
proof (induction s old new p res rule: ReplaceAll_loop.induct)
  case (1 s old new p res)
  show ?case
  proof (cases "StringPiece_find s old p")
    case None
    then show ?thesis
      using 1(2) by (simp add: ReplaceAll_loop.simps [of s] keep_string_loop.simps [of s] slice_def)
  next
    case (Some pos)
    then show ?thesis
      using 1(1) [OF 1(2) Some 1(2)] 1(2) keep_string_loop_laws [OF 1(2), of s "pos + length old"]
      by (simp add: ReplaceAll_loop.simps [of s old new p] keep_string_loop.simps [of s old p] JoinStrings_Cons)
  qed
qed

text \<open>
  C24: replacing every occurrence of a non-empty pattern is splitting at it and joining the fields with the replacement.
\<close>

theorem ReplaceAll_split_join:
  assumes "old \<noteq> []"
  shows "ReplaceAll s old new = JoinStrings (SplitStringKeepEmpty s old) new"
  using assms by (simp add: ReplaceAll_def ReplaceAll_loop_join SplitStringKeepEmpty_eq)

theorem ReplaceAll_split_join_witness: "ReplaceAll ''a, b'' '', '' '';'' = JoinStrings [''a'', ''b''] '';''"
proof -
  have "SplitStringKeepEmpty ''a, b'' '', '' = [''a'', ''b'']"
    by code_simp
  then show ?thesis
    using ReplaceAll_split_join [of "'', ''" "''a, b''" "'';''"] by simp
qed

lemma occurs_at_append: "occurs_at (pre @ t) u (length pre + j) \<longleftrightarrow> occurs_at t u j"
  by (simp add: occurs_at_def slice_def)

lemma std_find_eqI:
  assumes "p \<le> i" "occurs_at s t i" "\<And>j. p \<le> j \<Longrightarrow> j < i \<Longrightarrow> \<not> occurs_at s t j"
  shows "std_find s t p = Some i"
proof (cases "std_find s t p")
  case None
  then show ?thesis
    using std_find_laws(2) [OF None] assms by blast
next
  case (Some k)
  then show ?thesis
    using std_find_laws(1) [OF Some] assms by (metis linorder_neqE_nat)
qed

lemma std_find_NoneI: "(\<And>j. p \<le> j \<Longrightarrow> \<not> occurs_at s t j) \<Longrightarrow> std_find s t p = None"
  using std_find_laws(1) [of s t p] by (cases "std_find s t p") auto

lemma std_find_append: "std_find (pre @ t) u (length pre) = map_option ((+) (length pre)) (std_find t u 0)"
proof (cases "std_find t u 0")
  case None
  have "\<not> occurs_at (pre @ t) u j" if "length pre \<le> j" for j
    using std_find_laws(2) [OF None, of "j - length pre"] occurs_at_append [of pre t u "j - length pre"] that by simp
  then show ?thesis
    using None by (simp add: std_find_NoneI)
next
  case (Some i)
  note f = std_find_laws(1) [OF Some]
  have "\<not> occurs_at (pre @ t) u j" if "length pre \<le> j" "j < length pre + i" for j
    using f occurs_at_append [of pre t u "j - length pre"] that by simp
  then have "std_find (pre @ t) u (length pre) = Some (length pre + i)"
    using f occurs_at_append [of pre t u i] by (intro std_find_eqI) simp_all
  then show ?thesis
    using Some by simp
qed

lemma std_find_drop: "p \<le> length s \<Longrightarrow> std_find s u p = map_option ((+) p) (std_find (drop p s) u 0)"
  using std_find_append [of "take p s" "drop p s" u] by simp

lemma ReplaceAll_inplace_join:
  assumes "old \<noteq> []" "p \<le> length s"
  shows "ReplaceAll_inplace_loop (pre @ drop p s) old new (length pre) =
    Some (pre @ JoinStrings (keep_string_loop s old p) new)"
  using assms
proof (induction s old p arbitrary: pre rule: keep_string_loop.induct)
  case (1 s old p)
  note f = std_find_append [of pre "drop p s" old] std_find_drop [OF 1(3), of old]
  show ?case
  proof (cases "StringPiece_find s old p")
    case None
    then show ?thesis
      using 1(2) f by (simp add: std_find_eq [of s] ReplaceAll_inplace_loop.simps [of "pre @ drop p s"]
          keep_string_loop.simps [of s])
  next
    case (Some pos)
    let ?pre = "pre @ slice s p (pos - p) @ new"
    have pos: "p \<le> pos" "pos + length old \<le> length s"
      using StringPiece_find_Some [OF Some] by auto
    have "std_find (pre @ drop p s) old (length pre) = Some (length pre + (pos - p))"
      using f Some pos by (cases "std_find (drop p s) old 0") (auto simp: std_find_eq [of s])
    moreover have "std_replace (pre @ drop p s) (length pre + (pos - p)) (length old) new =
        ?pre @ drop (pos + length old) s"
      using pos by (simp add: std_replace_def slice_def)
    moreover have "length ?pre = length pre + (pos - p) + length new"
      using pos by (simp add: slice_def)
    ultimately have "ReplaceAll_inplace_loop (pre @ drop p s) old new (length pre) =
        ReplaceAll_inplace_loop (?pre @ drop (pos + length old) s) old new (length ?pre)"
      by (simp add: ReplaceAll_inplace_loop.simps [of "pre @ drop p s"] add.assoc)
    then show ?thesis
      using 1(1) [OF 1(2) Some 1(2) pos(2), of ?pre] 1(2) Some keep_string_loop_laws [OF 1(2), of s "pos + length old"]
      by (simp add: keep_string_loop.simps [of s old p] JoinStrings_Cons)
  qed
qed

lemma std_find_empty: "p \<le> length s \<Longrightarrow> std_find s [] p = Some p"
  by (rule std_find_eqI) (simp_all add: occurs_at_def slice_def)

lemma ReplaceAll_inplace_diverges:
  assumes "p \<le> length s"
  shows "ReplaceAll_inplace_loop s [] new p = None"
proof -
  have "f = [] \<longrightarrow> p \<le> length s \<longrightarrow> False" if "ReplaceAll_inplace_loop s f new p = Some y" for s f p y
    by (rule ReplaceAll_inplace_loop.raw_induct [OF _ that, of "\<lambda>s old new p y. old = [] \<longrightarrow> p \<le> length s \<longrightarrow> False"])
      (fastforce simp: std_find_empty std_replace_def)
  then show ?thesis
    using assms by (cases "ReplaceAll_inplace_loop s [] new p") blast+
qed

text \<open>
  C14: the in-place \<^verbatim>\<open>ReplaceAll\<close> returns what the copying one returns for every non-empty pattern, and
  for the empty pattern, which the copying one leaves alone, it never returns.
\<close>

theorem ReplaceAll_inplace_equiv:
  "ReplaceAll_inplace s old to = (if old = [] then None else Some (ReplaceAll s old to))"
  using ReplaceAll_inplace_join [of old 0 s "[]" to] ReplaceAll_inplace_diverges [of 0 s to]
  by (simp add: ReplaceAll_inplace_def ReplaceAll_def ReplaceAll_loop_join)

section \<open>Replacing again\<close>

lemma StringReplace_loop_returns:
  assumes "length to < length old"
  shows "\<exists>r. StringReplace_loop str old to pos = Some r \<and> length r \<le> length str"
proof (induction "length str" arbitrary: str pos rule: less_induct)
  case less
  show ?case
  proof (cases "std_find str old pos")
    case None
    then show ?thesis
      by (simp add: StringReplace_loop.simps [of str])
  next
    case (Some p)
    have "p + length old \<le> length str"
      using std_find_laws(1) [OF Some] by (simp add: occurs_at_def)
    then have shorter: "length (std_replace str p (length old) to) < length str"
      using assms by (simp add: std_replace_def)
    obtain r where "StringReplace_loop (std_replace str p (length old) to) old to p = Some r"
      "length r \<le> length (std_replace str p (length old) to)"
      using less [OF shorter] by blast
    then show ?thesis
      using Some shorter by (simp add: StringReplace_loop.simps [of str])
  qed
qed

lemma StringReplace_loop_diverges:
  assumes "occurs_at to old k" "occurs_at str old j" "pos \<le> j"
  shows "StringReplace_loop str old to pos = None"
proof -
  have step: "\<exists>p. std_find s old q = Some p \<and> occurs_at (std_replace s p (length old) to) old (p + k)"
    if h: "q \<le> j" "occurs_at s old j" for s q j
  proof -
    obtain p where p: "std_find s old q = Some p"
      using h std_find_laws(2) [of s old q j] by (cases "std_find s old q") auto
    then have "p + length old \<le> length s"
      using std_find_laws(1) [OF p] by (simp add: occurs_at_def)
    moreover from this have "p + k + length old \<le> length to + length s - length old"
      using assms(1) unfolding occurs_at_def by arith
    ultimately have "occurs_at (std_replace s p (length old) to) old (p + k)"
      using assms(1) by (simp add: std_replace_def occurs_at_def slice_def)
    with p show ?thesis
      by blast
  qed
  have "\<forall>j. f = old \<longrightarrow> t = to \<longrightarrow> q \<le> j \<longrightarrow> \<not> occurs_at s old j" if "StringReplace_loop s f t q = Some y" for s f t q y
  proof (rule StringReplace_loop.raw_induct [OF _ that,
        of "\<lambda>s f t q y. \<forall>j. f = old \<longrightarrow> t = to \<longrightarrow> q \<le> j \<longrightarrow> \<not> occurs_at s old j"])
    fix g s f t q y
    assume IH: "\<And>s f t q y. g s f t q = Some y \<Longrightarrow> \<forall>j. f = old \<longrightarrow> t = to \<longrightarrow> q \<le> j \<longrightarrow> \<not> occurs_at s old j"
      and e: "(case std_find s f q of None \<Rightarrow> Some s | Some p \<Rightarrow> g (std_replace s p (length f) t) f t p) = Some y"
    show "\<forall>j. f = old \<longrightarrow> t = to \<longrightarrow> q \<le> j \<longrightarrow> \<not> occurs_at s old j"
    proof (intro allI impI notI)
      fix j
      assume "f = old" "t = to" "q \<le> j" "occurs_at s old j"
      from step [OF this(3,4)] obtain p where p: "std_find s old q = Some p"
        "occurs_at (std_replace s p (length old) to) old (p + k)"
        by blast
      then have "g (std_replace s p (length old) to) old to p = Some y"
        using e \<open>f = old\<close> \<open>t = to\<close> by simp
      from IH [OF this] p(2) show False
        by simp
    qed
  qed
  then show ?thesis
    using assms(2,3) by (cases "StringReplace_loop str old to pos") auto
qed

text \<open>C28: \<^verbatim>\<open>StringReplace\<close> returns whenever the replacement is shorter than the pattern, with a text no longer
  than it was given.\<close>

theorem StringReplace_returns:
  assumes "length to < length old"
  shows "\<exists>r. StringReplace str old to = Some r \<and> length r \<le> length str"
  using StringReplace_loop_returns [OF assms, of str 0] assms by (auto simp: StringReplace_def)

theorem StringReplace_returns_witness: "\<exists>r. StringReplace ''thhe'' ''th'' ''t'' = Some r \<and> length r \<le> 4"
  using StringReplace_returns [of "''t''" "''th''" "''thhe''"] by (simp add: numeral_eq_Suc)

text \<open>C40: \<^verbatim>\<open>StringReplace\<close> never returns when the text contains the pattern and the replacement, other than the
  pattern itself, contains it too.\<close>

theorem StringReplace_diverges:
  assumes "occurs_at to old k" "occurs_at str old j" "old \<noteq> to"
  shows "StringReplace str old to = None"
  using StringReplace_loop_diverges [OF assms(1,2)] assms(3) by (simp add: StringReplace_def)

theorem StringReplace_diverges_witness: "StringReplace ''a'' ''a'' ''aa'' = None"
  by (rule StringReplace_diverges [of _ _ 0 _ 0]) (simp_all add: occurs_at_def slice_def)

section \<open>The overloads agree\<close>

text \<open>the in-place \<^verbatim>\<open>ReplaceFirst\<close> leaves the string that the copying one returns.\<close>

theorem ReplaceFirst_inplace_equiv: "ReplaceFirst_inplace s old new = ReplaceFirst s old new"
proof (cases "old = [] \<or> StringPiece_find s old 0 = None")
  case True
  then show ?thesis
    by (auto simp: ReplaceFirst_inplace_def ReplaceFirst_def std_find_eq)
next
  case False
  then obtain pos where pos: "StringPiece_find s old 0 = Some pos"
    by auto
  then have "s = slice s 0 pos @ old @ drop (pos + length old) s"
    using StringPiece_find_laws(1) [OF pos] occurs_at_split [of s old pos 0] by simp
  then show ?thesis
    using False pos by (auto simp: ReplaceFirst_inplace_def ReplaceFirst_def std_find_eq std_replace_def slice_def)
qed

lemma ReplaceAllChars_loop_eq:
  "i \<le> length s \<Longrightarrow> ReplaceAllChars_loop s old to i n =
     (take i s @ map (\<lambda>c. if c \<in> set old then to else c) (drop i s),
      n + length (filter (\<lambda>c. c \<in> set old) (drop i s)))"
proof (induction s old to i n rule: ReplaceAllChars_loop.induct)
  case (1 s old to i n)
  show ?case
  proof (cases "i < length s")
    case True
    have found: "StringPiece_find_char old (s ! i) 0 \<noteq> None \<longleftrightarrow> s ! i \<in> set old"
      using find_char.None_iff [of old "s ! i" 0] by (auto simp: in_set_conv_nth simp del: not_None_eq)
    have "drop i s = s ! i # drop (i + 1) s"
      using True by (simp add: Cons_nth_drop_Suc)
    then show ?thesis
      using 1(1) [OF True] 1(2) [OF True] True found
      by (cases "s ! i \<in> set old")
        (simp_all add: ReplaceAllChars_loop.simps [of s old to i n] take_Suc_conv_app_nth take_update_swap list_update_append)
  next
    case False
    then show ?thesis
      using 1(3) by (simp add: ReplaceAllChars_loop.simps [of s])
  qed
qed

text \<open>\<^verbatim>\<open>ReplaceAllChars\<close> replaces each byte of the set, and returns how many there were.\<close>

theorem ReplaceAllChars_correct:
  "ReplaceAllChars_inplace s old to =
     (map (\<lambda>c. if c \<in> set old then to else c) s, length (filter (\<lambda>c. c \<in> set old) s))"
  by (simp add: ReplaceAllChars_inplace_def ReplaceAllChars_loop_eq)

lemma c_str_cut:
  "k < length (c_str xs) \<Longrightarrow> c_str xs = take k xs @ xs ! k # c_str (drop (k + 1) xs)"
proof (induction xs arbitrary: k)
  case (Cons x xs)
  then show ?case
    by (cases k) (auto simp: c_str_def split: if_splits)
qed (simp add: c_str_def)

lemma c_str_le: "length (c_str xs) \<le> length xs"
  by (simp add: c_str_def length_takeWhile_le)

lemma StripString_loop_eq:
  assumes "i \<le> length s"
  shows "StripString_loop s m r (strpbrk s m i) =
    take i s @ map (\<lambda>c. if c \<in> set (c_str m) then r else c) (c_str (drop i s)) @ drop (i + length (c_str (drop i s))) s"
  using assms
proof (induction "length s - i" arbitrary: i s rule: less_induct)
  case less
  let ?f = "\<lambda>c. if c \<in> set (c_str m) then r else c" and ?n = "length (c_str (drop i s))"
  have n: "i + ?n \<le> length s"
    using c_str_le [of "drop i s"] less.prems by simp
  have nth: "c_str (drop i s) ! k = s ! (i + k)" if "k < ?n" for k
    using that less.prems by (simp add: c_str_def takeWhile_nth nth_drop)
  show ?case
  proof (cases "strpbrk s m i")
    case None
    have "map ?f (c_str (drop i s)) = c_str (drop i s)"
      using find_upt_None [OF None [unfolded strpbrk_def]] nth by (auto simp: in_set_conv_nth intro!: map_idI)
    moreover have "drop i s = c_str (drop i s) @ drop ?n (drop i s)"
      by (metis c_str_def dropWhile_eq_drop takeWhile_dropWhile_id)
    ultimately show ?thesis
      using None by (simp add: StripString_loop.simps) (metis add.commute append_take_drop_id)
  next
    case (Some k)
    note f = find_upt [OF Some [unfolded strpbrk_def]]
    have k: "i \<le> k" "k < i + ?n" "s ! k \<in> set (c_str m)"
      using f by simp_all
    have cut: "c_str (drop i s) = slice s i (k - i) @ s ! k # c_str (drop (k + 1) s)"
      using c_str_cut [of "k - i" "drop i s"] k less.prems by (simp add: slice_def add.commute less_diff_conv2)
    have keep: "map ?f (slice s i (k - i)) = slice s i (k - i)"
      using f set_slice [of _ s i "k - i"] n by (intro map_idI) fastforce
    have kn: "k < length s"
      using k n by simp
    let ?s = "s[k := r]"
    have "StripString_loop s m r (Some k) =
        take (k + 1) ?s @ map ?f (c_str (drop (k + 1) s)) @ drop (k + 1 + length (c_str (drop (k + 1) s))) s"
      using less.hyps [of ?s "k + 1"] k kn by (simp add: StripString_loop.simps)
    moreover have "take (k + 1) ?s = take i s @ slice s i (k - i) @ [r]"
      using k kn by (simp add: take_Suc_conv_app_nth slice_def take_add [symmetric])
    moreover have "i + ?n = k + 1 + length (c_str (drop (k + 1) s))"
      using k n by (simp add: cut slice_def)
    ultimately show ?thesis
      using Some k(3) keep by (simp add: cut add.assoc [symmetric])
  qed
qed

text \<open>
  \<^verbatim>\<open>StripString\<close> replaces the bytes of the set up to the first null byte, and no byte after it.
\<close>

theorem StripString_correct:
  "StripString s remove r =
     map (\<lambda>c. if c \<in> set (c_str remove) then r else c) (c_str s) @ drop (length (c_str s)) s"
  using StripString_loop_eq [of 0 s remove r] by (simp add: StripString_def)

section \<open>Blanks\<close>

text \<open>What the loop writes when it reads \<open>s\<close>.\<close>

fun squeeze :: "bool \<Rightarrow> string \<Rightarrow> string" where
  "squeeze first [] = []"
| "squeeze first (c # s) =
     (if c \<noteq> CHR '' '' then c # squeeze True s else if first then c # squeeze False s else squeeze False s)"

lemma RemoveContinuousBlank_loop_eq:
  "e \<le> i \<Longrightarrow> i \<le> length s \<Longrightarrow> RemoveContinuousBlank_loop s first e i = Inr (take e s @ squeeze first (drop i s))"
proof (induction "length s - i" arbitrary: s first e i)
  case 0
  then show ?case
    by (simp add: RemoveContinuousBlank_loop.simps [of s])
next
  case (Suc n)
  then have i: "i < length s" "e < length s" and d: "drop i s = s ! i # drop (i + 1) s"
    by (simp_all add: Cons_nth_drop_Suc)
  have "RemoveContinuousBlank_loop (s[e := s ! i]) b (e + 1) (i + 1) =
      Inr (take e s @ s ! i # squeeze b (drop (i + 1) s))" for b
    using Suc.hyps(1) [of "s[e := s ! i]" "i + 1" "e + 1" b] Suc.hyps(2) Suc.prems i
    by (simp add: take_Suc_conv_app_nth take_update_swap list_update_append)
  moreover have "RemoveContinuousBlank_loop s first e (i + 1) = Inr (take e s @ squeeze first (drop (i + 1) s))"
    using Suc.hyps(1) [of s "i + 1" e first] Suc.hyps(2) Suc.prems i by simp
  ultimately show ?case
    using i by (auto simp: RemoveContinuousBlank_loop.simps [of s first e i] d checked_nth_def)
qed

lemma squeeze_no_double:
  "successively (\<lambda>a b. \<not> (a = CHR '' '' \<and> b = CHR '' '')) (squeeze first s) \<and>
   (\<not> first \<longrightarrow> squeeze first s = [] \<or> hd (squeeze first s) \<noteq> CHR '' '')"
  by (induction first s rule: squeeze.induct) (auto simp: successively_Cons)

lemma squeeze_fields:
  "hd (split_by (\<lambda>c. c = CHR '' '') (squeeze True s)) = hd (split_by (\<lambda>c. c = CHR '' '') s) \<and>
   filter (\<lambda>x. x \<noteq> []) (tl (split_by (\<lambda>c. c = CHR '' '') (squeeze True s))) =
   filter (\<lambda>x. x \<noteq> []) (tl (split_by (\<lambda>c. c = CHR '' '') s)) \<and>
   runs (\<lambda>c. c = CHR '' '') (squeeze False s) = runs (\<lambda>c. c = CHR '' '') s"
  by (induction s) (simp_all add: runs_def)

text \<open>
  C29: \<^verbatim>\<open>RemoveContinuousBlank\<close> never indexes out of range, leaves no two blanks in a row, and keeps the words
  between the blanks.
\<close>

theorem RemoveContinuousBlank_correct:
  "\<exists>r. RemoveContinuousBlank s = Inr r \<and> successively (\<lambda>a b. \<not> (a = CHR '' '' \<and> b = CHR '' '')) r \<and>
     runs (\<lambda>c. c = CHR '' '') r = runs (\<lambda>c. c = CHR '' '') s"
proof (intro exI conjI)
  show "RemoveContinuousBlank s = Inr (squeeze True s)"
    by (simp add: RemoveContinuousBlank_def RemoveContinuousBlank_loop_eq)
  show "successively (\<lambda>a b. \<not> (a = CHR '' '' \<and> b = CHR '' '')) (squeeze True s)"
    using squeeze_no_double by blast
  show "runs (\<lambda>c. c = CHR '' '') (squeeze True s) = runs (\<lambda>c. c = CHR '' '') s"
  proof -
    have "filter Q xs = filter Q [hd xs] @ filter Q (tl xs)" if "xs \<noteq> []" for Q and xs :: "string list"
      using that by (cases xs) simp_all
    then show ?thesis
      using squeeze_fields [of s] unfolding runs_def by (metis split_by_not_Nil)
  qed
qed

section \<open>Trimming\<close>

definition rstrip :: "(char \<Rightarrow> bool) \<Rightarrow> string \<Rightarrow> string" where
  "rstrip P s = rev (dropWhile P (rev s))"

definition strip :: "(char \<Rightarrow> bool) \<Rightarrow> string \<Rightarrow> string" where
  "strip P s = rstrip P (dropWhile P s)"

lemma rstrip_snoc [simp]: "rstrip P (s @ [c]) = (if P c then rstrip P s else s @ [c])"
  by (simp add: rstrip_def)

lemma rstrip_Nil [simp]: "rstrip P [] = []"
  by (simp add: rstrip_def)

lemma rstrip_take:
  assumes "i < length s" "\<not> P (s ! i)" "\<And>j. i < j \<Longrightarrow> j < length s \<Longrightarrow> P (s ! j)"
  shows "rstrip P s = take (i + 1) s"
proof -
  have "rev s = rev (drop (i + 1) s) @ s ! i # rev (take i s)"
    using assms(1) by (metis Suc_eq_plus1 append_take_drop_id rev_append rev.simps(2) take_Suc_conv_app_nth append.assoc
        append_Cons append_Nil rev_rev_ident)
  moreover have "\<forall>x \<in> set (rev (drop (i + 1) s)). P x"
    using assms(3) set_drop_nth [of _ "i + 1" s] by fastforce
  ultimately have "dropWhile P (rev s) = s ! i # rev (take i s)"
    using assms(2) dropWhile_append2 [of "rev (drop (i + 1) s)" P "s ! i # rev (take i s)"] by simp
  then show ?thesis
    using assms(1) by (simp add: rstrip_def take_Suc_conv_app_nth)
qed

lemma rstrip_all: "\<forall>x \<in> set s. P x \<Longrightarrow> rstrip P s = []"
  by (simp add: rstrip_def)

lemma dropWhile_at:
  assumes "i < length s" "\<not> P (s ! i)" "\<And>j. j < i \<Longrightarrow> P (s ! j)"
  shows "dropWhile P s = drop i s"
proof -
  have "s = take i s @ drop i s" "drop i s = s ! i # drop (i + 1) s"
    using assms(1) by (simp_all add: Cons_nth_drop_Suc)
  moreover have "\<forall>x \<in> set (take i s). P x"
    using assms(1,3) by (auto simp: in_set_conv_nth)
  ultimately show ?thesis
    using assms(2) by (metis dropWhile.simps(2) dropWhile_append2)
qed

lemma trim_left_loop_drop: "drop (trim_left_loop s p) s = dropWhile Ascii_IsSpace (drop p s) \<and> trim_left_loop s p \<le> max p (length s)"
proof (induction s p rule: trim_left_loop.induct)
  case (1 s p)
  show ?case
  proof (cases "p < length s \<and> Ascii_IsSpace (s ! p)")
    case True
    then have "drop p s = s ! p # drop (p + 1) s"
      by (simp add: Cons_nth_drop_Suc)
    then show ?thesis
      using 1 True by (simp add: trim_left_loop.simps [of s p])
  next
    case False
    then have "dropWhile Ascii_IsSpace (drop p s) = drop p s"
      by (cases "p < length s") (simp_all add: Cons_nth_drop_Suc [symmetric])
    then show ?thesis
      using False by (auto simp: trim_left_loop.simps [of s p])
  qed
qed

lemma trim_right_loop_strip:
  "trim_right_loop (xs @ ys) (int (length xs) - 1) = int (length (rstrip Ascii_IsSpace xs)) - 1"
proof (induction xs arbitrary: ys rule: rev_induct)
  case Nil
  then show ?case
    by (simp add: trim_right_loop.simps)
next
  case (snoc c xs)
  then show ?case
    using snoc [of "c # ys"] by (simp add: trim_right_loop.simps [of "xs @ c # ys" "int (length xs)"])
qed

lemma length_rstrip: "length (rstrip P s) \<le> length s"
  by (simp add: rstrip_def length_dropWhile_le [of P "rev s", simplified])

lemma take_rstrip: "take (length (rstrip P s)) s = rstrip P s"
  by (induction s rule: rev_induct) (simp_all add: length_rstrip)

lemma StringTrimLeft_strip: "StringTrimLeft s = dropWhile Ascii_IsSpace s"
  using trim_left_loop_drop [of s 0] by (simp add: StringTrimLeft_def)

lemma StringTrimRight_strip:
  assumes "length s < 2 ^ 31"
  shows "StringTrimRight s = Inr (rstrip Ascii_IsSpace s)"
proof -
  have len: "int32_of (length s) = int (length s)" "- (2 ^ 31) \<le> int (length s) - 1" "int (length s) - 1 < 2 ^ 31"
    using assms by (simp_all add: int32_of_small)
  have "int (length (rstrip Ascii_IsSpace s)) < 2 ^ 64"
    using assms length_rstrip [of Ascii_IsSpace s] by simp
  then show ?thesis
    using len trim_right_loop_strip [of s "[]"]
    by (simp add: StringTrimRight_def checked_int32_def take_rstrip Let_def)
qed

lemma trim_end_loop_strip:
  "\<exists>x \<in> set xs. \<not> Ascii_IsSpace x \<Longrightarrow>
   trim_end_loop (xs @ ys) (length xs - 1) = Inr (length (rstrip Ascii_IsSpace xs) - 1)"
proof (induction xs arbitrary: ys rule: rev_induct)
  case (snoc c xs)
  show ?case
  proof (cases "Ascii_IsSpace c")
    case True
    then have "\<exists>x \<in> set xs. \<not> Ascii_IsSpace x"
      using snoc.prems by auto
    moreover from this obtain n where "length xs = Suc n"
      by (cases xs) auto
    ultimately show ?thesis
      using True snoc.IH [of "c # ys"] by (simp add: trim_end_loop.simps [of "xs @ c # ys" "Suc n"] checked_nth_def nth_append)
  qed (simp add: trim_end_loop.simps [of "xs @ c # ys" "length xs"] checked_nth_def)
qed simp

lemma rstrip_append: "\<exists>x \<in> set b. \<not> P x \<Longrightarrow> rstrip P (a @ b) = a @ rstrip P b"
  by (auto simp: rstrip_def dropWhile_append1)

lemma DoStringTrim_strip: "DoStringTrim s = Inr (strip Ascii_IsSpace s)"
proof -
  let ?p = "trim_left_loop s 0"
  have d: "drop ?p s = dropWhile Ascii_IsSpace s" and le: "?p \<le> length s"
    using trim_left_loop_drop [of s 0] by simp_all
  show ?thesis
  proof (cases "?p = length s")
    case True
    then show ?thesis
      using d by (simp add: DoStringTrim_def strip_def)
  next
    case False
    have ne: "dropWhile Ascii_IsSpace s \<noteq> []"
      unfolding d [symmetric] using False le by simp
    then have ex: "\<exists>x \<in> set (drop ?p s). \<not> Ascii_IsSpace x"
      unfolding d by (metis hd_dropWhile hd_in_set)
    then have ex_s: "\<exists>x \<in> set s. \<not> Ascii_IsSpace x"
      by (meson in_set_dropD)
    have r: "rstrip Ascii_IsSpace s = take ?p s @ strip Ascii_IsSpace s"
      using rstrip_append [OF ex, of "take ?p s"] by (simp add: strip_def d [symmetric])
    have pos: "0 < length (strip Ascii_IsSpace s)"
      using ex unfolding d strip_def rstrip_def by (auto simp: dropWhile_eq_Nil_conv)
    have "take (length (rstrip Ascii_IsSpace s)) s = take ?p s @ strip Ascii_IsSpace s"
      using take_rstrip r by metis
    then have "drop ?p (take (length (rstrip Ascii_IsSpace s)) s) = strip Ascii_IsSpace s"
      using le by simp
    then have "slice s ?p (length (strip Ascii_IsSpace s)) = strip Ascii_IsSpace s"
      using le by (simp add: r slice_def drop_take)
    then show ?thesis
      using False trim_end_loop_strip [OF ex_s, of "[]"] pos le
      by (simp add: DoStringTrim_def Let_def r)
  qed
qed

lemma find_first_not_of_cases:
  "case StringPiece_find_first_not_of s t 0 of
     None \<Rightarrow> \<forall>x \<in> set s. x \<in> set t
   | Some b \<Rightarrow> b < length s \<and> s ! b \<notin> set t \<and> dropWhile (\<lambda>c. c \<in> set t) s = drop b s"
proof (cases "t = []")
  case True
  then show ?thesis
    by (simp add: StringPiece_find_first_not_of_def)
next
  case False
  show ?thesis
  proof (cases "StringPiece_find_first_not_of s t 0")
    case None
    then have "\<forall>j < length s. s ! j \<in> set t"
      using False by (simp add: StringPiece_find_first_not_of_eq scan_up.None_iff)
    then show ?thesis
      using None by (simp add: all_set_conv_all_nth)
  next
    case (Some b)
    then have "b < length s" "s ! b \<notin> set t" "\<And>j. j < b \<Longrightarrow> s ! j \<in> set t"
      using False by (auto simp: StringPiece_find_first_not_of_eq scan_up.Some_iff)
    then show ?thesis
      using Some dropWhile_at [of b s "\<lambda>c. c \<in> set t"] by simp
  qed
qed

lemma find_last_not_of_cases:
  "case StringPiece_find_last_not_of s t (length s) of
     None \<Rightarrow> \<forall>x \<in> set s. x \<in> set t
   | Some e \<Rightarrow> e < length s \<and> s ! e \<notin> set t \<and> rstrip (\<lambda>c. c \<in> set t) s = take (e + 1) s"
proof (cases "StringPiece_find_last_not_of s t (length s)")
  case None
  then have "s ! j \<in> set t" if "j < length s" for j
    using find_last_not_of.None_iff [of s t "length s"] that by simp
  then show ?thesis
    using None by (simp add: all_set_conv_all_nth)
next
  case (Some e)
  then have "e < length s" "s ! e \<notin> set t" "\<And>j. e < j \<Longrightarrow> j < length s \<Longrightarrow> s ! j \<in> set t"
    using find_last_not_of.sound [OF Some] by auto
  then show ?thesis
    using Some rstrip_take [of e s "\<lambda>c. c \<in> set t"] by simp
qed

lemma StringTrim_chars_sides:
  "StringTrimLeft_chars s t = dropWhile (\<lambda>c. c \<in> set t) s" "StringTrimRight_chars s t = rstrip (\<lambda>c. c \<in> set t) s"
  using find_first_not_of_cases [of s t] find_last_not_of_cases [of s t]
  by (auto simp: StringTrimLeft_chars_def StringTrimRight_chars_def rstrip_all dropWhile_eq_Nil_conv [THEN iffD2]
      split: option.splits)

lemma StringTrim_chars_strip: "StringTrim_chars s t = strip (\<lambda>c. c \<in> set t) s"
proof (cases "StringPiece_find_first_not_of s t 0")
  case None
  then have "dropWhile (\<lambda>c. c \<in> set t) s = []"
    using find_first_not_of_cases [of s t] by simp
  then have "strip (\<lambda>c. c \<in> set t) s = []"
    unfolding strip_def by (simp only: rstrip_Nil)
  then show ?thesis
    using None by (simp add: StringTrim_chars_def)
next
  case (Some b)
  let ?P = "\<lambda>c. c \<in> set t"
  have b: "b < length s" "s ! b \<notin> set t" "dropWhile ?P s = drop b s"
    using find_first_not_of_cases [of s t] Some by simp_all
  obtain e where e: "StringPiece_find_last_not_of s t (length s) = Some e"
    using find_last_not_of_cases [of s t] b(1,2) by (auto split: option.splits)
  have r: "rstrip ?P s = take (e + 1) s"
    using find_last_not_of_cases [of s t] e by simp
  have "b \<le> e"
    using find_last_not_of.sound [OF e] b(1,2) by (metis not_le less_imp_le)
  have "s ! b \<in> set (drop b s)"
    using b(1) by (simp add: Cons_nth_drop_Suc [symmetric])
  then have "rstrip ?P s = take b s @ strip ?P s"
    using rstrip_append [of "drop b s" ?P "take b s"] b(2,3) by (auto simp: strip_def)
  then have "strip ?P s = drop b (take (e + 1) s)"
    using r b(1) by (metis add_diff_cancel_left' append_eq_conv_conj diff_zero length_take min.absorb2 less_imp_le)
  then show ?thesis
    using Some e \<open>b \<le> e\<close> by (simp add: StringTrim_chars_def slice_def drop_take Suc_diff_le)
qed

text \<open>
  C26: each trimming function removes the longest run of its bytes from its side or sides of the text, and the
  loop of \<^verbatim>\<open>StringTrim\<close> that has no lower bound never leaves the string. \<^verbatim>\<open>StringTrimRight\<close> for blanks,
  which counts in an \<^verbatim>\<open>int\<close>, does so for texts of fewer than \<open>2 ^ 31\<close> bytes.
\<close>

theorem StringTrim_correct:
  "StringTrim s = Inr (strip Ascii_IsSpace s) \<and> StringTrim_chars s t = strip (\<lambda>c. c \<in> set t) s \<and>
   StringTrimLeft s = dropWhile Ascii_IsSpace s \<and> StringTrimLeft_chars s t = dropWhile (\<lambda>c. c \<in> set t) s \<and>
   (length s < 2 ^ 31 \<longrightarrow> StringTrimRight s = Inr (rstrip Ascii_IsSpace s)) \<and>
   StringTrimRight_chars s t = rstrip (\<lambda>c. c \<in> set t) s"
  by (simp add: StringTrim_def DoStringTrim_strip StringTrim_chars_strip StringTrimLeft_strip StringTrimRight_strip
      StringTrim_chars_sides)

theorem StringTrim_correct_witness:
  "StringTrimRight '' a b '' = Inr '' a b'' \<and> StringTrim '' a b '' = Inr ''a b'' \<and> StringTrim_chars ''xayx'' ''xy'' = ''a''"
proof -
  have "rstrip Ascii_IsSpace '' a b '' = '' a b''" "strip Ascii_IsSpace '' a b '' = ''a b''"
    "strip (\<lambda>c. c \<in> set ''xy'') ''xayx'' = ''a''"
    by code_simp+
  then show ?thesis
    using StringTrim_correct [of "'' a b ''" "[]"] StringTrim_correct [of "''xayx''" "''xy''"] by simp
qed

section \<open>Prefixes and suffixes\<close>

text \<open>
  removing a prefix or suffix undoes putting it there, in both overloads.
\<close>

theorem StringRemove_roundtrip:
  "StringRemovePrefix (x @ s) x = Inr s \<and> StringRemovePrefix_inplace (x @ s) x = Inr (True, s) \<and>
   StringRemoveSuffix (s @ x) x = Inr s \<and> StringRemoveSuffix_inplace (s @ x) x = Inr (True, s)"
  by (auto simp: StringRemovePrefix_def StringRemovePrefix_inplace_def StringRemoveSuffix_def
      StringRemoveSuffix_inplace_def StringStartsWith_def StringEndsWith_def StringPiece_starts_with_eq
      StringPiece_ends_with_eq std_replace_def StringPiece_substr_def slice_def)

end
