(* ===== verification/String_Number.thy ===== *)
theory String_Number
  imports String_Split
begin

text \<open>
  Conversion between numbers and strings, from \<^verbatim>\<open>common/base/string/string_number.cpp\<close>. The C library's
  \<^verbatim>\<open>strtoll\<close> and \<^verbatim>\<open>strtoull\<close> are modelled from the C standard for every base; \<^verbatim>\<open>long\<close> has 64
  bits. The main results are that the printers produce the shortest decimal representation, that parsing
  undoes printing for every width, both except where a printer overflows an \<^verbatim>\<open>int\<close>, and that a parsed value
  always fits its type.
\<close>

section \<open>The C library's conversions\<close>

text \<open>\<^verbatim>\<open>errno\<close> is a number, zero when nothing has failed.\<close>

definition ERANGE :: nat where "ERANGE = 34"

definition EINVAL :: nat where "EINVAL = 22"

definition digit_of :: "char \<Rightarrow> nat" where
  "digit_of c =
     (if c_isdigit c then code c - 48
      else if c_islower c then code c - 87
      else if c_isupper c then code c - 55
      else 36)"

definition value_of :: "nat \<Rightarrow> string \<Rightarrow> nat" where
  "value_of base ds = foldl (\<lambda>n c. n * base + digit_of c) 0 ds"

text \<open>White space and a sign in front: the bytes they take, and the sign.\<close>

definition strto_sign :: "string \<Rightarrow> nat \<times> bool" where
  "strto_sign s =
     (let ws = length (takeWhile c_isspace s)
      in case drop ws s of
           c # _ \<Rightarrow> if c = CHR ''-'' then (ws + 1, True) else if c = CHR ''+'' then (ws + 1, False) else (ws, False)
         | [] \<Rightarrow> (ws, False))"

definition has_hex_prefix :: "string \<Rightarrow> bool" where
  "has_hex_prefix s =
     (case s of
        a # x # d # _ \<Rightarrow> a = CHR ''0'' \<and> (x = CHR ''x'' \<or> x = CHR ''X'') \<and> digit_of d < 16
      | _ \<Rightarrow> False)"

text \<open>The sign, the magnitude and the number of bytes read, which is zero when there is no number.\<close>

definition strto_scan :: "string \<Rightarrow> nat \<Rightarrow> bool \<times> nat \<times> nat" where
  "strto_scan s base =
     (let (n, neg) = strto_sign s;
          body = drop n s;
          base' = (if base \<noteq> 0 then base
                   else if has_hex_prefix body then 16
                   else if body \<noteq> [] \<and> hd body = CHR ''0'' then 8 else 10);
          n' = (if base' = 16 \<and> has_hex_prefix body then n + 2 else n);
          ds = takeWhile (\<lambda>c. digit_of c < base') (drop n' s)
      in if ds = [] then (False, 0, 0) else (neg, value_of base' ds, n' + length ds))"

definition valid_base :: "nat \<Rightarrow> bool" where
  "valid_base base \<longleftrightarrow> base = 0 \<or> (2 \<le> base \<and> base \<le> 36)"

text \<open>The value, the end position and the \<^verbatim>\<open>errno\<close> left by each call, which starts from zero.\<close>

definition strtoll :: "string \<Rightarrow> nat \<Rightarrow> int \<times> nat \<times> nat" where
  "strtoll s base =
     (if \<not> valid_base base then (0, 0, EINVAL)
      else (let (neg, m, e) = strto_scan s base; v = (if neg then - int m else int m)
            in if v < - (2 ^ 63) then (- (2 ^ 63), e, ERANGE)
               else if v > 2 ^ 63 - 1 then (2 ^ 63 - 1, e, ERANGE)
               else (v, e, 0)))"

definition strtoull :: "string \<Rightarrow> nat \<Rightarrow> int \<times> nat \<times> nat" where
  "strtoull s base =
     (if \<not> valid_base base then (0, 0, EINVAL)
      else (let (neg, m, e) = strto_scan s base
            in if m > 2 ^ 64 - 1 then (2 ^ 64 - 1, e, ERANGE)
               else ((if neg then - int m else int m) mod 2 ^ 64, e, 0)))"

section \<open>Parsing\<close>

text \<open>The integral types, by their limits and size in bytes.\<close>

record integral =
  ty_min :: int
  ty_max :: int
  ty_size :: nat

definition signed_ty :: "nat \<Rightarrow> integral" where
  "signed_ty n = \<lparr>ty_min = - (2 ^ (8 * n - 1)), ty_max = 2 ^ (8 * n - 1) - 1, ty_size = n\<rparr>"

definition unsigned_ty :: "nat \<Rightarrow> integral" where
  "unsigned_ty n = \<lparr>ty_min = 0, ty_max = 2 ^ (8 * n) - 1, ty_size = n\<rparr>"

text \<open>What a parser leaves: its result, the value if it was stored, the end position and \<^verbatim>\<open>errno\<close>.\<close>

record parsed =
  p_ok :: bool
  p_value :: "int option"
  p_end :: nat
  p_errno :: nat

definition ParseBigPositiveNumber :: "integral \<Rightarrow> string \<Rightarrow> nat \<Rightarrow> nat \<Rightarrow> parsed" where
  "ParseBigPositiveNumber T str base old_errno =
     (let fail = (\<lambda>e err. \<lparr>p_ok = False, p_value = None, p_end = e, p_errno = err\<rparr>);
          finish = (\<lambda>v e. if e = 0 then fail e EINVAL
                          else \<lparr>p_ok = True, p_value = Some v, p_end = e, p_errno = old_errno\<rparr>);
          (number, e, err) = strtoll str base
      in if err \<noteq> 0 then
           if number = - (2 ^ 63) then fail e err
           else (let (big_number, e', err') = strtoull str base
                 in if err' \<noteq> 0 then fail e' err'
                    else if big_number > ty_max T then fail e' ERANGE
                    else finish big_number e')
         else if number < 0 \<or> number > ty_max T then fail e ERANGE
         else finish number e)"

text \<open>The intermediate type is \<^verbatim>\<open>long\<close> or \<^verbatim>\<open>long long\<close>, eight bytes wide.\<close>

definition ParseNumberT :: "integral \<Rightarrow> string \<Rightarrow> nat \<Rightarrow> nat \<Rightarrow> parsed" where
  "ParseNumberT T str base old_errno =
     (let (number, e, err) = strtoll str base
      in if err \<noteq> 0 then \<lparr>p_ok = False, p_value = None, p_end = e, p_errno = err\<rparr>
         else if ty_size T < 8 \<and> (number > ty_max T \<or> number < ty_min T)
         then \<lparr>p_ok = False, p_value = None, p_end = e, p_errno = ERANGE\<rparr>
         else if e = 0 then \<lparr>p_ok = False, p_value = None, p_end = e, p_errno = EINVAL\<rparr>
         else \<lparr>p_ok = True, p_value = Some number, p_end = e, p_errno = old_errno\<rparr>)"

definition ParseNumber_schar :: "string \<Rightarrow> nat \<Rightarrow> nat \<Rightarrow> parsed" where
  "ParseNumber_schar = ParseNumberT (signed_ty 1)"

definition ParseNumber_uchar :: "string \<Rightarrow> nat \<Rightarrow> nat \<Rightarrow> parsed" where
  "ParseNumber_uchar = ParseNumberT (unsigned_ty 1)"

definition ParseNumber_short :: "string \<Rightarrow> nat \<Rightarrow> nat \<Rightarrow> parsed" where
  "ParseNumber_short = ParseNumberT (signed_ty 2)"

definition ParseNumber_ushort :: "string \<Rightarrow> nat \<Rightarrow> nat \<Rightarrow> parsed" where
  "ParseNumber_ushort = ParseNumberT (unsigned_ty 2)"

definition ParseNumber_int :: "string \<Rightarrow> nat \<Rightarrow> nat \<Rightarrow> parsed" where
  "ParseNumber_int = ParseNumberT (signed_ty 4)"

definition ParseNumber_uint :: "string \<Rightarrow> nat \<Rightarrow> nat \<Rightarrow> parsed" where
  "ParseNumber_uint = ParseNumberT (unsigned_ty 4)"

definition ParseNumber_long :: "string \<Rightarrow> nat \<Rightarrow> nat \<Rightarrow> parsed" where
  "ParseNumber_long = ParseNumberT (signed_ty 8)"

definition ParseNumber_ulong :: "string \<Rightarrow> nat \<Rightarrow> nat \<Rightarrow> parsed" where
  "ParseNumber_ulong = ParseBigPositiveNumber (unsigned_ty 8)"

definition ParseNumber_llong :: "string \<Rightarrow> nat \<Rightarrow> nat \<Rightarrow> parsed" where
  "ParseNumber_llong = ParseNumberT (signed_ty 8)"

definition ParseNumber_ullong :: "string \<Rightarrow> nat \<Rightarrow> nat \<Rightarrow> parsed" where
  "ParseNumber_ullong = ParseBigPositiveNumber (unsigned_ty 8)"

text \<open>
  \<^verbatim>\<open>StringToNumeric\<close> parses the C string of its argument and accepts it when the end position is the end
  of the string; the value is stored before that test. The form for \<^verbatim>\<open>uint64_t\<close> calls \<^verbatim>\<open>strtoull\<close>
  directly.
\<close>

definition StringToNumeric_with :: "(string \<Rightarrow> nat \<Rightarrow> nat \<Rightarrow> parsed) \<Rightarrow> string \<Rightarrow> nat \<Rightarrow> nat \<Rightarrow> bool \<times> int option" where
  "StringToNumeric_with parse s base errno =
     (let p = parse (c_str s) base errno
      in (p_ok p \<and> p_end p = length s, p_value p))"

definition StringToNumeric_int16 :: "string \<Rightarrow> nat \<Rightarrow> nat \<Rightarrow> bool \<times> int option" where
  "StringToNumeric_int16 = StringToNumeric_with ParseNumber_short"

definition StringToNumeric_int32 :: "string \<Rightarrow> nat \<Rightarrow> nat \<Rightarrow> bool \<times> int option" where
  "StringToNumeric_int32 = StringToNumeric_with ParseNumber_int"

definition StringToNumeric_int64 :: "string \<Rightarrow> nat \<Rightarrow> nat \<Rightarrow> bool \<times> int option" where
  "StringToNumeric_int64 = StringToNumeric_with ParseNumber_long"

definition StringToNumeric_uint16 :: "string \<Rightarrow> nat \<Rightarrow> nat \<Rightarrow> bool \<times> int option" where
  "StringToNumeric_uint16 = StringToNumeric_with ParseNumber_ushort"

definition StringToNumeric_uint32 :: "string \<Rightarrow> nat \<Rightarrow> nat \<Rightarrow> bool \<times> int option" where
  "StringToNumeric_uint32 = StringToNumeric_with ParseNumber_uint"

definition StringToNumeric_uint64 :: "string \<Rightarrow> nat \<Rightarrow> nat \<Rightarrow> bool \<times> int option" where
  "StringToNumeric_uint64 s base errno =
     (let (value, e, err) = strtoull (c_str s) base
      in if (err = ERANGE \<and> (value = 2 ^ 64 - 1 \<or> value = 0)) \<or> (err \<noteq> 0 \<and> value = 0) then (False, None)
         else if e = 0 \<or> e \<noteq> length s then (False, None)
         else (True, Some value))"

section \<open>Printing in hexadecimal\<close>

definition hexdigits :: string where "hexdigits = ''0123456789abcdef''"

fun UIntToHex_loop :: "nat \<Rightarrow> 64 word \<Rightarrow> string \<Rightarrow> string result" where
  "UIntToHex_loop 0 value buffer = Inr buffer"
| "UIntToHex_loop (Suc i) value buffer =
     (if i < length buffer
      then UIntToHex_loop i (drop_bit 4 value) (buffer[i := hexdigits ! unat ((ucast value :: 32 word) AND 0xf)])
      else Inl Out_of_bounds)"

text \<open>The buffer and the number of bytes written.\<close>

definition UIntToHexBufferInternal :: "64 word \<Rightarrow> string \<Rightarrow> nat \<Rightarrow> (string \<times> nat) result" where
  "UIntToHexBufferInternal value buffer num_byte =
     bindR (UIntToHex_loop (2 * num_byte) value buffer) (\<lambda>buffer. Inr (buffer, 2 * num_byte))"

definition WriteHexUInt16ToBuffer :: "16 word \<Rightarrow> string \<Rightarrow> (string \<times> nat) result" where
  "WriteHexUInt16ToBuffer value buffer = UIntToHexBufferInternal (ucast value) buffer 2"

definition WriteHexUInt32ToBuffer :: "32 word \<Rightarrow> string \<Rightarrow> (string \<times> nat) result" where
  "WriteHexUInt32ToBuffer value buffer = UIntToHexBufferInternal (ucast value) buffer 4"

definition WriteHexUInt64ToBuffer :: "64 word \<Rightarrow> string \<Rightarrow> (string \<times> nat) result" where
  "WriteHexUInt64ToBuffer value buffer = UIntToHexBufferInternal value buffer 8"

text \<open>The forms that return a string have a buffer of their own, whose contents at the start do not matter.\<close>

definition UInt16ToHexString :: "16 word \<Rightarrow> string result" where
  "UInt16ToHexString value =
     bindR (WriteHexUInt16ToBuffer value (replicate 5 NUL)) (\<lambda>(buffer, n). Inr (take n buffer))"

definition UInt32ToHexString :: "32 word \<Rightarrow> string result" where
  "UInt32ToHexString value =
     bindR (WriteHexUInt32ToBuffer value (replicate 9 NUL)) (\<lambda>(buffer, n). Inr (take n buffer))"

definition UInt64ToHexString :: "64 word \<Rightarrow> string result" where
  "UInt64ToHexString value =
     bindR (WriteHexUInt64ToBuffer value (replicate 17 NUL)) (\<lambda>(buffer, n). Inr (take n buffer))"

text \<open>The forms that are given a buffer put a null byte after the digits.\<close>

definition terminate_at :: "(string \<times> nat) result \<Rightarrow> string result" where
  "terminate_at r =
     bindR r (\<lambda>(buffer, n). if n < length buffer then Inr (buffer[n := NUL]) else Inl Out_of_bounds)"

definition UInt16ToHexString_buffer :: "16 word \<Rightarrow> string \<Rightarrow> string result" where
  "UInt16ToHexString_buffer value buffer = terminate_at (WriteHexUInt16ToBuffer value buffer)"

definition UInt32ToHexString_buffer :: "32 word \<Rightarrow> string \<Rightarrow> string result" where
  "UInt32ToHexString_buffer value buffer = terminate_at (WriteHexUInt32ToBuffer value buffer)"

definition UInt64ToHexString_buffer :: "64 word \<Rightarrow> string \<Rightarrow> string result" where
  "UInt64ToHexString_buffer value buffer = terminate_at (WriteHexUInt64ToBuffer value buffer)"

section \<open>Printing in decimal\<close>

definition two_ASCII_digits :: "string list" where
  "two_ASCII_digits =
     [''00'', ''01'', ''02'', ''03'', ''04'', ''05'', ''06'', ''07'', ''08'', ''09'',
      ''10'', ''11'', ''12'', ''13'', ''14'', ''15'', ''16'', ''17'', ''18'', ''19'',
      ''20'', ''21'', ''22'', ''23'', ''24'', ''25'', ''26'', ''27'', ''28'', ''29'',
      ''30'', ''31'', ''32'', ''33'', ''34'', ''35'', ''36'', ''37'', ''38'', ''39'',
      ''40'', ''41'', ''42'', ''43'', ''44'', ''45'', ''46'', ''47'', ''48'', ''49'',
      ''50'', ''51'', ''52'', ''53'', ''54'', ''55'', ''56'', ''57'', ''58'', ''59'',
      ''60'', ''61'', ''62'', ''63'', ''64'', ''65'', ''66'', ''67'', ''68'', ''69'',
      ''70'', ''71'', ''72'', ''73'', ''74'', ''75'', ''76'', ''77'', ''78'', ''79'',
      ''80'', ''81'', ''82'', ''83'', ''84'', ''85'', ''86'', ''87'', ''88'', ''89'',
      ''90'', ''91'', ''92'', ''93'', ''94'', ''95'', ''96'', ''97'', ''98'', ''99'']"

text \<open>
  The blocks of \<^verbatim>\<open>OutputUInt32AsString\<close> that its \<^verbatim>\<open>goto\<close>s enter, last one first: what each appends
  for the current \<open>u\<close>, and for \<open>u\<close> and \<open>digits\<close> in the blocks that first subtract.
\<close>

definition ascii_digit :: "nat \<Rightarrow> char" where
  "ascii_digit digits = char_of (48 + digits)"

definition lt100 :: "nat \<Rightarrow> string" where
  "lt100 u = two_ASCII_digits ! u"

definition sublt100 :: "nat \<Rightarrow> nat \<Rightarrow> string" where
  "sublt100 u digits = lt100 (u - digits * 100)"

definition lt10_000 :: "nat \<Rightarrow> string" where
  "lt10_000 u = (let digits = u div 100 in two_ASCII_digits ! digits @ sublt100 u digits)"

definition sublt10_000 :: "nat \<Rightarrow> nat \<Rightarrow> string" where
  "sublt10_000 u digits = lt10_000 (u - digits * 10000)"

definition lt1_000_000 :: "nat \<Rightarrow> string" where
  "lt1_000_000 u = (let digits = u div 10000 in two_ASCII_digits ! digits @ sublt10_000 u digits)"

definition sublt1_000_000 :: "nat \<Rightarrow> nat \<Rightarrow> string" where
  "sublt1_000_000 u digits = lt1_000_000 (u - digits * 1000000)"

definition lt100_000_000 :: "nat \<Rightarrow> string" where
  "lt100_000_000 u = (let digits = u div 1000000 in two_ASCII_digits ! digits @ sublt1_000_000 u digits)"

text \<open>
  \<^verbatim>\<open>digits * 100000000\<close> is a product of two \<^verbatim>\<open>int\<close>s, which overflows from 22 on; the products of the other blocks
  have at most two digits in front of a smaller power of ten.
\<close>

definition sublt100_000_000 :: "nat \<Rightarrow> nat \<Rightarrow> string result" where
  "sublt100_000_000 u digits =
     bindR (checked_int32 (int digits * 100000000)) (\<lambda>m. Inr (lt100_000_000 (u - nat m)))"

definition OutputUInt32AsString :: "nat \<Rightarrow> string result" where
  "OutputUInt32AsString u =
     (if u \<ge> 1000000000 then
        (let digits = u div 100000000
         in bindR (sublt100_000_000 u digits) (\<lambda>s. Inr (two_ASCII_digits ! digits @ s)))
      else if u < 100 then
        (if u \<ge> 10 then Inr (lt100 u) else Inr [ascii_digit u])
      else if u < 10000 then
        (if u \<ge> 1000 then Inr (lt10_000 u)
         else (let digits = u div 100 in Inr (ascii_digit digits # sublt100 u digits)))
      else if u < 1000000 then
        (if u \<ge> 100000 then Inr (lt1_000_000 u)
         else (let digits = u div 10000 in Inr (ascii_digit digits # sublt10_000 u digits)))
      else if u < 100000000 then
        (if u \<ge> 10000000 then Inr (lt100_000_000 u)
         else (let digits = u div 1000000 in Inr (ascii_digit digits # sublt1_000_000 u digits)))
      else (let digits = u div 100000000
            in bindR (sublt100_000_000 u digits) (\<lambda>s. Inr (ascii_digit digits # s))))"

text \<open>The negation \<^verbatim>\<open>-i\<close> is one of a signed number, undefined for the smallest.\<close>

definition OutputInt32AsString :: "int \<Rightarrow> string result" where
  "OutputInt32AsString i =
     (if i < 0 then
        if i = - (2 ^ 31) then Inl Undefined_arith
        else bindR (OutputUInt32AsString (nat (- i))) (\<lambda>s. Inr (CHR ''-'' # s))
      else OutputUInt32AsString (nat i))"

definition low_nine_digits :: "nat \<Rightarrow> string" where
  "low_nine_digits u0 =
     (let d1 = u0 div 10000000; u1 = u0 - d1 * 10000000;
          d2 = u1 div 100000; u2 = u1 - d2 * 100000;
          d3 = u2 div 1000; u3 = u2 - d3 * 1000;
          d4 = u3 div 10; u4 = u3 - d4 * 10
      in two_ASCII_digits ! d1 @ two_ASCII_digits ! d2 @ two_ASCII_digits ! d3 @ two_ASCII_digits ! d4 @
         [ascii_digit u4])"

function OutputUInt64AsString :: "nat \<Rightarrow> string result" where
  "OutputUInt64AsString u64 =
     (let u = u64 mod 2 ^ 32
      in if u = u64 then OutputUInt32AsString u
         else (let top_11_digits = u64 div 1000000000;
                   u = (u64 - top_11_digits * 1000000000) mod 2 ^ 32
               in bindR (OutputUInt64AsString top_11_digits) (\<lambda>s. Inr (s @ low_nine_digits u))))"
  by pat_completeness auto

termination
  by (relation "measure id") (auto simp: div_less_dividend intro: gr0I)

declare OutputUInt64AsString.simps [simp del]

definition OutputInt64AsString :: "int \<Rightarrow> string result" where
  "OutputInt64AsString i =
     (if i < 0 then
        if i = - (2 ^ 63) then Inl Undefined_arith
        else bindR (OutputUInt64AsString (nat (- i))) (\<lambda>s. Inr (CHR ''-'' # s))
      else OutputUInt64AsString (nat i))"

text \<open>The generic interface, where \<^verbatim>\<open>long\<close> and \<^verbatim>\<open>long long\<close> have eight bytes.\<close>

definition OutputIntegerAsString_int :: "int \<Rightarrow> string result" where
  "OutputIntegerAsString_int n = OutputInt32AsString n"

definition OutputIntegerAsString_uint :: "nat \<Rightarrow> string result" where
  "OutputIntegerAsString_uint n = OutputUInt32AsString n"

definition OutputIntegerAsString_long :: "int \<Rightarrow> string result" where
  "OutputIntegerAsString_long n = OutputInt64AsString n"

definition OutputIntegerAsString_ulong :: "nat \<Rightarrow> string result" where
  "OutputIntegerAsString_ulong n = OutputUInt64AsString n"

text \<open>The counting iterator counts the increments, one for each byte that is output.\<close>

definition IntegerStringLength :: "int \<Rightarrow> nat result" where
  "IntegerStringLength n = bindR (OutputIntegerAsString_int n) (\<lambda>s. Inr (length s))"

definition WriteToBuffer :: "string \<Rightarrow> string \<Rightarrow> (string \<times> nat) result" where
  "WriteToBuffer s buffer =
     (if length s \<le> length buffer then Inr (s @ drop (length s) buffer, length s) else Inl Out_of_bounds)"

definition WriteUInt32ToBuffer :: "nat \<Rightarrow> string \<Rightarrow> (string \<times> nat) result" where
  "WriteUInt32ToBuffer n buffer = bindR (OutputUInt32AsString n) (\<lambda>s. WriteToBuffer s buffer)"

definition WriteInt32ToBuffer :: "int \<Rightarrow> string \<Rightarrow> (string \<times> nat) result" where
  "WriteInt32ToBuffer n buffer = bindR (OutputInt32AsString n) (\<lambda>s. WriteToBuffer s buffer)"

definition WriteUInt64ToBuffer :: "nat \<Rightarrow> string \<Rightarrow> (string \<times> nat) result" where
  "WriteUInt64ToBuffer n buffer = bindR (OutputUInt64AsString n) (\<lambda>s. WriteToBuffer s buffer)"

definition WriteInt64ToBuffer :: "int \<Rightarrow> string \<Rightarrow> (string \<times> nat) result" where
  "WriteInt64ToBuffer n buffer = bindR (OutputInt64AsString n) (\<lambda>s. WriteToBuffer s buffer)"

definition WriteIntegerToBuffer_int :: "int \<Rightarrow> string \<Rightarrow> (string \<times> nat) result" where
  "WriteIntegerToBuffer_int n buffer = bindR (OutputIntegerAsString_int n) (\<lambda>s. WriteToBuffer s buffer)"

definition WriteIntegerToBuffer_uint :: "nat \<Rightarrow> string \<Rightarrow> (string \<times> nat) result" where
  "WriteIntegerToBuffer_uint n buffer = bindR (OutputIntegerAsString_uint n) (\<lambda>s. WriteToBuffer s buffer)"

definition WriteIntegerToBuffer_long :: "int \<Rightarrow> string \<Rightarrow> (string \<times> nat) result" where
  "WriteIntegerToBuffer_long n buffer = bindR (OutputIntegerAsString_long n) (\<lambda>s. WriteToBuffer s buffer)"

definition WriteIntegerToBuffer_ulong :: "nat \<Rightarrow> string \<Rightarrow> (string \<times> nat) result" where
  "WriteIntegerToBuffer_ulong n buffer = bindR (OutputIntegerAsString_ulong n) (\<lambda>s. WriteToBuffer s buffer)"

definition AppendIntegerToString_int :: "int \<Rightarrow> string \<Rightarrow> string result" where
  "AppendIntegerToString_int n str = bindR (OutputIntegerAsString_int n) (\<lambda>s. Inr (str @ s))"

definition AppendIntegerToString_uint :: "nat \<Rightarrow> string \<Rightarrow> string result" where
  "AppendIntegerToString_uint n str = bindR (OutputIntegerAsString_uint n) (\<lambda>s. Inr (str @ s))"

definition AppendIntegerToString_long :: "int \<Rightarrow> string \<Rightarrow> string result" where
  "AppendIntegerToString_long n str = bindR (OutputIntegerAsString_long n) (\<lambda>s. Inr (str @ s))"

definition AppendIntegerToString_ulong :: "nat \<Rightarrow> string \<Rightarrow> string result" where
  "AppendIntegerToString_ulong n str = bindR (OutputIntegerAsString_ulong n) (\<lambda>s. Inr (str @ s))"

fun IsHexNumericString :: "string \<Rightarrow> bool" where
  "IsHexNumericString [] = True"
| "IsHexNumericString (c # str) = (if \<not> c_isxdigit c then False else IsHexNumericString str)"

section \<open>Lists of numbers\<close>

text \<open>\<^verbatim>\<open>SplitNumericString\<close> of \<^verbatim>\<open>algorithm.h\<close>, for the integral type that \<open>to_numeric\<close> parses.\<close>

fun SplitNumeric_loop :: "(string \<Rightarrow> bool \<times> int option) \<Rightarrow> string list \<Rightarrow> int list \<Rightarrow> bool \<times> int list" where
  "SplitNumeric_loop to_numeric [] numbers = (True, numbers)"
| "SplitNumeric_loop to_numeric (seg # segs) numbers =
     (if seg = [] then SplitNumeric_loop to_numeric segs numbers
      else (case to_numeric seg of
              (True, Some number) \<Rightarrow> SplitNumeric_loop to_numeric segs (numbers @ [number])
            | _ \<Rightarrow> (False, numbers)))"

definition SplitNumericString :: "(string \<Rightarrow> bool \<times> int option) \<Rightarrow> string \<Rightarrow> string \<Rightarrow> (bool \<times> int list) result" where
  "SplitNumericString to_numeric numeric_string separators =
     bindR (SplitString numeric_string separators) (\<lambda>(ok, segs).
       Inr (if \<not> ok then (False, []) else SplitNumeric_loop to_numeric segs []))"

section \<open>The decimal representation\<close>

text \<open>The representation of a number with no leading zero, and the one padded to \<open>k\<close> digits.\<close>

fun decimal :: "nat \<Rightarrow> string" where
  "decimal n = (if n < 10 then [ascii_digit n] else decimal (n div 10) @ [ascii_digit (n mod 10)])"

fun padded :: "nat \<Rightarrow> nat \<Rightarrow> string" where
  "padded 0 n = []"
| "padded (Suc k) n = padded k (n div 10) @ [ascii_digit (n mod 10)]"

declare decimal.simps [simp del]

lemma decimal_digit: "n < 10 \<Longrightarrow> decimal n = [ascii_digit n]"
  by (simp add: decimal.simps)

lemma padded_1: "n < 10 \<Longrightarrow> padded 1 n = [ascii_digit n]"
  by simp

lemma decimal_padded: "0 < n div 10 ^ k \<Longrightarrow> decimal n = decimal (n div 10 ^ k) @ padded k (n mod 10 ^ k)"
proof (induction k arbitrary: n)
  case (Suc k)
  have "n div 10 div 10 ^ k = n div 10 ^ Suc k"
    by (simp add: div_mult2_eq)
  moreover have "n mod 10 ^ Suc k div 10 = n div 10 mod 10 ^ k" "n mod 10 ^ Suc k mod 10 = n mod 10"
    by (simp_all add: mod_mult2_eq)
  moreover have "\<not> n < 10"
  proof
    assume "n < 10"
    then have "n div 10 ^ Suc k = 0"
      by (simp add: div_mult2_eq)
    with Suc.prems show False
      by simp
  qed
  ultimately show ?case
    using Suc.IH [of "n div 10"] Suc.prems by (simp add: decimal.simps [of n] del: power_Suc)
qed simp

lemma padded_split: "padded (j + k) n = padded j (n div 10 ^ k) @ padded k (n mod 10 ^ k)"
proof (induction k arbitrary: n)
  case (Suc k)
  have "n div 10 div 10 ^ k = n div 10 ^ Suc k"
    by (simp add: div_mult2_eq)
  moreover have "n mod 10 ^ Suc k div 10 = n div 10 mod 10 ^ k" "n mod 10 ^ Suc k mod 10 = n mod 10"
    by (simp_all add: mod_mult2_eq)
  ultimately show ?case
    using Suc.IH [of "n div 10"] by (simp del: power_Suc)
qed simp

lemma two_digits_table: "\<forall>n \<in> set [0 ..< 100]. two_ASCII_digits ! n = padded 2 n"
  by code_simp

lemma two_digits: "n < 100 \<Longrightarrow> two_ASCII_digits ! n = padded 2 n"
  using two_digits_table by simp

lemma lt100_padded: "u < 100 \<Longrightarrow> lt100 u = padded 2 u"
  by (simp add: lt100_def two_digits)

lemma lt10_000_padded: "u < 10000 \<Longrightarrow> lt10_000 u = padded 4 u"
  using padded_split [of 2 2 u] by (simp add: lt10_000_def sublt100_def lt100_padded two_digits Let_def modulo_nat_def
      div_less_iff_less_mult)

lemma lt1_000_000_padded: "u < 1000000 \<Longrightarrow> lt1_000_000 u = padded 6 u"
  using padded_split [of 2 4 u] by (simp add: lt1_000_000_def sublt10_000_def lt10_000_padded two_digits Let_def
      modulo_nat_def div_less_iff_less_mult)

lemma lt100_000_000_padded: "u < 100000000 \<Longrightarrow> lt100_000_000 u = padded 8 u"
  using padded_split [of 2 6 u] by (simp add: lt100_000_000_def sublt1_000_000_def lt1_000_000_padded two_digits Let_def
      modulo_nat_def div_less_iff_less_mult)

lemma decimal_eq_padded:
  assumes "10 ^ k \<le> n" "n < 10 ^ Suc k"
  shows "decimal n = padded (Suc k) n"
proof -
  have d: "0 < n div 10 ^ k" "n div 10 ^ k < 10"
    using assms by (simp_all add: div_greater_zero_iff div_less_iff_less_mult)
  then show ?thesis
    using decimal_padded [OF d(1)] padded_split [of 1 k n] by (simp add: decimal_digit)
qed

lemma lead_digit:
  assumes "n < 10 ^ Suc k"
  shows "ascii_digit (n div 10 ^ k) # padded k (n - n div 10 ^ k * 10 ^ k) = padded (Suc k) n"
proof -
  have "n div 10 ^ k < 10"
    using assms by (simp add: div_less_iff_less_mult)
  then show ?thesis
    using padded_split [of 1 k n] by (simp add: minus_div_mult_eq_mod)
qed

lemma sublt100_000_000_digits:
  "d < 22 \<Longrightarrow> sublt100_000_000 u d = Inr (lt100_000_000 (u - d * 100000000))"
  "22 \<le> d \<Longrightarrow> sublt100_000_000 u d = Inl Undefined_arith"
proof -
  have "nat (int d * 100000000) = d * 100000000"
    by (simp add: nat_mult_distrib)
  then show "d < 22 \<Longrightarrow> sublt100_000_000 u d = Inr (lt100_000_000 (u - d * 100000000))"
    "22 \<le> d \<Longrightarrow> sublt100_000_000 u d = Inl Undefined_arith"
    by (simp_all add: sublt100_000_000_def checked_int32_def)
qed

lemma OutputUInt32AsString_overflow:
  assumes "2200000000 \<le> u"
  shows "OutputUInt32AsString u = Inl Undefined_arith"
proof -
  have "22 \<le> u div 100000000"
    using assms by (simp add: less_eq_div_iff_mult_less_eq)
  then show ?thesis
    using assms by (simp add: OutputUInt32AsString_def sublt100_000_000_digits Let_def)
qed

lemma OutputUInt32AsString_decimal:
  assumes "u < 2200000000"
  shows "OutputUInt32AsString u = Inr (decimal u)"
proof -
  consider "u \<ge> 1000000000" | "u < 10" | "10 \<le> u" "u < 100" | "100 \<le> u" "u < 1000" | "1000 \<le> u" "u < 10000"
    | "10000 \<le> u" "u < 100000" | "100000 \<le> u" "u < 1000000" | "1000000 \<le> u" "u < 10000000"
    | "10000000 \<le> u" "u < 100000000" | "100000000 \<le> u" "u < 1000000000"
    by linarith
  then show ?thesis
  proof cases
    case 1
    have "u div 100000000 < 22"
      using assms by (simp add: div_less_iff_less_mult)
    then show ?thesis
      using 1 assms decimal_eq_padded [of 9 u] padded_split [of 2 8 u]
      by (simp add: OutputUInt32AsString_def sublt100_000_000_digits lt100_000_000_padded two_digits minus_div_mult_eq_mod
          Let_def)
  next
    case 2
    then show ?thesis
      by (simp add: OutputUInt32AsString_def decimal_digit)
  next
    case 3
    then show ?thesis
      using decimal_eq_padded [of 1 u] by (simp add: OutputUInt32AsString_def lt100_padded numeral_2_eq_2)
  next
    case 4
    then show ?thesis
      using decimal_eq_padded [of 2 u] lead_digit [of u 2]
      by (simp add: OutputUInt32AsString_def sublt100_def lt100_padded minus_div_mult_eq_mod Let_def)
  next
    case 5
    then show ?thesis
      using decimal_eq_padded [of 3 u] by (simp add: OutputUInt32AsString_def lt10_000_padded)
  next
    case 6
    then show ?thesis
      using decimal_eq_padded [of 4 u] lead_digit [of u 4]
      by (simp add: OutputUInt32AsString_def sublt10_000_def lt10_000_padded minus_div_mult_eq_mod Let_def)
  next
    case 7
    then show ?thesis
      using decimal_eq_padded [of 5 u] by (simp add: OutputUInt32AsString_def lt1_000_000_padded)
  next
    case 8
    then show ?thesis
      using decimal_eq_padded [of 6 u] lead_digit [of u 6]
      by (simp add: OutputUInt32AsString_def sublt1_000_000_def lt1_000_000_padded minus_div_mult_eq_mod Let_def)
  next
    case 9
    then show ?thesis
      using decimal_eq_padded [of 7 u] by (simp add: OutputUInt32AsString_def lt100_000_000_padded)
  next
    case 10
    then have "u div 100000000 < 22"
      by (simp add: div_less_iff_less_mult)
    then show ?thesis
      using 10 decimal_eq_padded [of 8 u] lead_digit [of u 8]
      by (simp add: OutputUInt32AsString_def sublt100_000_000_digits lt100_000_000_padded minus_div_mult_eq_mod Let_def)
  qed
qed

lemma low_nine_digits_padded:
  assumes "u < 1000000000"
  shows "low_nine_digits u = padded 9 u"
proof -
  let ?u1 = "u mod 10000000" and ?u2 = "u mod 10000000 mod 100000" and ?u3 = "u mod 10000000 mod 100000 mod 1000"
  have d: "u div 10000000 < 100" "?u1 div 100000 < 100" "?u2 div 1000 < 100" "?u3 div 10 < 100"
    using assms by (simp_all add: div_less_iff_less_mult)
  have "low_nine_digits u = padded 2 (u div 10000000) @ padded 2 (?u1 div 100000) @ padded 2 (?u2 div 1000) @
      padded 2 (?u3 div 10) @ [ascii_digit (?u3 mod 10)]"
    using d by (simp add: low_nine_digits_def Let_def minus_div_mult_eq_mod two_digits del: padded.simps)
  also have "\<dots> = padded 9 u"
    using padded_split [of 2 7 u] padded_split [of 2 5 ?u1] padded_split [of 2 3 ?u2] padded_split [of 2 1 ?u3]
    by simp
  finally show ?thesis .
qed

text \<open>
  The numbers below \<open>2 ^ 64\<close> for which no product overflows: a number below \<open>2 ^ 32\<close> is printed by
  \<^verbatim>\<open>OutputUInt32AsString\<close>, and so are the digits in front of the last nine of a larger one, once they are below it.
\<close>

definition printable64 :: "nat \<Rightarrow> bool" where
  "printable64 u \<longleftrightarrow> (if u < 2 ^ 32 then u < 2200000000
     else u div 1000000000 < 2200000000 \<or> 2 ^ 32 \<le> u div 1000000000)"

lemma OutputUInt64AsString_step:
  assumes "2 ^ 32 \<le> u"
  shows "OutputUInt64AsString u =
    bindR (OutputUInt64AsString (u div 1000000000)) (\<lambda>s. Inr (s @ padded 9 (u mod 1000000000)))"
proof -
  have "u mod 2 ^ 32 \<noteq> u"
    using assms by (metis mod_less_divisor not_le zero_less_numeral zero_less_power)
  moreover have "(u - u div 1000000000 * 1000000000) mod 2 ^ 32 = u mod 1000000000"
    by (simp add: minus_div_mult_eq_mod)
  ultimately show ?thesis
    by (simp add: OutputUInt64AsString.simps [of u] Let_def low_nine_digits_padded)
qed

lemma OutputUInt64AsString_small: "u < 2 ^ 32 \<Longrightarrow> OutputUInt64AsString u = OutputUInt32AsString u"
  by (simp add: OutputUInt64AsString.simps [of u])

lemma decimal_step:
  assumes "1000000000 \<le> u"
  shows "decimal u = decimal (u div 1000000000) @ padded 9 (u mod 1000000000)"
proof -
  have "0 < u div 10 ^ 9"
    using assms by (simp add: div_greater_zero_iff)
  then show ?thesis
    using decimal_padded [of u 9] by simp
qed

lemma OutputUInt64AsString_decimal:
  assumes "u < 2 ^ 64"
  shows "OutputUInt64AsString u = (if printable64 u then Inr (decimal u) else Inl Undefined_arith)"
proof (cases "u < 2 ^ 32")
  case True
  then show ?thesis
    by (simp add: OutputUInt64AsString_small OutputUInt32AsString_decimal OutputUInt32AsString_overflow printable64_def)
next
  case big: False
  let ?t = "u div 1000000000"
  have top: "?t < 18446744074" "?t div 1000000000 < 19"
    using assms by (simp_all add: div_less_iff_less_mult)
  have "OutputUInt64AsString ?t = (if printable64 u then Inr (decimal ?t) else Inl Undefined_arith)"
  proof (cases "?t < 2 ^ 32")
    case True
    then show ?thesis
      using big
      by (simp add: OutputUInt64AsString_small OutputUInt32AsString_decimal OutputUInt32AsString_overflow printable64_def)
  next
    case False
    then have "OutputUInt64AsString (?t div 1000000000) = Inr (decimal (?t div 1000000000))"
      using top(2) by (simp add: OutputUInt64AsString_small OutputUInt32AsString_decimal)
    then show ?thesis
      using False big decimal_step [of ?t] by (simp add: OutputUInt64AsString_step [of ?t] printable64_def)
  qed
  then show ?thesis
    using big decimal_step [of u] by (simp add: OutputUInt64AsString_step [of u])
qed

section \<open>Parsing undoes printing\<close>

lemma code_ascii_digit: "d < 10 \<Longrightarrow> code (ascii_digit d) = 48 + d"
  by (simp add: ascii_digit_def)

lemma ascii_digit_props:
  assumes "d < 10"
  shows "digit_of (ascii_digit d) = d" "c_isdigit (ascii_digit d)"
  using code_ascii_digit [OF assms] assms by (simp_all add: digit_of_def c_isdigit_def)

lemma value_of_snoc: "value_of base (xs @ [c]) = value_of base xs * base + digit_of c"
  by (simp add: value_of_def)

lemma value_of_decimal: "value_of 10 (decimal n) = n"
proof (induction n rule: decimal.induct)
  case (1 n)
  show ?case
  proof (cases "n < 10")
    case True
    then show ?thesis
      using value_of_snoc [of 10 "[]"] by (simp add: decimal_digit value_of_def ascii_digit_props)
  next
    case False
    then show ?thesis
      using 1 by (simp add: decimal.simps [of n] value_of_snoc ascii_digit_props)
  qed
qed

lemma decimal_digits: "c \<in> set (decimal n) \<Longrightarrow> c_isdigit c"
proof (induction n rule: decimal.induct)
  case (1 n)
  then show ?case
    by (cases "n < 10") (auto simp: decimal.simps [of n] ascii_digit_props)
qed

lemma decimal_not_Nil [simp]: "decimal n \<noteq> []"
  by (cases "n < 10") (simp_all add: decimal.simps [of n])

lemma hd_decimal: "hd (decimal n) = CHR ''0'' \<longleftrightarrow> n = 0"
proof (induction n rule: decimal.induct)
  case (1 n)
  show ?case
  proof (cases "n < 10")
    case True
    have "ascii_digit n = CHR ''0'' \<longleftrightarrow> code (ascii_digit n) = 48"
      by (simp add: char_eq_iff_code)
    with True show ?thesis
      by (simp add: decimal_digit code_ascii_digit)
  next
    case False
    then show ?thesis
      using 1 by (simp add: decimal.simps [of n])
  qed
qed

lemma digit_char:
  assumes "c_isdigit c"
  shows "\<not> c_isspace c" "c \<noteq> CHR ''-''" "c \<noteq> CHR ''+''" "c \<noteq> CHR ''x''" "c \<noteq> CHR ''X''" "c \<noteq> NUL" "digit_of c < 10"
    "c \<noteq> CHR '',''"
  using assms by (auto simp: c_isdigit_def c_isspace_def digit_of_def)

lemma decimal_no_prefix: "\<not> has_hex_prefix (decimal n)"
proof -
  have "\<forall>c \<in> set (decimal n). c \<noteq> CHR ''x'' \<and> c \<noteq> CHR ''X''"
    using digit_char decimal_digits by blast
  then show ?thesis
    by (auto simp: has_hex_prefix_def split: list.splits)
qed

lemma sign_decimal:
  "strto_sign (decimal n) = (0, False)" "strto_sign (CHR ''-'' # decimal n) = (1, True)"
proof -
  have minus: "\<not> c_isspace (CHR ''-'')"
    by (simp add: c_isspace_def)
  obtain c t where d: "decimal n = c # t"
    by (cases "decimal n") auto
  then have "c_isdigit c"
    using decimal_digits [of c n] by simp
  from digit_char [OF this] show "strto_sign (decimal n) = (0, False)" "strto_sign (CHR ''-'' # decimal n) = (1, True)"
    using minus by (simp_all add: d strto_sign_def)
qed

lemma scan_decimal:
  assumes "base = 0 \<or> base = 10"
  shows "strto_scan (decimal n) base = (False, n, length (decimal n))"
    and "strto_scan (CHR ''-'' # decimal n) base = (True, n, Suc (length (decimal n)))"
proof -
  have t10: "takeWhile (\<lambda>c. digit_of c < 10) (decimal n) = decimal n"
    using digit_char(7) decimal_digits by (metis takeWhile_eq_all_conv)
  have t8: "takeWhile (\<lambda>c. digit_of c < 8) (decimal 0) = decimal 0" "value_of 8 (decimal 0) = 0"
    by (simp_all add: decimal_digit ascii_digit_props value_of_def)
  note facts = strto_scan_def sign_decimal value_of_decimal decimal_no_prefix hd_decimal
  have "strto_scan (decimal n) base = (False, n, length (decimal n)) \<and>
      strto_scan (CHR ''-'' # decimal n) base = (True, n, Suc (length (decimal n)))"
  proof (cases "base = 0 \<and> n = 0")
    case True
    then show ?thesis
      by (simp add: facts t8)
  next
    case False
    then show ?thesis
      using assms by (auto simp: facts t10)
  qed
  then show "strto_scan (decimal n) base = (False, n, length (decimal n))"
    "strto_scan (CHR ''-'' # decimal n) base = (True, n, Suc (length (decimal n)))"
    by simp_all
qed

text \<open>The text of an integer, and what the parsers make of it.\<close>

definition integer_text :: "int \<Rightarrow> string" where
  "integer_text i = (if i < 0 then CHR ''-'' # decimal (nat (- i)) else decimal (nat i))"

lemma scan_integer:
  assumes "base = 0 \<or> base = 10"
  shows "strto_scan (integer_text i) base = (i < 0, nat \<bar>i\<bar>, length (integer_text i))"
  using scan_decimal [OF assms] by (auto simp: integer_text_def)

lemma integer_text_not_Nil [simp]: "integer_text i \<noteq> []"
  by (simp add: integer_text_def)

lemma integer_text_chars: "c \<in> set (integer_text i) \<Longrightarrow> c_isdigit c \<or> c = CHR ''-''"
  using decimal_digits by (auto simp: integer_text_def split: if_splits)

lemma c_str_integer_text [simp]: "c_str (integer_text i) = integer_text i"
  using integer_text_chars digit_char(6) by (intro c_str_no_NUL) fastforce

lemma strtoll_integer:
  assumes "base = 0 \<or> base = 10"
  shows "strtoll (integer_text i) base =
    (if i < - (2 ^ 63) then (- (2 ^ 63), length (integer_text i), ERANGE)
     else if i > 2 ^ 63 - 1 then (2 ^ 63 - 1, length (integer_text i), ERANGE)
     else (i, length (integer_text i), 0))"
  using assms by (auto simp: strtoll_def valid_base_def scan_integer [OF assms] Let_def)

lemma ParseNumberT_integer:
  assumes "base = 0 \<or> base = 10" "- (2 ^ 63) \<le> i" "i < 2 ^ 63"
    and "ty_size T = 8 \<or> (ty_min T \<le> i \<and> i \<le> ty_max T)"
  shows "ParseNumberT T (integer_text i) base e =
    \<lparr>p_ok = True, p_value = Some i, p_end = length (integer_text i), p_errno = e\<rparr>"
  using assms(2-4) strtoll_integer [OF assms(1), of i] by (auto simp: ParseNumberT_def)

lemma strtoull_integer:
  assumes "base = 0 \<or> base = 10" "0 \<le> i" "i < 2 ^ 64"
  shows "strtoull (integer_text i) base = (i, length (integer_text i), 0)"
proof -
  have "nat i < 2 ^ 64"
    using assms(2,3) by (simp add: nat_less_iff)
  then show ?thesis
    using assms by (auto simp: strtoull_def valid_base_def scan_integer [OF assms(1)] Let_def)
qed

lemma ParseBig_integer:
  assumes "base = 0 \<or> base = 10" "0 \<le> i" "i \<le> ty_max T" "ty_max T < 2 ^ 64"
  shows "ParseBigPositiveNumber T (integer_text i) base e =
    \<lparr>p_ok = True, p_value = Some i, p_end = length (integer_text i), p_errno = e\<rparr>"
  using assms(2-4) strtoll_integer [OF assms(1), of i] strtoull_integer [OF assms(1), of i]
  by (auto simp: ParseBigPositiveNumber_def Let_def ERANGE_def)

lemma OutputInt32_text: "- (2 ^ 31) < i \<Longrightarrow> i < 2 ^ 31 \<Longrightarrow> OutputInt32AsString i = Inr (integer_text i)"
  by (auto simp: OutputInt32AsString_def integer_text_def OutputUInt32AsString_decimal nat_less_iff)

lemma OutputInt64_text:
  assumes "- (2 ^ 63) < j" "j < 2 ^ 63"
  shows "OutputInt64AsString j = (if printable64 (nat \<bar>j\<bar>) then Inr (integer_text j) else Inl Undefined_arith)"
proof -
  have "nat (- j) < 2 ^ 64" "nat j < 2 ^ 64"
    using assms by (simp_all add: nat_less_iff)
  then show ?thesis
    using assms by (auto simp: OutputInt64AsString_def integer_text_def OutputUInt64AsString_decimal)
qed

lemma OutputUInt_text:
  "u < 2200000000 \<Longrightarrow> OutputUInt32AsString u = Inr (integer_text (int u))"
  "v < 2 ^ 64 \<Longrightarrow> OutputUInt64AsString v = (if printable64 v then Inr (integer_text (int v)) else Inl Undefined_arith)"
  by (simp_all add: OutputUInt32AsString_decimal OutputUInt64AsString_decimal integer_text_def)

text \<open>
  C17: parsing the text that a printer wrote, in base ten or with the base left open, gives the number back, for every
  number of every width but these: the smallest of a signed type, whose negation overflows, and those for which the
  product in \<^verbatim>\<open>OutputUInt32AsString\<close> overflows. The latter are the unsigned 32-bit numbers from 2200000000 on,
  and the 64-bit numbers that lie, themselves or without their last nine digits, between 2200000000 and
  \<open>2 ^ 32 - 1\<close>; the smallest 64-bit number among them is 2200000000. For all of them the behaviour of the printer
  is undefined.
\<close>

theorem Output_StringToNumeric_roundtrip:
  assumes "base = 0 \<or> base = 10" "- (2 ^ 31) \<le> i" "i < 2 ^ 31" "u < 2 ^ 32" "- (2 ^ 63) \<le> j" "j < 2 ^ 63" "v < 2 ^ 64"
  shows "bindR (OutputInt32AsString i) (\<lambda>s. Inr (StringToNumeric_int32 s base e)) =
      (if i = - (2 ^ 31) then Inl Undefined_arith else Inr (True, Some i)) \<and>
    bindR (OutputUInt32AsString u) (\<lambda>s. Inr (StringToNumeric_uint32 s base e)) =
      (if 2200000000 \<le> u then Inl Undefined_arith else Inr (True, Some (int u))) \<and>
    bindR (OutputInt64AsString j) (\<lambda>s. Inr (StringToNumeric_int64 s base e)) =
      (if j = - (2 ^ 63) \<or> \<not> printable64 (nat \<bar>j\<bar>) then Inl Undefined_arith else Inr (True, Some j)) \<and>
    bindR (OutputUInt64AsString v) (\<lambda>s. Inr (StringToNumeric_uint64 s base e)) =
      (if \<not> printable64 v then Inl Undefined_arith else Inr (True, Some (int v)))"
proof -
  have sizes: "ty_size (signed_ty 8) = 8" "ty_min (signed_ty 4) \<le> i \<and> i \<le> ty_max (signed_ty 4)"
    "ty_min (unsigned_ty 4) \<le> int u \<and> int u \<le> ty_max (unsigned_ty 4)"
    using assms by (simp_all add: signed_ty_def unsigned_ty_def)
  have p: "StringToNumeric_int32 (integer_text i) base e = (True, Some i)"
    "StringToNumeric_uint32 (integer_text (int u)) base e = (True, Some (int u))"
    "StringToNumeric_int64 (integer_text j) base e = (True, Some j)"
    using assms sizes
    by (simp_all add: StringToNumeric_int32_def StringToNumeric_uint32_def StringToNumeric_int64_def
        StringToNumeric_with_def ParseNumber_int_def ParseNumber_uint_def ParseNumber_long_def ParseNumberT_integer)
  have "strtoull (integer_text (int v)) base = (int v, length (integer_text (int v)), 0)"
    using assms by (intro strtoull_integer) simp_all
  then have q: "StringToNumeric_uint64 (integer_text (int v)) base e = (True, Some (int v))"
    by (simp add: StringToNumeric_uint64_def ERANGE_def)
  have "OutputInt32AsString (- (2 ^ 31)) = Inl Undefined_arith" "OutputInt64AsString (- (2 ^ 63)) = Inl Undefined_arith"
    by (simp_all add: OutputInt32AsString_def OutputInt64AsString_def)
  then show ?thesis
    using assms p q OutputInt32_text [of i] OutputInt64_text [of j] OutputUInt_text(1) [of u] OutputUInt_text(2) [of v]
      OutputUInt32AsString_overflow [of u]
    by (cases "i = - (2 ^ 31)"; cases "j = - (2 ^ 63)") auto
qed

theorem Output_StringToNumeric_roundtrip_witness:
  "bindR (OutputUInt64AsString 18446744073709551615) (\<lambda>s. Inr (StringToNumeric_uint64 s 0 0)) =
     Inr (True, Some 18446744073709551615) \<and>
   bindR (OutputInt32AsString (- 7)) (\<lambda>s. Inr (StringToNumeric_int32 s 0 0)) = Inr (True, Some (- 7)) \<and>
   OutputUInt32AsString 4294967295 = Inl Undefined_arith"
proof -
  have "printable64 18446744073709551615"
    by (simp add: printable64_def)
  then show ?thesis
    using Output_StringToNumeric_roundtrip [of 0 "- 7" 4294967295 0 18446744073709551615 0]
    by (cases "OutputUInt32AsString 4294967295") simp_all
qed

section \<open>A parsed number fits its type\<close>

text \<open>The number a text denotes.\<close>

definition scanned :: "string \<Rightarrow> nat \<Rightarrow> int" where
  "scanned s base = (case strto_scan s base of (neg, m, e) \<Rightarrow> if neg then - int m else int m)"

lemma sign_end: "fst (strto_sign s) \<le> length s"
  using length_takeWhile_le [of c_isspace s]
  by (auto simp: strto_sign_def Let_def split: list.split) (metis Suc_leI drop_all list.distinct(1) not_le)+

lemma prefix_end: "has_hex_prefix s \<Longrightarrow> 2 \<le> length s"
  by (auto simp: has_hex_prefix_def split: list.splits)

lemma scan_end: "strto_scan s base = (neg, m, e) \<Longrightarrow> e \<le> length s"
proof -
  assume a: "strto_scan s base = (neg, m, e)"
  obtain n g where n: "strto_sign s = (n, g)"
    by force
  then have le: "n \<le> length s"
    using sign_end [of s] by simp
  define b where "b = (if base \<noteq> 0 then base else if has_hex_prefix (drop n s) then 16
      else if drop n s \<noteq> [] \<and> hd (drop n s) = CHR ''0'' then 8 else 10)"
  define k where "k = (if b = 16 \<and> has_hex_prefix (drop n s) then n + 2 else n)"
  have k: "k \<le> length s"
    using le prefix_end [of "drop n s"] by (auto simp: k_def)
  let ?ds = "takeWhile (\<lambda>c. digit_of c < b) (drop k s)"
  have "strto_scan s base = (if ?ds = [] then (False, 0, 0) else (g, value_of b ?ds, k + length ?ds))"
    by (simp add: strto_scan_def n Let_def b_def k_def)
  moreover have "length ?ds \<le> length s - k"
    using length_takeWhile_le [of "\<lambda>c. digit_of c < b" "drop k s"] by simp
  ultimately show ?thesis
    using a k by (cases "?ds = []") simp_all
qed

definition fits :: "integral \<Rightarrow> string \<Rightarrow> nat \<Rightarrow> nat \<Rightarrow> parsed \<Rightarrow> bool" where
  "fits T s base e p \<longleftrightarrow>
     p_value p = Some (scanned s base) \<and> ty_min T \<le> scanned s base \<and> scanned s base \<le> ty_max T \<and>
     0 < p_end p \<and> p_end p \<le> length s \<and> p_errno p = e"

lemma ParseNumberT_fits:
  assumes "p_ok (ParseNumberT T s base e)" "ty_size T = 8 \<longrightarrow> T = signed_ty 8" "ty_size T \<le> 8"
  shows "fits T s base e (ParseNumberT T s base e)"
proof -
  obtain neg m n where sc: "strto_scan s base = (neg, m, n)"
    by (cases "strto_scan s base") auto
  have n: "n \<le> length s"
    using scan_end [OF sc] .
  show ?thesis
  proof (cases "ty_size T = 8")
    case True
    then have "T = signed_ty 8"
      using assms(2) by simp
    then show ?thesis
      using assms(1) n sc
      by (auto simp: ParseNumberT_def strtoll_def scanned_def fits_def Let_def signed_ty_def EINVAL_def ERANGE_def split: if_splits)
  next
    case False
    then show ?thesis
      using assms(1,3) n sc
      by (auto simp: ParseNumberT_def strtoll_def scanned_def fits_def Let_def EINVAL_def ERANGE_def split: if_splits)
  qed
qed

lemma ParseBig_fits:
  assumes "p_ok (ParseBigPositiveNumber (unsigned_ty 8) s base e)"
  shows "fits (unsigned_ty 8) s base e (ParseBigPositiveNumber (unsigned_ty 8) s base e)"
proof -
  obtain neg m n where sc: "strto_scan s base = (neg, m, n)"
    by (cases "strto_scan s base") auto
  have n: "n \<le> length s"
    using scan_end [OF sc] .
  show ?thesis
    using assms n sc
    by (auto simp: ParseBigPositiveNumber_def strtoll_def strtoull_def scanned_def fits_def Let_def unsigned_ty_def EINVAL_def
        ERANGE_def split: if_splits)
qed

text \<open>
  C18: whenever one of the ten \<^verbatim>\<open>ParseNumber\<close> functions succeeds, the stored value is the number the text
  denotes, it lies between the limits of the type, at least one and at most all bytes were read, and
  \<^verbatim>\<open>errno\<close> is what it was.
\<close>

theorem ParseNumber_fits_type:
  assumes "(T, parse) \<in> {(signed_ty 1, ParseNumber_schar), (unsigned_ty 1, ParseNumber_uchar),
      (signed_ty 2, ParseNumber_short), (unsigned_ty 2, ParseNumber_ushort), (signed_ty 4, ParseNumber_int),
      (unsigned_ty 4, ParseNumber_uint), (signed_ty 8, ParseNumber_long), (unsigned_ty 8, ParseNumber_ulong),
      (signed_ty 8, ParseNumber_llong), (unsigned_ty 8, ParseNumber_ullong)}"
    and "p_ok (parse s base e)"
  shows "p_value (parse s base e) = Some (scanned s base) \<and> ty_min T \<le> scanned s base \<and> scanned s base \<le> ty_max T \<and>
     0 < p_end (parse s base e) \<and> p_end (parse s base e) \<le> length s \<and> p_errno (parse s base e) = e"
proof -
  have "(ty_size T = 8 \<longrightarrow> T = signed_ty 8) \<and> ty_size T \<le> 8 \<and> parse = ParseNumberT T \<or>
      T = unsigned_ty 8 \<and> parse = ParseBigPositiveNumber T"
    using assms(1) by (auto simp: ParseNumber_schar_def ParseNumber_uchar_def ParseNumber_short_def ParseNumber_ushort_def
        ParseNumber_int_def ParseNumber_uint_def ParseNumber_long_def ParseNumber_ulong_def ParseNumber_llong_def
        ParseNumber_ullong_def signed_ty_def unsigned_ty_def)
  then show ?thesis
    using assms(2) ParseNumberT_fits [of T s base e] ParseBig_fits [of s base e] by (auto simp: fits_def)
qed

theorem ParseNumber_fits_type_witness:
  "p_ok (ParseNumber_short ''-300x'' 0 7) \<and> p_value (ParseNumber_short ''-300x'' 0 7) = Some (scanned ''-300x'' 0)"
proof -
  have "p_ok (ParseNumber_short ''-300x'' 0 7)"
    by code_simp
  then show ?thesis
    using ParseNumber_fits_type [of "signed_ty 2" ParseNumber_short "''-300x''" 0 7] by simp
qed

section \<open>Hexadecimal text\<close>

fun hex_padded :: "nat \<Rightarrow> nat \<Rightarrow> string" where
  "hex_padded 0 n = []"
| "hex_padded (Suc k) n = hex_padded k (n div 16) @ [hexdigits ! (n mod 16)]"

lemma low_nibble: "unat ((ucast v :: 32 word) AND 0xf) = unat (v :: 64 word) mod 16"
proof -
  have m: "(0xf :: 32 word) = mask 4"
    by (simp add: mask_eq_exp_minus_1)
  have "unat ((ucast v :: 32 word) AND 0xf) = take_bit 4 (take_bit 32 (unat v))"
    unfolding m take_bit_eq_mask [symmetric] by (simp add: unsigned_take_bit_eq unsigned_ucast_eq)
  then show ?thesis
    by (simp add: take_bit_eq_mod mod_mod_cancel)
qed

lemma UIntToHex_loop_padded:
  "k \<le> length buf \<Longrightarrow> UIntToHex_loop k v buf = Inr (hex_padded k (unat v) @ drop k buf)"
proof (induction k arbitrary: v buf)
  case (Suc k)
  have "unat (drop_bit 4 v) = unat v div 16"
    by (simp add: drop_bit_eq_div unat_div_distrib)
  moreover have "drop k (buf[k := h]) = h # drop (Suc k) buf" for h
    using Suc.prems by (simp add: drop_update_swap Cons_nth_drop_Suc [symmetric])
  ultimately show ?case
    using Suc.IH [of "buf[k := hexdigits ! (unat v mod 16)]" "drop_bit 4 v"] Suc.prems by (simp add: low_nibble)
qed simp

lemma hexdigits_table: "\<forall>d \<in> set [0 ..< 16]. digit_of (hexdigits ! d) = d \<and> c_isxdigit (hexdigits ! d)"
  by code_simp

lemma hex_padded_chars: "c \<in> set (hex_padded k n) \<Longrightarrow> digit_of c < 16 \<and> c_isxdigit c"
  using hexdigits_table by (induction k arbitrary: n) auto

lemma hex_padded_length [simp]: "length (hex_padded k n) = k"
  by (induction k arbitrary: n) simp_all

lemma value_of_hex_padded: "value_of 16 (hex_padded k n) = n mod 16 ^ k"
proof (induction k arbitrary: n)
  case 0
  then show ?case
    by (simp add: value_of_def)
next
  case (Suc k)
  have "n mod 16 ^ Suc k = n div 16 mod 16 ^ k * 16 + n mod 16"
    by (simp add: mod_mult2_eq)
  moreover have "digit_of (hexdigits ! (n mod 16)) = n mod 16"
    using hexdigits_table by simp
  ultimately show ?case
    using Suc by (simp add: value_of_snoc)
qed

lemma xdigit_char:
  assumes "c_isxdigit c"
  shows "\<not> c_isspace c" "c \<noteq> CHR ''-''" "c \<noteq> CHR ''+''" "c \<noteq> CHR ''x''" "c \<noteq> CHR ''X''" "c \<noteq> NUL"
  using assms by (auto simp: c_isxdigit_def c_isdigit_def c_isspace_def)

lemma scan_hex:
  assumes "0 < k"
  shows "strto_scan (hex_padded k n) 16 = (False, n mod 16 ^ k, k)"
proof -
  let ?t = "hex_padded k n"
  obtain c t where ct: "?t = c # t"
    using assms hex_padded_length [of k n] by (cases ?t) auto
  have "c_isxdigit c"
    using hex_padded_chars [of c k n] ct by simp
  then have "strto_sign ?t = (0, False)"
    using xdigit_char [of c] by (simp add: ct strto_sign_def)
  moreover have "\<not> has_hex_prefix ?t"
  proof -
    have "\<forall>c \<in> set ?t. c \<noteq> CHR ''x'' \<and> c \<noteq> CHR ''X''"
      using xdigit_char hex_padded_chars by blast
    then show ?thesis
      by (auto simp: has_hex_prefix_def split: list.splits)
  qed
  moreover have "takeWhile (\<lambda>c. digit_of c < 16) ?t = ?t"
    using hex_padded_chars by (metis takeWhile_eq_all_conv)
  ultimately show ?thesis
    using ct by (simp add: strto_scan_def value_of_hex_padded [of k n] del: takeWhile_eq_all_conv) (metis hex_padded_length length_Cons value_of_hex_padded)
qed

lemma c_str_hex_padded [simp]: "c_str (hex_padded k n) = hex_padded k n"
  using hex_padded_chars xdigit_char(6) by (intro c_str_no_NUL) blast

lemma UIntToHexString_text:
  "UInt16ToHexString x = Inr (hex_padded 4 (unat x))" "UInt32ToHexString y = Inr (hex_padded 8 (unat y))"
  "UInt64ToHexString z = Inr (hex_padded 16 (unat z))"
proof -
  have "take_bit 64 (unat x) = unat x" "take_bit 64 (unat y) = unat y"
    using unsigned_less [of x, where 'a = nat] unsigned_less [of y, where 'a = nat]
    by (auto intro!: take_bit_nat_eq_self elim: order.strict_trans)
  then show "UInt16ToHexString x = Inr (hex_padded 4 (unat x))" "UInt32ToHexString y = Inr (hex_padded 8 (unat y))"
    "UInt64ToHexString z = Inr (hex_padded 16 (unat z))"
    by (simp_all add: UInt16ToHexString_def UInt32ToHexString_def UInt64ToHexString_def WriteHexUInt16ToBuffer_def
        WriteHexUInt32ToBuffer_def WriteHexUInt64ToBuffer_def UIntToHexBufferInternal_def UIntToHex_loop_padded
        unsigned_ucast_eq)
qed

text \<open>
  C32: the hexadecimal printers stay inside their buffers, write two digits for each byte, and parsing
  their text in base sixteen gives the number back.
\<close>

theorem UIntToHexString_roundtrip:
  "bindR (UInt16ToHexString x) (\<lambda>s. Inr (length s, StringToNumeric_uint16 s 16 e)) = Inr (4, True, Some (uint x)) \<and>
   bindR (UInt32ToHexString y) (\<lambda>s. Inr (length s, StringToNumeric_uint32 s 16 e)) = Inr (8, True, Some (uint y)) \<and>
   bindR (UInt64ToHexString z) (\<lambda>s. Inr (length s, StringToNumeric_uint64 s 16 e)) = Inr (16, True, Some (uint z))"
proof -
  have x: "unat x < 65536" and y: "unat y < 4294967296" and z: "unat z < 18446744073709551616"
    using unsigned_less [of x, where 'a = nat] unsigned_less [of y, where 'a = nat] unsigned_less [of z, where 'a = nat]
    by simp_all
  have i: "uint x < 65536" "uint y < 4294967296" "uint z < 18446744073709551616"
    using unsigned_less [of x, where 'a = int] unsigned_less [of y, where 'a = int] unsigned_less [of z, where 'a = int]
    by simp_all
  have "strtoll (hex_padded 4 (unat x)) 16 = (uint x, 4, 0)" "strtoll (hex_padded 8 (unat y)) 16 = (uint y, 8, 0)"
    "strtoull (hex_padded 16 (unat z)) 16 = (uint z, 16, 0)"
    using x y z i by (simp_all add: strtoll_def strtoull_def valid_base_def scan_hex Let_def)
  then show ?thesis
    using i
    by (simp add: UIntToHexString_text StringToNumeric_uint16_def StringToNumeric_uint32_def StringToNumeric_uint64_def
        StringToNumeric_with_def ParseNumber_ushort_def ParseNumber_uint_def ParseNumberT_def unsigned_ty_def ERANGE_def)
qed

section \<open>Lists of numbers\<close>

lemma StringToNumeric_int32_text:
  assumes "- (2 ^ 31) \<le> i" "i < 2 ^ 31"
  shows "StringToNumeric_int32 (integer_text i) 0 e = (True, Some i)"
proof -
  have "ParseNumberT (signed_ty 4) (integer_text i) 0 e =
      \<lparr>p_ok = True, p_value = Some i, p_end = length (integer_text i), p_errno = e\<rparr>"
    using assms by (intro ParseNumberT_integer) (simp_all add: signed_ty_def)
  then show ?thesis
    by (simp add: StringToNumeric_int32_def StringToNumeric_with_def ParseNumber_int_def)
qed

lemma SplitNumeric_loop_texts:
  "\<forall>i \<in> set xs. - (2 ^ 31) \<le> i \<and> i < 2 ^ 31 \<Longrightarrow>
   SplitNumeric_loop (\<lambda>s. StringToNumeric_int32 s 0 e) (map integer_text xs) ns = (True, ns @ xs)"
  by (induction xs arbitrary: ns) (simp_all add: StringToNumeric_int32_text)

text \<open>
  \<^verbatim>\<open>SplitNumericString\<close> reads back the list of 32-bit numbers that was printed and joined with commas.
\<close>

theorem SplitNumericString_roundtrip:
  assumes "xs \<noteq> []" "\<forall>i \<in> set xs. - (2 ^ 31) < i \<and> i < 2 ^ 31"
  shows "SplitNumericString (\<lambda>s. StringToNumeric_int32 s 0 e)
    (JoinStrings (map (\<lambda>i. projr (OutputInt32AsString i)) xs) '','') '','' = Inr (True, xs)"
proof -
  let ?t = "JoinStrings (map integer_text xs) '',''"
  have out: "map (\<lambda>i. projr (OutputInt32AsString i)) xs = map integer_text xs"
    using assms(2) by (simp add: OutputInt32_text)
  have chars: "c_isdigit c \<or> c = CHR ''-'' \<or> c = CHR '',''" if "c \<in> set ?t" for c
    using JoinStrings_chars [OF that] integer_text_chars by auto
  have ne: "?t \<noteq> []"
    using assms(1) by (cases xs; cases "tl xs") auto
  have no_comma: "\<forall>x \<in> set (map integer_text xs). CHR '','' \<notin> set x"
    using integer_text_chars digit_char(8) by fastforce
  have "\<forall>c \<in> set ?t. code c \<noteq> 127"
  proof
    fix c
    assume "c \<in> set ?t"
    from chars [OF this] show "code c \<noteq> 127"
      by (auto simp: c_isdigit_def)
  qed
  then have "SplitString ?t '','' = Inr (True, split_by (\<lambda>c. c = CHR '','') ?t)"
    using SplitString_split [OF ne, of "'',''"] by simp
  also have "split_by (\<lambda>c. c = CHR '','') ?t = map integer_text xs"
    using assms(1) no_comma by (intro split_by_join) simp_all
  finally show ?thesis
    using SplitNumeric_loop_texts [of xs e "[]"] assms(2) by (simp add: SplitNumericString_def out less_imp_le)
qed

theorem SplitNumericString_roundtrip_witness:
  "SplitNumericString (\<lambda>s. StringToNumeric_int32 s 0 0)
    (JoinStrings (map (\<lambda>i. projr (OutputInt32AsString i)) [12, - 5, 0]) '','') '','' = Inr (True, [12, - 5, 0])"
  by (rule SplitNumericString_roundtrip) simp_all

end
