(* ===== verification/C_Escape.thy ===== *)
theory C_Escape
  imports Ascii
begin

text \<open>
  The C-style escaping of \<^verbatim>\<open>common/base/string/algorithm.cpp\<close>. \<^verbatim>\<open>CEscapeInternal\<close> writes into a buffer
  of a given size, where a write outside is \<^const>\<open>Out_of_bounds\<close>; \<^verbatim>\<open>CUnescapeString\<close> reads a C string,
  whose end is the terminating NUL. The string versions are shown to be safe and to undo each other.
\<close>

section \<open>Hexadecimal digits\<close>

definition HexDigitToInt :: "char \<Rightarrow> int" where
  "HexDigitToInt c =
     (if \<not> Ascii_IsHexDigit c then - 1
      else (let x = schar c; x = (if x > 57 then x + 9 else x) in x AND 0xf))"

definition IsOctDigit :: "char \<Rightarrow> bool" where
  "IsOctDigit c \<longleftrightarrow> schar c \<ge> 48 \<and> schar c \<le> 55"

definition kLookupHex :: string where
  "kLookupHex = ''0123456789abcdef''"

definition HexDump :: "string \<Rightarrow> string" where
  "HexDump str =
     concat (map (\<lambda>c. [kLookupHex ! nat (drop_bit 4 (schar c) AND 0xF), kLookupHex ! nat (schar c AND 0xF)]) str)"

section \<open>Escaping\<close>

text \<open>The two-character escapes of the \<^verbatim>\<open>switch\<close>, by the letter after the backslash.\<close>

definition escape_letter :: "char \<Rightarrow> char option" where
  "escape_letter c =
     (if c = CHR 0x07 then Some CHR ''a''
      else if c = CHR 0x08 then Some CHR ''b''
      else if c = CHR 0x0C then Some CHR ''f''
      else if c = CHR 0x0A then Some CHR ''n''
      else if c = CHR 0x0D then Some CHR ''r''
      else if c = CHR 0x09 then Some CHR ''t''
      else if c = CHR 0x0B then Some CHR ''v''
      else if c = CHR 0x22 then Some CHR 0x22
      else if c = CHR ''?'' then Some CHR ''?''
      else if c = CHR 0x27 then Some CHR 0x27
      else if c = CHR 0x5C then Some CHR 0x5C
      else None)"

text \<open>
  The loop: \<open>out\<close> are the bytes written so far, \<open>dest_len\<close> is the size of the buffer. For a byte that is
  not printable \<^verbatim>\<open>snprintf\<close> writes four characters and a NUL. The result is the returned length and
  the text left in the buffer.
\<close>

fun CEscapeInternal_loop :: "string \<Rightarrow> string \<Rightarrow> int \<Rightarrow> (int \<times> string) result" where
  "CEscapeInternal_loop [] out dest_len =
     (if dest_len - int (length out) < 1 then Inr (- 1, out) else Inr (int (length out), out))"
| "CEscapeInternal_loop (c # src) out dest_len =
     (if dest_len - int (length out) < 2 then Inr (- 1, out)
      else (case escape_letter c of
              Some l \<Rightarrow> CEscapeInternal_loop src (out @ [CHR 0x5C, l]) dest_len
            | None \<Rightarrow>
                if Ascii_IsPrint c then CEscapeInternal_loop src (out @ [c]) dest_len
                else if dest_len - int (length out) < 4 then Inr (- 1, out)
                else if int (length out) + 5 > dest_len then Inl Out_of_bounds
                else CEscapeInternal_loop src
                  (out @ [CHR 0x5C, CHR ''x'', kLookupHex ! (code c div 16), kLookupHex ! (code c mod 16)])
                  dest_len))"

definition CEscapeInternal :: "string \<Rightarrow> int \<Rightarrow> (int \<times> string) result" where
  "CEscapeInternal src dest_len = CEscapeInternal_loop src [] dest_len"

text \<open>
  The two lengths are converted to \<^verbatim>\<open>int\<close>. A negative size of the array makes \<^verbatim>\<open>new\<close> throw, and from a
  negative number of bytes the loop ends at once.
\<close>

definition CEscapeString :: "string \<Rightarrow> string result" where
  "CEscapeString src =
     (let dest_length = int32_of (length src * 4 + 1); src_len = int32_of (length src)
      in if dest_length < 0 then Inl Exception_thrown
         else bindR (CEscapeInternal (take (nat src_len) src) dest_length) (\<lambda>(len, out).
           if len \<ge> 0 then Inr (take (nat len) out) else Inr []))"

section \<open>Unescaping\<close>

text \<open>What a backslash and a letter stand for.\<close>

definition unescape_letter :: "char \<Rightarrow> char option" where
  "unescape_letter c =
     (if c = CHR ''a'' then Some CHR 0x07
      else if c = CHR ''b'' then Some CHR 0x08
      else if c = CHR ''f'' then Some CHR 0x0C
      else if c = CHR ''n'' then Some CHR 0x0A
      else if c = CHR ''r'' then Some CHR 0x0D
      else if c = CHR ''t'' then Some CHR 0x09
      else if c = CHR ''v'' then Some CHR 0x0B
      else if c = CHR 0x5C then Some CHR 0x5C
      else if c = CHR ''?'' then Some CHR ''?''
      else if c = CHR 0x27 then Some CHR 0x27
      else if c = CHR 0x22 then Some CHR 0x22
      else None)"

text \<open>One more octal digit, if the next character is one; \<^verbatim>\<open>ch\<close> is a \<^verbatim>\<open>char\<close>.\<close>

definition octal_digit :: "char \<times> string \<Rightarrow> char \<times> string" where
  "octal_digit cp =
     (case cp of
        (ch, d # p) \<Rightarrow>
          if IsOctDigit d then (char_of_int (schar ch * 8 + schar d - 48), p) else (ch, d # p)
      | (ch, []) \<Rightarrow> (ch, []))"

lemma octal_digit_length: "length (snd (octal_digit (ch, p))) \<le> length p"
  by (cases p) (simp_all add: octal_digit_def)

lemma octal_digits_length: "octal_digit (octal_digit (ch, p)) = (x, r) \<Longrightarrow> length r \<le> length p"
  using octal_digit_length [of ch p] octal_digit_length [of "fst (octal_digit (ch, p))" "snd (octal_digit (ch, p))"]
  by simp

text \<open>
  The loop over the characters before the NUL: \<open>p\<close> is what is left of the source, and the result what
  is written to \<^verbatim>\<open>dest\<close>. The first loop of the function only skips characters that would be copied
  onto themselves.
\<close>

function (sequential) CUnescape_loop :: "string \<Rightarrow> string" where
  "CUnescape_loop [] = []"
| "CUnescape_loop (c # p) =
     (if c \<noteq> CHR 0x5C then c # CUnescape_loop p
      else (case p of
              [] \<Rightarrow> []
            | e # q \<Rightarrow>
                (case unescape_letter e of
                   Some l \<Rightarrow> l # CUnescape_loop q
                 | None \<Rightarrow>
                     if IsOctDigit e then
                       (case octal_digit (octal_digit (char_of_int (schar e - 48), q)) of
                          (ch, r) \<Rightarrow> ch # CUnescape_loop r)
                     else if e = CHR ''x'' \<or> e = CHR ''X'' then
                       (case q of
                          [] \<Rightarrow> CUnescape_loop q
                        | h # r \<Rightarrow>
                            if \<not> Ascii_IsHexDigit h then CUnescape_loop q
                            else (case r of
                                    [] \<Rightarrow> [char_of_int (HexDigitToInt h)]
                                  | l # t \<Rightarrow>
                                      if Ascii_IsHexDigit l
                                      then char_of_int (HexDigitToInt h * 16 + HexDigitToInt l) # CUnescape_loop t
                                      else char_of_int (HexDigitToInt h) # CUnescape_loop r))
                     else CUnescape_loop q)))"
  by pat_completeness auto

termination
  by (relation "measure length") (auto dest: octal_digits_length [OF sym])

declare CUnescape_loop.simps(2) [simp del]

definition CUnescapeString :: "string \<Rightarrow> string" where
  "CUnescapeString src = CUnescape_loop (c_str src)"

section \<open>Escaping and unescaping undo each other\<close>

text \<open>What one byte is escaped to.\<close>

definition escape_text :: "char \<Rightarrow> string" where
  "escape_text c =
     (case escape_letter c of
        Some l \<Rightarrow> [CHR 0x5C, l]
      | None \<Rightarrow>
          if Ascii_IsPrint c then [c]
          else [CHR 0x5C, CHR ''x'', kLookupHex ! (code c div 16), kLookupHex ! (code c mod 16)])"

lemma escape_text_length: "length (escape_text c) \<le> 4"
  by (simp add: escape_text_def split: option.splits)

lemma escape_texts_length: "length (concat (map escape_text src)) \<le> 4 * length src"
proof (induction src)
  case (Cons c src)
  then show ?case
    using escape_text_length [of c] by simp
qed simp

lemma CEscapeInternal_loop_fits:
  "int (length out) + 4 * int (length src) < dest_len \<Longrightarrow>
   CEscapeInternal_loop src out dest_len =
     Inr (int (length (out @ concat (map escape_text src))), out @ concat (map escape_text src))"
proof (induction src arbitrary: out)
  case (Cons c src)
  have "int (length (out @ escape_text c)) + 4 * int (length src) < dest_len"
    using Cons.prems escape_text_length [of c] by simp
  then show ?case
    using Cons.IH [of "out @ escape_text c"] Cons.prems
    by (auto simp: escape_text_def split: option.splits if_splits)
qed simp

lemma CEscapeString_eq:
  assumes "length src < 2 ^ 29"
  shows "CEscapeString src = Inr (concat (map escape_text src))"
proof -
  have "int32_of (length src * 4 + 1) = int (length src) * 4 + 1" "int32_of (length src) = int (length src)"
    using assms by (simp_all add: int32_of_small)
  then show ?thesis
    using CEscapeInternal_loop_fits [of "[]" src "int (length src) * 4 + 1"]
    by (simp add: CEscapeString_def CEscapeInternal_def Let_def)
qed

text \<open>The letters of the two tables correspond.\<close>

lemma escape_letter_cases:
  "escape_letter c = Some l \<Longrightarrow> unescape_letter l = Some c"
  by (auto simp: escape_letter_def unescape_letter_def split: if_splits)

lemma escape_letter_None: "escape_letter c = None \<Longrightarrow> c \<noteq> CHR 0x5C"
  by (auto simp: escape_letter_def)

lemma less_16_cases:
  "(n::nat) < 16 \<Longrightarrow> n \<in> {0, 1, 2, 3, 4, 5, 6, 7, 8, 9, 10, 11, 12, 13, 14, 15}"
  unfolding insert_iff empty_iff by presburger

lemma kLookupHex_digit:
  "n < 16 \<Longrightarrow> Ascii_IsHexDigit (kLookupHex ! n) \<and> HexDigitToInt (kLookupHex ! n) = int n"
  by (drule less_16_cases, elim insertE emptyE; simp add: kLookupHex_def HexDigitToInt_def Ascii_IsHexDigit_eq ctype_defs schar_def)

lemma char_of_hex_pair: "char_of_int (int (code c div 16) * 16 + int (code c mod 16)) = c"
proof -
  have "int (code c div 16) * 16 + int (code c mod 16) = int (code c)"
    using div_mult_mod_eq [of "code c" 16] by linarith
  moreover have "int (code c) mod 256 = int (code c)"
    using code_less_256 [of c] by (simp del: of_char_mod_256)
  ultimately show ?thesis
    by (simp add: char_of_int_def)
qed

lemma unescape_hex:
  "CUnescape_loop (CHR 0x5C # CHR ''x'' # kLookupHex ! (code c div 16) # kLookupHex ! (code c mod 16) # r) =
   c # CUnescape_loop r"
proof -
  have lt: "code c div 16 < 16" "code c mod 16 < 16"
    using code_less_256 [of c] by (simp_all add: div_less_iff_less_mult del: of_char_mod_256)
  have n: "unescape_letter CHR ''x'' = None" "\<not> IsOctDigit CHR ''x''"
    by (simp_all add: unescape_letter_def IsOctDigit_def schar_def)
  show ?thesis
    using kLookupHex_digit [OF lt(1)] kLookupHex_digit [OF lt(2)] char_of_hex_pair [of c] n
    by (simp add: CUnescape_loop.simps(2))
qed

lemma unescape_escape_text: "CUnescape_loop (escape_text c @ r) = c # CUnescape_loop r"
proof (cases "escape_letter c")
  case (Some l)
  then show ?thesis
    using escape_letter_cases [OF Some] by (simp add: escape_text_def CUnescape_loop.simps(2))
next
  case None
  then show ?thesis
    using escape_letter_None [OF None] unescape_hex [of c r]
    by (simp add: escape_text_def CUnescape_loop.simps(2) [of c])
qed

lemma unescape_escape_texts: "CUnescape_loop (concat (map escape_text s)) = s"
  by (induction s) (simp_all add: unescape_escape_text)

lemma kLookupHex_nonzero: "n < 16 \<Longrightarrow> kLookupHex ! n \<noteq> NUL"
  by (drule less_16_cases, elim insertE emptyE; simp add: kLookupHex_def)

lemma NUL_notin_escape_text: "NUL \<notin> set (escape_text c)"
proof -
  have "code c div 16 < 16" "code c mod 16 < 16"
    using code_less_256 [of c] by (simp_all add: div_less_iff_less_mult del: of_char_mod_256)
  then have h: "kLookupHex ! (code c div 16) \<noteq> NUL" "kLookupHex ! (code c mod 16) \<noteq> NUL"
    using kLookupHex_nonzero by blast+
  have l: "escape_letter c = Some l \<Longrightarrow> l \<noteq> NUL" for l
    by (auto simp: escape_letter_def split: if_splits)
  have "Ascii_IsPrint c \<Longrightarrow> c \<noteq> NUL"
    by (auto simp: Ascii_IsPrint_eq c_isprint_def)
  then show ?thesis
    using h l by (cases "escape_letter c") (auto simp: escape_text_def)
qed

text \<open>
  C10: for every string of fewer than \<open>2 ^ 29\<close> bytes, NUL bytes included, escaping never runs out of its
  buffer, and unescaping the escaped text gives the string back. From that length on, the size of the buffer is
  no longer an \<^verbatim>\<open>int\<close>.
\<close>

theorem CEscape_roundtrip:
  assumes "length s < 2 ^ 29"
  shows "\<exists>t. CEscapeString s = Inr t \<and> CUnescapeString t = s \<and> length t \<le> 4 * length s"
proof -
  have "NUL \<notin> set (concat (map escape_text s))"
    using NUL_notin_escape_text by auto
  then show ?thesis
    using escape_texts_length [of s] assms by (simp add: CEscapeString_eq CUnescapeString_def unescape_escape_texts)
qed

theorem CEscape_roundtrip_witness:
  "\<exists>t. CEscapeString [CHR ''a'', NUL, CHR 0x0A, CHR 0xFF] = Inr t \<and>
     CUnescapeString t = [CHR ''a'', NUL, CHR 0x0A, CHR 0xFF] \<and> length t \<le> 16"
  using CEscape_roundtrip [of "[CHR ''a'', NUL, CHR 0x0A, CHR 0xFF]"] by simp

text \<open>
  A string of \<open>2 ^ 29\<close> bytes up to fewer than \<open>2 ^ 30\<close> asks for a negative number of bytes.
\<close>

theorem CEscapeString_too_long:
  assumes "2 ^ 29 \<le> length s" "length s < 2 ^ 30"
  shows "CEscapeString s = Inl Exception_thrown"
  using assms int32_of_negative [of "length s * 4 + 1"] by (simp add: CEscapeString_def Let_def)

lemma CUnescape_loop_length: "length (CUnescape_loop p) \<le> length p"
proof (induction p rule: length_induct)
  case (1 p)
  have IH: "length (CUnescape_loop q) \<le> length q" if "length q < length p" for q
    using 1 that by blast
  show ?case
  proof (cases p)
    case (Cons c p')
    show ?thesis
    proof (cases p')
      case Nil
      then show ?thesis
        using Cons by (simp add: CUnescape_loop.simps(2))
    next
      case p': (Cons e q)
      obtain ch r where r: "octal_digit (octal_digit (char_of_int (schar e - 48), q)) = (ch, r)"
        by fastforce
      have "length r \<le> length q"
        by (rule octal_digits_length [OF r])
      moreover have "length (CUnescape_loop p') \<le> length p'" "length (CUnescape_loop q) \<le> length q"
          "length (CUnescape_loop r) \<le> length r"
        using IH [of p'] IH [of q] IH [of r] Cons p' calculation by simp_all
      moreover have "length (CUnescape_loop (tl q)) \<le> length (tl q)"
          "length (CUnescape_loop (tl (tl q))) \<le> length (tl (tl q))"
        using IH [of "tl q"] IH [of "tl (tl q)"] Cons p' by simp_all
      ultimately show ?thesis
        using Cons p' r CUnescape_loop.simps(2) [of c "e # q"]
        by (cases "unescape_letter e"; cases q; cases "tl q") simp_all
    qed
  qed simp
qed

text \<open>
  unescaping never produces more bytes than it reads, so the buffer of \<^verbatim>\<open>src.size() + 1\<close> bytes
  that \<^verbatim>\<open>CUnescapeString\<close> allocates is large enough.
\<close>

theorem CUnescape_bounds: "length (CUnescapeString src) \<le> length src"
proof -
  have "length (c_str src) \<le> length src"
    by (simp add: c_str_def length_takeWhile_le)
  then show ?thesis
    using CUnescape_loop_length [of "c_str src"] by (simp add: CUnescapeString_def)
qed

text \<open>
  C38: \<^verbatim>\<open>CEscapeInternal\<close> asks for four free bytes before it writes a hexadecimal escape, but
  \<^verbatim>\<open>snprintf\<close> writes a fifth: when exactly four bytes are left in front of an unprintable byte that has
  no escape letter, whatever was escaped before it, the write leaves the buffer.
\<close>

theorem CEscapeInternal_overflow:
  assumes "\<not> Ascii_IsPrint c" "escape_letter c = None"
  shows "CEscapeInternal (pre @ c # post) (int (length (concat (map escape_text pre))) + 4) = Inl Out_of_bounds"
proof -
  have "CEscapeInternal_loop (pre @ c # post) out
      (int (length out) + int (length (concat (map escape_text pre))) + 4) = Inl Out_of_bounds" for out
  proof (induction pre arbitrary: out)
    case Nil
    then show ?case
      using assms by simp
  next
    case (Cons d pre)
    then show ?case
      using Cons.IH [of "out @ escape_text d"]
      by (auto simp: escape_text_def algebra_simps split: option.splits if_splits)
  qed
  from this [of "[]"] show ?thesis
    by (simp add: CEscapeInternal_def)
qed

theorem CEscapeInternal_overflow_witness:
  "CEscapeInternal [CHR ''o'', CHR 0x0A, CHR 0x02, CHR 0x01] 11 = Inl Out_of_bounds"
  using CEscapeInternal_overflow [of "CHR 0x01" "[CHR ''o'', CHR 0x0A, CHR 0x02]" "[]"]
  by (simp add: Ascii_IsPrint_eq c_isprint_def escape_letter_def escape_text_def)

lemma nibbles_of_int:
  fixes k :: int
  assumes "0 \<le> k" "k < 256"
  shows "k div 16 mod 16 = k div 16" "(k - 256) div 16 mod 16 = k div 16" "(k - 256) mod 16 = k mod 16"
proof -
  have d: "0 \<le> k div 16" "k div 16 < 16"
    using assms by linarith+
  then show "k div 16 mod 16 = k div 16"
    by simp
  have "(k - 256) div 16 = k div 16 - 16"
    by linarith
  then show "(k - 256) div 16 mod 16 = k div 16"
    using d by (simp add: mod_diff_eq [symmetric])
  show "(k - 256) mod 16 = k mod 16"
    by presburger
qed

lemma nibbles: "nat (drop_bit 4 (schar c) AND 0xF) = code c div 16" "nat (schar c AND 0xF) = code c mod 16"
proof -
  have lt: "code c < 256"
    by (rule code_less_256)
  have m: "x AND 0xF = x mod 16" for x :: int
    using take_bit_eq_mask [of 4 x] by (simp add: take_bit_eq_mod mask_eq_exp_minus_1)
  have "drop_bit 4 (schar c) AND 0xF = schar c div 16 mod 16" "schar c AND 0xF = schar c mod 16"
    by (simp_all add: drop_bit_eq_div m)
  moreover have "schar c div 16 mod 16 = int (code c div 16)" "schar c mod 16 = int (code c mod 16)"
    using nibbles_of_int [of "int (code c)"] lt unfolding schar_def
    by (simp_all add: zdiv_int zmod_int del: of_char_mod_256)
  ultimately show "nat (drop_bit 4 (schar c) AND 0xF) = code c div 16" "nat (schar c AND 0xF) = code c mod 16"
    by (simp_all del: of_char_mod_256)
qed

text \<open>\<^verbatim>\<open>HexDump\<close> prints every byte as two hexadecimal digits, from which the byte can be read back.\<close>

theorem HexDump_readable:
  "length (HexDump s) = 2 * length s \<and>
   (i < length s \<longrightarrow>
      char_of_int (HexDigitToInt (HexDump s ! (2 * i)) * 16 + HexDigitToInt (HexDump s ! (2 * i + 1))) = s ! i)"
proof (induction s arbitrary: i)
  case (Cons c s)
  have lt: "code c div 16 < 16" "code c mod 16 < 16"
    using code_less_256 [of c] by (simp_all add: div_less_iff_less_mult del: of_char_mod_256)
  have h: "HexDump (c # s) = kLookupHex ! (code c div 16) # kLookupHex ! (code c mod 16) # HexDump s"
    by (simp add: HexDump_def nibbles)
  show ?case
    using Cons.IH [of "i - 1"] kLookupHex_digit [OF lt(1)] kLookupHex_digit [OF lt(2)] char_of_hex_pair [of c]
    by (cases i) (simp_all add: h)
qed (simp add: HexDump_def)

theorem HexDump_readable_witness:
  "char_of_int (HexDigitToInt (HexDump ''az'' ! 2) * 16 + HexDigitToInt (HexDump ''az'' ! 3)) = CHR ''z''"
  using HexDump_readable [of "''az''" 1] by simp

end
