(* ===== verification/Tea.thy ===== *)
theory Tea
  imports Neptune_Prelude
begin

unbundle bit_operations_syntax

text \<open>
  The symmetric cipher of \<^verbatim>\<open>app/qzap/common/encrypt/tea/tea.cc\<close>: sixteen rounds of TEA on blocks of eight
  bytes, chained with two running blocks, over a plain text that is framed as one byte with the padding length,
  the padding, two bytes of salt, the body and seven zero bytes. Buffers are lists of 8-bit words. The main result is
  that \<^verbatim>\<open>Decrypt\<close> undoes \<^verbatim>\<open>Encrypt\<close> for every key of sixteen bytes and every state of the random
  number generator, as long as the length of the cipher text is an \<^verbatim>\<open>int32_t\<close>.
\<close>

type_synonym bytes = "8 word list"

section \<open>The random number generator\<close>

text \<open>
  The state is the static variable \<^verbatim>\<open>holdrand\<close>, stored in 32 bits; its start value, from the process id and
  the clock, is an argument of the functions below.
\<close>

definition xrand :: "32 word \<Rightarrow> 32 word \<times> 32 word" where
  "xrand holdrand =
     (let holdrand = holdrand * 214013 + 2531011
      in (holdrand, drop_bit 16 holdrand AND 0x7fff))"

section \<open>One block\<close>

definition kDelta :: "32 word" where "kDelta = 0x9e3779b9"

definition kRounds :: nat where "kRounds = 16"

definition kLogRounds :: nat where "kLogRounds = 4"

definition kSaltLen :: nat where "kSaltLen = 2"

definition kZeroLen :: nat where "kZeroLen = 7"

text \<open>\<^verbatim>\<open>ntohl\<close> of four bytes, and \<^verbatim>\<open>htonl\<close> of a word stored as four bytes.\<close>

definition be32 :: "8 word \<Rightarrow> 8 word \<Rightarrow> 8 word \<Rightarrow> 8 word \<Rightarrow> 32 word" where
  "be32 a b c d = push_bit 24 (ucast a) OR push_bit 16 (ucast b) OR push_bit 8 (ucast c) OR ucast d"

definition load_be32 :: "bytes \<Rightarrow> nat \<Rightarrow> 32 word result" where
  "load_be32 buf i =
     (if i + 4 \<le> length buf
      then Inr (be32 (buf ! i) (buf ! (i + 1)) (buf ! (i + 2)) (buf ! (i + 3)))
      else Inl Out_of_bounds)"

definition be32_bytes :: "32 word \<Rightarrow> bytes" where
  "be32_bytes w = [ucast (drop_bit 24 w), ucast (drop_bit 16 w), ucast (drop_bit 8 w), ucast w]"

type_synonym tea_key = "32 word \<times> 32 word \<times> 32 word \<times> 32 word"

definition load_key :: "bytes \<Rightarrow> tea_key result" where
  "load_key pKey =
     bindR (load_be32 pKey 0) (\<lambda>k0. bindR (load_be32 pKey 4) (\<lambda>k1.
     bindR (load_be32 pKey 8) (\<lambda>k2. bindR (load_be32 pKey 12) (\<lambda>k3. Inr (k0, k1, k2, k3)))))"

fun encrypt_rounds :: "nat \<Rightarrow> tea_key \<Rightarrow> 32 word \<Rightarrow> 32 word \<Rightarrow> 32 word \<Rightarrow> 32 word \<times> 32 word" where
  "encrypt_rounds 0 k s y z = (y, z)"
| "encrypt_rounds (Suc n) (k0, k1, k2, k3) s y z =
     (let s = s + kDelta;
          y = y + ((push_bit 4 z + k0) XOR (z + s) XOR (drop_bit 5 z + k1));
          z = z + ((push_bit 4 y + k2) XOR (y + s) XOR (drop_bit 5 y + k3))
      in encrypt_rounds n (k0, k1, k2, k3) s y z)"

fun decrypt_rounds :: "nat \<Rightarrow> tea_key \<Rightarrow> 32 word \<Rightarrow> 32 word \<Rightarrow> 32 word \<Rightarrow> 32 word \<times> 32 word" where
  "decrypt_rounds 0 k s y z = (y, z)"
| "decrypt_rounds (Suc n) (k0, k1, k2, k3) s y z =
     (let z = z - ((push_bit 4 y + k2) XOR (y + s) XOR (drop_bit 5 y + k3));
          y = y - ((push_bit 4 z + k0) XOR (z + s) XOR (drop_bit 5 z + k1))
      in decrypt_rounds n (k0, k1, k2, k3) (s - kDelta) y z)"

definition TeaEncryptECB :: "bytes \<Rightarrow> bytes \<Rightarrow> bytes result" where
  "TeaEncryptECB pInBuf pKey =
     bindR (load_be32 pInBuf 0) (\<lambda>y. bindR (load_be32 pInBuf 4) (\<lambda>z.
     bindR (load_key pKey) (\<lambda>k.
       let (y, z) = encrypt_rounds kRounds k 0 y z in Inr (be32_bytes y @ be32_bytes z))))"

definition TeaDecryptECB :: "bytes \<Rightarrow> bytes \<Rightarrow> bytes result" where
  "TeaDecryptECB pInBuf pKey =
     bindR (load_be32 pInBuf 0) (\<lambda>y. bindR (load_be32 pInBuf 4) (\<lambda>z.
     bindR (load_key pKey) (\<lambda>k.
       let (y, z) = decrypt_rounds kRounds k (push_bit kLogRounds kDelta) y z
       in Inr (be32_bytes y @ be32_bytes z))))"

definition xor_bytes :: "bytes \<Rightarrow> bytes \<Rightarrow> bytes" where
  "xor_bytes a b = map2 (XOR) a b"

section \<open>Encryption\<close>

text \<open>
  The lengths are \<^verbatim>\<open>int32_t\<close>: the length of the frame without its padding, the padding that makes it a
  multiple of eight, and the sum of the two. A sum that does not fit is a signed overflow.
\<close>

definition frame_sum :: "int \<Rightarrow> int result" where
  "frame_sum nInBufLen = checked_int32 (nInBufLen + 1 + int kSaltLen + int kZeroLen)"

definition pad_len :: "int \<Rightarrow> int" where
  "pad_len nPadSaltBodyZeroLen =
     (let nPadlen = c_rem nPadSaltBodyZeroLen 8
      in if nPadlen \<noteq> 0 then 8 - nPadlen else nPadlen)"

definition oi_symmetry_encrypt2_len :: "int \<Rightarrow> int result" where
  "oi_symmetry_encrypt2_len nInBufLen =
     bindR (frame_sum nInBufLen) (\<lambda>nPadSaltBodyZeroLen.
       checked_int32 (nPadSaltBodyZeroLen + pad_len nPadSaltBodyZeroLen))"

text \<open>
  The local state of \<^verbatim>\<open>oi_symmetry_encrypt2\<close>: \<open>src_buf\<close> holds the first \<^verbatim>\<open>src_i\<close> bytes of the
  array, \<open>out_buf\<close> what has been written to the output, whose size is \<open>out_cap\<close>.
\<close>

record encryptor =
  src_buf :: bytes
  iv_plain :: bytes
  iv_crypt :: bytes
  out_buf :: bytes
  out_cap :: nat
  holdrand :: "32 word"

text \<open>The block under \<^verbatim>\<open>if (src_i == 8)\<close>, which the function has three times.\<close>

definition flush_block :: "bytes \<Rightarrow> encryptor \<Rightarrow> encryptor result" where
  "flush_block pKey st =
     (if length (out_buf st) + 8 \<le> out_cap st then
        (let src = xor_bytes (src_buf st) (iv_crypt st)
         in bindR (TeaEncryptECB src pKey) (\<lambda>enc.
              let out = xor_bytes enc (iv_plain st)
              in Inr (st\<lparr>src_buf := [], iv_plain := src, iv_crypt := out, out_buf := out_buf st @ out\<rparr>)))
      else Inl Out_of_bounds)"

text \<open>Storing one byte into the array, and the rest of an iteration.\<close>

definition put_byte :: "bytes \<Rightarrow> 8 word \<Rightarrow> encryptor \<Rightarrow> encryptor result" where
  "put_byte pKey b st =
     (let st = st\<lparr>src_buf := src_buf st @ [b]\<rparr>
      in if length (src_buf st) = 8 then flush_block pKey st else Inr st)"

definition next_rand :: "encryptor \<Rightarrow> 8 word \<times> encryptor" where
  "next_rand st = (let (h, r) = xrand (holdrand st) in (ucast r, st\<lparr>holdrand := h\<rparr>))"

fun pad_loop :: "nat \<Rightarrow> encryptor \<Rightarrow> encryptor result" where
  "pad_loop 0 st = Inr st"
| "pad_loop (Suc nPadlen) st =
     (if length (src_buf st) < 8
      then (let (b, st) = next_rand st in pad_loop nPadlen (st\<lparr>src_buf := src_buf st @ [b]\<rparr>))
      else Inl Out_of_bounds)"

text \<open>
  The three loops: while bytes are left and the array is not full a byte is stored; a full array, which only the
  padding can leave, is flushed first.
\<close>

fun salt_loop :: "nat \<Rightarrow> bytes \<Rightarrow> encryptor \<Rightarrow> encryptor result" where
  "salt_loop 0 pKey st = Inr st"
| "salt_loop (Suc n) pKey st =
     bindR (if length (src_buf st) = 8 then flush_block pKey st else Inr st) (\<lambda>st.
       if length (src_buf st) < 8 then
         (let (b, st) = next_rand st in bindR (put_byte pKey b st) (\<lambda>st. salt_loop n pKey st))
       else Inl Out_of_bounds)"

fun body_loop :: "bytes \<Rightarrow> bytes \<Rightarrow> encryptor \<Rightarrow> encryptor result" where
  "body_loop [] pKey st = Inr st"
| "body_loop (b # pInBuf) pKey st =
     bindR (if length (src_buf st) = 8 then flush_block pKey st else Inr st) (\<lambda>st.
       if length (src_buf st) < 8 then bindR (put_byte pKey b st) (\<lambda>st. body_loop pInBuf pKey st)
       else Inl Out_of_bounds)"

fun zero_loop :: "nat \<Rightarrow> bytes \<Rightarrow> encryptor \<Rightarrow> encryptor result" where
  "zero_loop 0 pKey st = Inr st"
| "zero_loop (Suc n) pKey st =
     bindR (if length (src_buf st) = 8 then flush_block pKey st else Inr st) (\<lambda>st.
       if length (src_buf st) < 8 then bindR (put_byte pKey 0 st) (\<lambda>st. zero_loop n pKey st)
       else Inl Out_of_bounds)"

text \<open>
  The loop over the body counts \<^verbatim>\<open>nInBufLen\<close> down to zero; from a negative length, or one beyond the buffer,
  it goes on behind the buffer.
\<close>

definition body_of_length :: "bytes \<Rightarrow> int \<Rightarrow> bytes \<Rightarrow> encryptor \<Rightarrow> encryptor result" where
  "body_of_length pInBuf nInBufLen pKey st =
     (if 0 \<le> nInBufLen \<and> nInBufLen \<le> int (length pInBuf) then body_loop (take (nat nInBufLen) pInBuf) pKey st
      else bindR (body_loop pInBuf pKey st) (\<lambda>st. Inl Out_of_bounds))"

definition oi_symmetry_encrypt2 :: "bytes \<Rightarrow> int \<Rightarrow> bytes \<Rightarrow> nat \<Rightarrow> 32 word \<Rightarrow> encryptor result" where
  "oi_symmetry_encrypt2 pInBuf nInBufLen pKey cap seed =
     bindR (frame_sum nInBufLen) (\<lambda>nPadSaltBodyZeroLen.
      let nPadlen = pad_len nPadSaltBodyZeroLen;
          st = \<lparr>src_buf = [], iv_plain = replicate 8 0, iv_crypt = replicate 8 0, out_buf = [], out_cap = cap,
                holdrand = seed\<rparr>;
          (b, st) = next_rand st;
          st = st\<lparr>src_buf := [(b AND 0xf8) OR word_of_int nPadlen]\<rparr>
      in bindR (pad_loop (nat nPadlen) st) (\<lambda>st.
         bindR (salt_loop kSaltLen pKey st) (\<lambda>st.
         bindR (body_of_length pInBuf nInBufLen pKey st) (\<lambda>st.
           zero_loop kZeroLen pKey st))))"

text \<open>
  \<^verbatim>\<open>tea::Encrypt\<close>: the cipher text and the new state of the generator. Text and key are read from their C
  strings; the length of the text is converted to \<^verbatim>\<open>int\<close>; a negative size makes \<^verbatim>\<open>resize\<close> throw.
\<close>

definition Encrypt :: "bytes \<Rightarrow> bytes \<Rightarrow> 32 word \<Rightarrow> (bytes \<times> 32 word) result" where
  "Encrypt plain_text key seed =
     (let nInBufLen = int32_of (length plain_text)
      in bindR (oi_symmetry_encrypt2_len nInBufLen) (\<lambda>len.
           if len < 0 then Inl Exception_thrown
           else bindR (oi_symmetry_encrypt2 (plain_text @ [0]) nInBufLen (key @ [0]) (nat len) seed) (\<lambda>st.
             Inr (out_buf st, holdrand st))))"

section \<open>Decryption\<close>

record decryptor =
  dest_buf :: bytes
  dest_i :: nat
  iv_pre_crypt :: bytes
  iv_cur_crypt :: bytes
  nBufPos :: nat

text \<open>The block under \<^verbatim>\<open>dest_i == 8\<close>, which the function has three times: \<open>None\<close> is \<^verbatim>\<open>return false\<close>.\<close>

definition next_block :: "bytes \<Rightarrow> bytes \<Rightarrow> decryptor \<Rightarrow> decryptor option result" where
  "next_block pInBuf pKey st =
     (if nBufPos st + 8 > length pInBuf then Inr None
      else (let cur = slice pInBuf (nBufPos st) 8
            in bindR (TeaDecryptECB (xor_bytes (dest_buf st) cur) pKey) (\<lambda>dest.
                 Inr (Some (st\<lparr>dest_buf := dest, dest_i := 0, iv_pre_crypt := iv_cur_crypt st, iv_cur_crypt := cur,
                               nBufPos := nBufPos st + 8\<rparr>)))))"

definition plain_byte :: "decryptor \<Rightarrow> 8 word" where
  "plain_byte st = dest_buf st ! dest_i st XOR iv_pre_crypt st ! dest_i st"

text \<open>
  One iteration of each loop either uses a byte or, at the end of the block, opens the next one; the two are put
  together here, so that the loops recurse on the number of bytes still to be used.
\<close>

definition open_block :: "bytes \<Rightarrow> bytes \<Rightarrow> decryptor \<Rightarrow> decryptor option result" where
  "open_block pInBuf pKey st = (if dest_i st < 8 then Inr (Some st) else next_block pInBuf pKey st)"

fun skip_salt_loop :: "nat \<Rightarrow> bytes \<Rightarrow> bytes \<Rightarrow> decryptor \<Rightarrow> decryptor option result" where
  "skip_salt_loop 0 pInBuf pKey st = Inr (Some st)"
| "skip_salt_loop (Suc n) pInBuf pKey st =
     bindR (open_block pInBuf pKey st) (\<lambda>r. case r of
         None \<Rightarrow> Inr None
       | Some st \<Rightarrow> skip_salt_loop n pInBuf pKey (st\<lparr>dest_i := dest_i st + 1\<rparr>))"

fun plain_loop :: "nat \<Rightarrow> bytes \<Rightarrow> bytes \<Rightarrow> decryptor \<Rightarrow> bytes \<Rightarrow> (bytes \<times> decryptor) option result" where
  "plain_loop 0 pInBuf pKey st pOutBuf = Inr (Some (pOutBuf, st))"
| "plain_loop (Suc n) pInBuf pKey st pOutBuf =
     bindR (open_block pInBuf pKey st) (\<lambda>r. case r of
         None \<Rightarrow> Inr None
       | Some st \<Rightarrow> plain_loop n pInBuf pKey (st\<lparr>dest_i := dest_i st + 1\<rparr>) (pOutBuf @ [plain_byte st]))"

fun check_zero_loop :: "nat \<Rightarrow> bytes \<Rightarrow> bytes \<Rightarrow> decryptor \<Rightarrow> bool result" where
  "check_zero_loop 0 pInBuf pKey st = Inr True"
| "check_zero_loop (Suc n) pInBuf pKey st =
     bindR (open_block pInBuf pKey st) (\<lambda>r. case r of
         None \<Rightarrow> Inr False
       | Some st \<Rightarrow>
           if plain_byte st \<noteq> 0 then Inr False
           else check_zero_loop n pInBuf pKey (st\<lparr>dest_i := dest_i st + 1\<rparr>))"

text \<open>
  \<open>out_len\<close> is \<^verbatim>\<open>*pOutBufLen\<close> on entry, the size of the output buffer; the result is the plain text, or
  \<open>None\<close> for \<^verbatim>\<open>false\<close>. Only the first \<^verbatim>\<open>nInBufLen\<close> bytes of the input are read.
\<close>

definition oi_symmetry_decrypt2 :: "bytes \<Rightarrow> int \<Rightarrow> bytes \<Rightarrow> int \<Rightarrow> bytes option result" where
  "oi_symmetry_decrypt2 pInBuf nInBufLen pKey out_len =
     (if c_rem nInBufLen 8 \<noteq> 0 \<or> nInBufLen < 16 then Inr None
      else if nInBufLen > int (length pInBuf) then Inl Out_of_bounds
      else (let pInBuf = take (nat nInBufLen) pInBuf
            in bindR (TeaDecryptECB (take 8 pInBuf) pKey) (\<lambda>dest.
           let nPadLen = unat (dest ! 0 AND 7);
               i = nInBufLen - 1 - int nPadLen - int kSaltLen - int kZeroLen
           in if out_len < i \<or> i < 0 then Inr None
              else bindR (skip_salt_loop kSaltLen pInBuf pKey
                      \<lparr>dest_buf = dest, dest_i = 1 + nPadLen, iv_pre_crypt = replicate 8 0,
                       iv_cur_crypt = take 8 pInBuf, nBufPos = 8\<rparr>) (\<lambda>r. case r of
                  None \<Rightarrow> Inr None
                | Some st \<Rightarrow>
                    bindR (plain_loop (nat i) pInBuf pKey st []) (\<lambda>r. case r of
                        None \<Rightarrow> Inr None
                      | Some (plain, st) \<Rightarrow>
                          bindR (check_zero_loop kZeroLen pInBuf pKey st) (\<lambda>ok.
                            Inr (if ok then Some plain else None)))))))"

text \<open>
  The argument \<open>plain_text\<close> is what the output string held before the call. Both lengths are converted to
  \<^verbatim>\<open>int32_t\<close>.
\<close>

definition Decrypt :: "bytes \<Rightarrow> bytes \<Rightarrow> bytes \<Rightarrow> (bool \<times> bytes) result" where
  "Decrypt encrypted_text key plain_text =
     (if length key \<noteq> 16 then Inr (False, plain_text)
      else if encrypted_text = [] then Inr (True, [])
      else bindR (oi_symmetry_decrypt2 (encrypted_text @ [0]) (int32_of (length encrypted_text)) (key @ [0])
                    (int32_of (length encrypted_text))) (\<lambda>r.
        Inr (case r of None \<Rightarrow> (False, []) | Some plain_text \<Rightarrow> (True, plain_text))))"

section \<open>A block is decrypted to what was encrypted\<close>

lemma byte_bit: "8 \<le> n \<Longrightarrow> \<not> bit (x :: 8 word) n"
  using bit_imp_le_length [of x n] by auto

lemma be32_roundtrip:
  "be32 (ucast (drop_bit 24 w)) (ucast (drop_bit 16 w)) (ucast (drop_bit 8 w)) (ucast w) = w"
proof (rule bit_word_eqI)
  fix n
  assume "n < LENGTH(32)"
  then consider "n < 8" | "8 \<le> n" "n < 16" | "16 \<le> n" "n < 24" | "24 \<le> n" "n < 32"
    by fastforce
  then show "bit (be32 (ucast (drop_bit 24 w)) (ucast (drop_bit 16 w)) (ucast (drop_bit 8 w)) (ucast w)) n = bit w n"
    by cases (auto simp: be32_def bit_simps)
qed

lemma be32_bytes_be32: "be32_bytes (be32 a b c d) = [a, b, c, d]"
proof -
  have "ucast (drop_bit 24 (be32 a b c d)) = a" "ucast (drop_bit 16 (be32 a b c d)) = b"
    "ucast (drop_bit 8 (be32 a b c d)) = c" "ucast (be32 a b c d) = d"
    by (auto intro!: bit_word_eqI simp: be32_def bit_simps byte_bit)
  then show ?thesis
    by (simp add: be32_bytes_def)
qed

lemma length_be32_bytes [simp]: "length (be32_bytes w) = 4"
  by (simp add: be32_bytes_def)

text \<open>One round each way, for the sum of that round.\<close>

fun encrypt_round :: "tea_key \<Rightarrow> 32 word \<Rightarrow> 32 word \<times> 32 word \<Rightarrow> 32 word \<times> 32 word" where
  "encrypt_round (k0, k1, k2, k3) s (y, z) =
     (let y = y + ((push_bit 4 z + k0) XOR (z + s) XOR (drop_bit 5 z + k1))
      in (y, z + ((push_bit 4 y + k2) XOR (y + s) XOR (drop_bit 5 y + k3))))"

fun decrypt_round :: "tea_key \<Rightarrow> 32 word \<Rightarrow> 32 word \<times> 32 word \<Rightarrow> 32 word \<times> 32 word" where
  "decrypt_round (k0, k1, k2, k3) s (y, z) =
     (let z = z - ((push_bit 4 y + k2) XOR (y + s) XOR (drop_bit 5 y + k3))
      in (y - ((push_bit 4 z + k0) XOR (z + s) XOR (drop_bit 5 z + k1)), z))"

lemma round_inverse: "decrypt_round k s (encrypt_round k s x) = x"
  by (cases k; cases x) (simp add: Let_def)

lemma encrypt_rounds_Suc:
  "encrypt_rounds (Suc n) k s y z = case_prod (encrypt_rounds n k (s + kDelta)) (encrypt_round k (s + kDelta) (y, z))"
  by (cases k) (simp add: Let_def)

lemma decrypt_rounds_Suc:
  "decrypt_rounds (Suc n) k s y z = case_prod (decrypt_rounds n k (s - kDelta)) (decrypt_round k s (y, z))"
  by (cases k) (simp add: Let_def)

lemma decrypt_rounds_last:
  "decrypt_rounds (Suc n) k s y z = decrypt_round k (s - word_of_nat n * kDelta) (decrypt_rounds n k s y z)"
proof (induction n arbitrary: s y z)
  case 0
  then show ?case
    by (simp add: decrypt_rounds_Suc split: prod.split)
next
  case (Suc n)
  have "s - kDelta - word_of_nat n * kDelta = s - word_of_nat (Suc n) * kDelta"
    by (simp add: algebra_simps)
  moreover obtain y1 z1 where "decrypt_round k s (y, z) = (y1, z1)"
    by (cases "decrypt_round k s (y, z)")
  ultimately show ?case
    using Suc [of "s - kDelta" y1 z1]
    by (simp only: decrypt_rounds_Suc [of "Suc n" k s y z] decrypt_rounds_Suc [of n k s y z] prod.case)
qed

lemma decrypt_encrypt_rounds:
  "encrypt_rounds n k s y z = (y', z') \<Longrightarrow>
   decrypt_rounds n k (s + word_of_nat n * kDelta) y' z' = (y, z)"
proof (induction n arbitrary: s y z)
  case (Suc n)
  obtain y1 z1 where r: "encrypt_round k (s + kDelta) (y, z) = (y1, z1)"
    by (cases "encrypt_round k (s + kDelta) (y, z)")
  have "encrypt_rounds n k (s + kDelta) y1 z1 = (y', z')"
    using Suc.prems r by (simp only: encrypt_rounds_Suc prod.case)
  note IH = Suc.IH [OF this]
  have "s + word_of_nat (Suc n) * kDelta = s + kDelta + word_of_nat n * kDelta"
    by (simp add: algebra_simps)
  then have "decrypt_rounds (Suc n) k (s + word_of_nat (Suc n) * kDelta) y' z' = decrypt_round k (s + kDelta) (y1, z1)"
    using IH by (simp add: decrypt_rounds_last add.assoc del: decrypt_rounds.simps)
  also have "\<dots> = (y, z)"
    using round_inverse [of k "s + kDelta" "(y, z)"] r by simp
  finally show ?case .
qed simp

lemma load_be32_append:
  "load_be32 (be32_bytes w @ r) 0 = Inr w" "load_be32 (be32_bytes v @ be32_bytes w @ r) 4 = Inr w"
  by (simp_all add: load_be32_def be32_bytes_def be32_roundtrip)

lemma ECB_roundtrip:
  assumes "length p = 8" "TeaEncryptECB p key = Inr c"
  shows "TeaDecryptECB c key = Inr p \<and> length c = 8"
proof -
  obtain a0 a1 a2 a3 b0 b1 b2 b3 where p: "p = [a0, a1, a2, a3, b0, b1, b2, b3]"
    using assms(1) by (auto simp: length_Suc_conv numeral_eq_Suc)
  obtain k where k: "load_key key = Inr k"
    using assms(2) by (cases "load_key key") (auto simp: TeaEncryptECB_def load_be32_def p)
  obtain y z where yz: "encrypt_rounds kRounds k 0 (be32 a0 a1 a2 a3) (be32 b0 b1 b2 b3) = (y, z)"
    by (cases "encrypt_rounds kRounds k 0 (be32 a0 a1 a2 a3) (be32 b0 b1 b2 b3)")
  have c: "c = be32_bytes y @ be32_bytes z"
    using assms(2) k yz by (simp add: TeaEncryptECB_def load_be32_def p)
  have "push_bit kLogRounds kDelta = 0 + word_of_nat kRounds * kDelta"
    by (simp add: kLogRounds_def kRounds_def push_bit_eq_mult)
  then have "decrypt_rounds kRounds k (push_bit kLogRounds kDelta) y z = (be32 a0 a1 a2 a3, be32 b0 b1 b2 b3)"
    using decrypt_encrypt_rounds [OF yz] by simp
  then show ?thesis
    using k load_be32_append(1) [of y "be32_bytes z"] load_be32_append(2) [of y z "[]"]
    by (simp add: TeaDecryptECB_def c be32_bytes_be32 p)
qed

section \<open>The chain of blocks\<close>

definition ecb :: "bytes \<Rightarrow> bytes \<Rightarrow> bytes" where
  "ecb key p = projr (TeaEncryptECB p key)"

lemma ecb_ok:
  assumes "16 \<le> length key" "length p = 8"
  shows "TeaEncryptECB p key = Inr (ecb key p)" "length (ecb key p) = 8" "TeaDecryptECB (ecb key p) key = Inr p"
proof -
  show e: "TeaEncryptECB p key = Inr (ecb key p)"
    using assms by (simp add: ecb_def TeaEncryptECB_def load_be32_def load_key_def split: prod.split)
  show "length (ecb key p) = 8" "TeaDecryptECB (ecb key p) key = Inr p"
    using ECB_roundtrip [OF assms(2) e] by simp_all
qed

lemma length_xor_bytes [simp]: "length (xor_bytes a b) = min (length a) (length b)"
  by (simp add: xor_bytes_def)

lemma nth_xor_bytes: "i < length a \<Longrightarrow> i < length b \<Longrightarrow> xor_bytes a b ! i = a ! i XOR b ! i"
  by (simp add: xor_bytes_def)

lemma xor_cancel: "a XOR (b XOR a) = (b :: 8 word)" "(b XOR a) XOR a = (b :: 8 word)"
  by (auto intro!: bit_word_eqI simp: bit_simps)

lemma xor_bytes_cancel: "length a = length b \<Longrightarrow> xor_bytes a (xor_bytes b a) = b" "length a = length b \<Longrightarrow> xor_bytes (xor_bytes b a) a = b"
  by (auto intro!: nth_equalityI simp: nth_xor_bytes xor_cancel)

lemma xor_bytes_zero [simp]: "length a = n \<Longrightarrow> xor_bytes a (replicate n 0) = a"
  by (auto intro!: nth_equalityI simp: nth_xor_bytes)

text \<open>
  For a list of plain blocks, the blocks that go into the cipher and the ones that come out of the chaining.
\<close>

fun chain :: "bytes \<Rightarrow> bytes \<times> bytes \<Rightarrow> bytes list \<Rightarrow> (bytes \<times> bytes) list" where
  "chain key xc [] = []"
| "chain key xc (p # ps) =
     (let x = xor_bytes p (snd xc); c = xor_bytes (ecb key x) (fst xc) in (x, c) # chain key (x, c) ps)"

abbreviation blocks :: "bytes list \<Rightarrow> bool" where
  "blocks ps \<equiv> (\<forall>p \<in> set ps. length p = 8)"

abbreviation zero_iv :: "bytes \<times> bytes" where
  "zero_iv \<equiv> (replicate 8 0, replicate 8 0)"

lemma length_chain [simp]: "length (chain key xc ps) = length ps"
  by (induction ps arbitrary: xc) (simp_all add: Let_def)

lemma chain_append: "chain key xc (ps @ qs) = chain key xc ps @ chain key (last (xc # chain key xc ps)) qs"
  by (induction ps arbitrary: xc) (simp_all add: Let_def)

lemma chain_blocks:
  assumes "16 \<le> length key" "blocks ps" "length (fst xc) = 8" "length (snd xc) = 8"
  shows "\<forall>(x, c) \<in> set (xc # chain key xc ps). length x = 8 \<and> length c = 8"
  using assms(2-4)
proof (induction ps arbitrary: xc)
  case (Cons p ps)
  let ?x = "xor_bytes p (snd xc)"
  have "length ?x = 8" "length (ecb key ?x) = 8"
    using Cons.prems ecb_ok(2) [OF assms(1), of ?x] by simp_all
  then have "\<forall>(x, c) \<in> set ((?x, xor_bytes (ecb key ?x) (fst xc)) # chain key (?x, xor_bytes (ecb key ?x) (fst xc)) ps).
      length x = 8 \<and> length c = 8"
    using Cons.prems by (intro Cons.IH) simp_all
  then show ?case
    using Cons.prems by (cases xc) (simp add: Let_def)
qed (auto split: prod.splits)

lemma concat_blocks_length: "blocks ps \<Longrightarrow> length (concat ps) = 8 * length ps"
  by (induction ps) simp_all

section \<open>What encryption writes\<close>

definition written :: "bytes \<Rightarrow> bytes \<Rightarrow> encryptor \<Rightarrow> bool" where
  "written key s st \<longleftrightarrow>
     (\<exists>ps. blocks ps \<and> s = concat ps @ src_buf st \<and> length (src_buf st) \<le> 8 \<and>
       out_buf st = concat (map snd (chain key zero_iv ps)) \<and>
       (iv_plain st, iv_crypt st) = last (zero_iv # chain key zero_iv ps))"

lemma flush_block_written:
  assumes "16 \<le> length key" "written key s st" "length (src_buf st) = 8" "length s \<le> out_cap st"
  obtains st' where "flush_block key st = Inr st'" "written key s st'" "src_buf st' = []" "out_cap st' = out_cap st"
    "holdrand st' = holdrand st"
proof -
  obtain ps where ps: "blocks ps" "s = concat ps @ src_buf st" "out_buf st = concat (map snd (chain key zero_iv ps))"
    "(iv_plain st, iv_crypt st) = last (zero_iv # chain key zero_iv ps)"
    using assms(2) by (auto simp: written_def)
  let ?x = "xor_bytes (src_buf st) (iv_crypt st)"
  let ?c = "xor_bytes (ecb key ?x) (iv_plain st)"
  have cb: "\<forall>(x, c) \<in> set (zero_iv # chain key zero_iv ps). length x = 8 \<and> length c = 8"
    using chain_blocks [OF assms(1) ps(1), of zero_iv] by simp
  have "(iv_plain st, iv_crypt st) \<in> set (zero_iv # chain key zero_iv ps)"
    unfolding ps(4) by (rule last_in_set) simp
  from bspec [OF cb this] have iv: "length (iv_plain st) = 8" "length (iv_crypt st) = 8"
    by simp_all
  have "length (concat (map snd (chain key zero_iv ps))) = 8 * length ps"
    using cb concat_blocks_length [of "map snd (chain key zero_iv ps)"] by fastforce
  then have room: "length (out_buf st) + 8 \<le> out_cap st"
    using ps assms(3,4) concat_blocks_length [OF ps(1)] by simp
  let ?st = "st\<lparr>src_buf := [], iv_plain := ?x, iv_crypt := ?c, out_buf := out_buf st @ ?c\<rparr>"
  have "flush_block key st = Inr ?st"
    using room ecb_ok(1) [OF assms(1), of ?x] iv assms(3) by (simp add: flush_block_def Let_def)
  moreover have "written key s ?st"
  proof -
    have "chain key zero_iv (ps @ [src_buf st]) = chain key zero_iv ps @ [(?x, ?c)]"
      unfolding chain_append ps(4) [symmetric] by (simp add: Let_def)
    then show ?thesis
      using ps assms(3) unfolding written_def by (intro exI [of _ "ps @ [src_buf st]"]) auto
  qed
  ultimately show ?thesis
    using that by simp
qed

lemma put_byte_written:
  assumes "16 \<le> length key" "written key s st" "length (src_buf st) < 8" "length s < out_cap st"
  obtains st' where "put_byte key b st = Inr st'" "written key (s @ [b]) st'" "length (src_buf st') < 8"
    "out_cap st' = out_cap st" "holdrand st' = holdrand st"
proof -
  let ?st = "st\<lparr>src_buf := src_buf st @ [b]\<rparr>"
  have w: "written key (s @ [b]) ?st"
    using assms(2,3) by (auto simp: written_def)
  show ?thesis
  proof (cases "length (src_buf ?st) = 8")
    case True
    then obtain st' where "flush_block key ?st = Inr st'" "written key (s @ [b]) st'" "src_buf st' = []"
      "out_cap st' = out_cap ?st" "holdrand st' = holdrand ?st"
      using flush_block_written [OF assms(1) w] assms(4) by auto
    then show ?thesis
      using that True by (simp add: put_byte_def)
  next
    case False
    then show ?thesis
      using that [of ?st] w assms(3) by (simp add: put_byte_def)
  qed
qed

text \<open>Every loop first flushes an array that is full.\<close>

lemma ready_written:
  assumes "16 \<le> length key" "written key s st" "length s \<le> out_cap st"
  obtains st' where "(if length (src_buf st) = 8 then flush_block key st else Inr st) = Inr st'" "written key s st'"
    "length (src_buf st') < 8" "out_cap st' = out_cap st" "holdrand st' = holdrand st"
proof (cases "length (src_buf st) = 8")
  case True
  from flush_block_written [OF assms(1,2) True assms(3)] show ?thesis
    using that True by (metis length_0_conv zero_less_numeral)
next
  case False
  then have "length (src_buf st) < 8"
    using assms(2) by (auto simp: written_def)
  then show ?thesis
    using that False assms(2) by simp
qed

lemma body_loop_written:
  assumes "16 \<le> length key" "written key s st" "length s + length bs \<le> out_cap st"
  shows "\<exists>st'. body_loop bs key st = Inr st' \<and> written key (s @ bs) st' \<and> out_cap st' = out_cap st"
  using assms(2,3)
proof (induction bs arbitrary: s st)
  case (Cons b bs)
  obtain st1 where 1: "(if length (src_buf st) = 8 then flush_block key st else Inr st) = Inr st1" "written key s st1"
    "length (src_buf st1) < 8" "out_cap st1 = out_cap st"
    using ready_written [OF assms(1) Cons.prems(1)] Cons.prems(2) by auto
  obtain st2 where 2: "put_byte key b st1 = Inr st2" "written key (s @ [b]) st2" "out_cap st2 = out_cap st"
    using put_byte_written [OF assms(1) 1(2,3), of b] Cons.prems(2) 1(4) by auto
  then show ?case
    using Cons.IH [OF 2(2)] 1 Cons.prems(2) by simp
qed simp

lemma zero_loop_written:
  assumes "16 \<le> length key" "written key s st" "length s + n \<le> out_cap st" "0 < n"
  shows "\<exists>st'. zero_loop n key st = Inr st' \<and> written key (s @ replicate n 0) st' \<and> length (src_buf st') < 8"
  using assms(2-4)
proof (induction n arbitrary: s st)
  case (Suc n)
  obtain st1 where 1: "(if length (src_buf st) = 8 then flush_block key st else Inr st) = Inr st1" "written key s st1"
    "length (src_buf st1) < 8" "out_cap st1 = out_cap st"
    using ready_written [OF assms(1) Suc.prems(1)] Suc.prems(2) by auto
  obtain st2 where 2: "put_byte key 0 st1 = Inr st2" "written key (s @ [0]) st2" "length (src_buf st2) < 8"
    "out_cap st2 = out_cap st"
    using put_byte_written [OF assms(1) 1(2,3), of 0] Suc.prems(2) 1(4) by auto
  show ?case
  proof (cases n)
    case 0
    then show ?thesis
      using 1 2 by simp
  next
    case (Suc m)
    then have "\<exists>st'. zero_loop n key st2 = Inr st' \<and> written key ((s @ [0]) @ replicate n 0) st' \<and> length (src_buf st') < 8"
      using Suc.IH [OF 2(2)] Suc.prems(2) 2(4) by simp
    then show ?thesis
      using 1 2 by simp
  qed
qed simp

lemma written_holdrand [simp]: "written key s (st\<lparr>holdrand := h\<rparr>) = written key s st"
  by (simp add: written_def)

lemma next_rand_cases: "\<exists>b h. next_rand st = (b, st\<lparr>holdrand := h\<rparr>)"
  by (cases "xrand (holdrand st)") (auto simp: next_rand_def)

lemma salt_loop_written:
  assumes "16 \<le> length key" "written key s st" "length s + n \<le> out_cap st"
  shows "\<exists>st' salt. salt_loop n key st = Inr st' \<and> length salt = n \<and> written key (s @ salt) st' \<and> out_cap st' = out_cap st"
  using assms(2,3)
proof (induction n arbitrary: s st)
  case (Suc n)
  obtain st1 where 1: "(if length (src_buf st) = 8 then flush_block key st else Inr st) = Inr st1" "written key s st1"
    "length (src_buf st1) < 8" "out_cap st1 = out_cap st"
    using ready_written [OF assms(1) Suc.prems(1)] Suc.prems(2) by auto
  obtain b h where r: "next_rand st1 = (b, st1\<lparr>holdrand := h\<rparr>)"
    using next_rand_cases by blast
  have "written key s (st1\<lparr>holdrand := h\<rparr>)" "length (src_buf (st1\<lparr>holdrand := h\<rparr>)) < 8"
    "length s < out_cap (st1\<lparr>holdrand := h\<rparr>)"
    using 1 Suc.prems(2) by simp_all
  then obtain st2 where 2: "put_byte key b (st1\<lparr>holdrand := h\<rparr>) = Inr st2" "written key (s @ [b]) st2"
    "out_cap st2 = out_cap st"
    using put_byte_written [OF assms(1), of s "st1\<lparr>holdrand := h\<rparr>" b] 1(4) by auto
  obtain st' salt where "salt_loop n key st2 = Inr st'" "length salt = n" "written key ((s @ [b]) @ salt) st'"
    "out_cap st' = out_cap st"
    using Suc.IH [OF 2(2)] Suc.prems(2) 2(3) by auto
  then show ?case
    using 1 2 r by (intro exI [of _ st'] exI [of _ "b # salt"]) simp
qed simp

lemma pad_loop_written:
  assumes "written key s st" "length (src_buf st) + n \<le> 8"
  shows "\<exists>st' pad. pad_loop n st = Inr st' \<and> length pad = n \<and> written key (s @ pad) st' \<and> out_cap st' = out_cap st"
  using assms
proof (induction n arbitrary: s st)
  case (Suc n)
  obtain b h where r: "next_rand st = (b, st\<lparr>holdrand := h\<rparr>)"
    using next_rand_cases by blast
  let ?st = "st\<lparr>holdrand := h, src_buf := src_buf st @ [b]\<rparr>"
  have "written key (s @ [b]) ?st" "length (src_buf ?st) + n \<le> 8"
    using Suc.prems by (auto simp: written_def)
  from Suc.IH [OF this] obtain st' pad where "pad_loop n ?st = Inr st'" "length pad = n"
    "written key ((s @ [b]) @ pad) st'" "out_cap st' = out_cap st"
    by auto
  then show ?case
    using Suc.prems r by (intro exI [of _ st'] exI [of _ "b # pad"]) simp
qed simp

text \<open>The padding and the length of the cipher text, for a text that is short enough.\<close>

definition frame_pad :: "nat \<Rightarrow> nat" where
  "frame_pad n =
     (let r = (n + 1 + kSaltLen + kZeroLen) mod 8
      in if r \<noteq> 0 then 8 - r else r)"

definition cipher_len :: "nat \<Rightarrow> nat" where
  "cipher_len n = n + 1 + kSaltLen + kZeroLen + frame_pad n"

lemma frame_pad_bound: "frame_pad n < 8"
  by (simp add: frame_pad_def Let_def)

lemma frame_len: "cipher_len n mod 8 = 0"
proof -
  have "(m + (if m mod 8 \<noteq> 0 then 8 - m mod 8 else m mod 8)) mod 8 = 0" for m :: nat
    by presburger
  then show ?thesis
    unfolding cipher_len_def frame_pad_def Let_def .
qed

lemma cipher_len_bound:
  assumes "n + 18 \<le> 2 ^ 31"
  shows "cipher_len n < 2 ^ 31"
  using assms frame_pad_bound [of n] by (simp add: cipher_len_def kSaltLen_def kZeroLen_def)

lemma frame_sum_small: "n + 18 \<le> 2 ^ 31 \<Longrightarrow> frame_sum (int n) = Inr (int (n + 1 + kSaltLen + kZeroLen))"
  by (simp add: frame_sum_def checked_int32_def kSaltLen_def kZeroLen_def)

lemma pad_len_frame: "pad_len (int (n + 1 + kSaltLen + kZeroLen)) = int (frame_pad n)"
proof -
  have "pad_len (int m) = int (let r = m mod 8 in if r \<noteq> 0 then 8 - r else r)" for m
  proof -
    have "c_rem (int m) 8 = int (m mod 8)" "m mod 8 \<le> 8"
      using c_rem_nat [of m 8] by simp_all
    then show ?thesis
      unfolding pad_len_def Let_def by (simp only: of_nat_eq_0_iff of_nat_diff of_nat_numeral split: if_split) blast
  qed
  then show ?thesis
    by (simp only: frame_pad_def)
qed

lemma encrypt2_len_small: "n + 18 \<le> 2 ^ 31 \<Longrightarrow> oi_symmetry_encrypt2_len (int n) = Inr (int (cipher_len n))"
  using cipher_len_bound [of n] pad_len_frame [of n]
  by (simp add: oi_symmetry_encrypt2_len_def frame_sum_small checked_int32_def cipher_len_def)

lemma first_byte: "n < 8 \<Longrightarrow> unat (((b AND 0xf8) OR word_of_nat n) AND 7 :: 8 word) = n"
proof -
  assume n: "n < 8"
  have "((b AND 0xf8) OR word_of_nat n) AND 7 = (b AND (0xf8 AND 7)) OR (word_of_nat n AND 7 :: 8 word)"
    by (simp only: bit.conj_disj_distrib2 and.assoc)
  also have "\<dots> = word_of_nat n AND 7"
    by simp
  also have "\<dots> = word_of_nat n AND mask 3"
    by (simp add: mask_eq_exp_minus_1)
  finally have "((b AND 0xf8) OR word_of_nat n) AND 7 = (take_bit 3 (word_of_nat n) :: 8 word)"
    by (simp only: take_bit_eq_mask)
  moreover have "unat (take_bit 3 (word_of_nat n) :: 8 word) = take_bit 3 (take_bit 8 n)"
    by (simp add: unsigned_take_bit_eq unsigned_of_nat)
  ultimately show ?thesis
    using n by (simp add: take_bit_nat_eq_self)
qed

text \<open>The frame: the byte with the padding length, the padding, the salt, the body and the zeros.\<close>

definition framed :: "8 word \<Rightarrow> bytes \<Rightarrow> bytes \<Rightarrow> bytes \<Rightarrow> bytes" where
  "framed b pad salt body = b # pad @ salt @ body @ replicate kZeroLen 0"

lemma oi_symmetry_encrypt2_frame:
  assumes "16 \<le> length key" "length body + 18 \<le> 2 ^ 31"
  shows "\<exists>st b pad salt ps.
    oi_symmetry_encrypt2 (body @ rest) (int (length body)) key (cipher_len (length body)) seed = Inr st \<and>
    length pad = frame_pad (length body) \<and> length salt = kSaltLen \<and> unat (b AND 7) = frame_pad (length body) \<and>
    blocks ps \<and> concat ps = framed b pad salt body \<and> out_buf st = concat (map snd (chain key zero_iv ps))"
proof -
  let ?n = "frame_pad (length body)" and ?cap = "cipher_len (length body)"
  let ?st0 = "\<lparr>src_buf = [], iv_plain = replicate 8 0, iv_crypt = replicate 8 0, out_buf = [], out_cap = ?cap,
    holdrand = seed\<rparr>"
  obtain r h where r: "next_rand ?st0 = (r, ?st0\<lparr>holdrand := h\<rparr>)"
    using next_rand_cases by blast
  let ?b = "(r AND 0xf8) OR word_of_nat ?n"
  let ?st1 = "?st0\<lparr>holdrand := h, src_buf := [?b]\<rparr>"
  have cap: "?cap = 1 + ?n + kSaltLen + length body + kZeroLen"
    by (simp add: cipher_len_def)
  have "written key [?b] ?st1"
    by (auto simp: written_def intro: exI [of _ "[]"])
  from pad_loop_written [OF this, of ?n] obtain st2 pad where 2: "pad_loop ?n ?st1 = Inr st2" "length pad = ?n"
    "written key ([?b] @ pad) st2" "out_cap st2 = ?cap"
    using frame_pad_bound [of "length body"] by auto
  from salt_loop_written [OF assms(1) 2(3), of kSaltLen] obtain st3 salt where 3: "salt_loop kSaltLen key st2 = Inr st3"
    "length salt = kSaltLen" "written key (([?b] @ pad) @ salt) st3" "out_cap st3 = ?cap"
    using 2(2,4) cap by auto
  from body_loop_written [OF assms(1) 3(3), of body] obtain st4 where 4: "body_loop body key st3 = Inr st4"
    "written key ((([?b] @ pad) @ salt) @ body) st4" "out_cap st4 = ?cap"
    using 2(2) 3(2,4) cap by auto
  from zero_loop_written [OF assms(1) 4(2), of kZeroLen] obtain st5 where 5: "zero_loop kZeroLen key st4 = Inr st5"
    "written key (framed ?b pad salt body) st5" "length (src_buf st5) < 8"
    using 2(2) 3(2) 4(3) cap by (auto simp: framed_def kZeroLen_def)
  obtain ps where ps: "blocks ps" "framed ?b pad salt body = concat ps @ src_buf st5"
    "out_buf st5 = concat (map snd (chain key zero_iv ps))"
    using 5(2) by (auto simp: written_def)
  have "length (framed ?b pad salt body) mod 8 = 0"
    using frame_len [of "length body"] 2(2) 3(2) cap by (simp add: framed_def add_ac)
  then have "src_buf st5 = []"
    using 5(3) concat_blocks_length [OF ps(1)] ps(2) by simp
  moreover have "oi_symmetry_encrypt2 (body @ rest) (int (length body)) key ?cap seed = Inr st5"
    using r 2 3 4 5
    by (simp only: oi_symmetry_encrypt2_def frame_sum_small [OF assms(2)] bindR_simps Let_def pad_len_frame)
      (simp add: body_of_length_def)
  ultimately show ?thesis
    using 2 3 ps first_byte [OF frame_pad_bound, of r]
    by (intro exI [of _ st5] exI [of _ ?b] exI [of _ pad] exI [of _ salt] exI [of _ ps]) simp
qed

section \<open>What decryption reads\<close>

lemma chain_nth:
  "j < length ps \<Longrightarrow> chain key xc ps ! j =
     (let prev = (xc # chain key xc ps) ! j; x = xor_bytes (ps ! j) (snd prev) in (x, xor_bytes (ecb key x) (fst prev)))"
proof (induction ps arbitrary: xc j)
  case (Cons p ps)
  then show ?case
    by (cases j) (simp_all add: Let_def)
qed simp

lemma slice_blocks: "blocks bs \<Longrightarrow> j < length bs \<Longrightarrow> slice (concat bs) (8 * j) 8 = bs ! j"
proof (induction bs arbitrary: j)
  case (Cons b bs)
  then show ?case
    by (cases j) (simp_all add: slice_def)
qed simp

lemma nth_blocks: "blocks bs \<Longrightarrow> j < length bs \<Longrightarrow> i < 8 \<Longrightarrow> concat bs ! (8 * j + i) = bs ! j ! i"
proof (induction bs arbitrary: j)
  case (Cons b bs)
  then show ?case
    by (cases j) (simp_all add: nth_append)
qed simp

text \<open>
  The decryptor stands at position \<open>q\<close> of the plain stream when it holds the \<open>j\<close>-th block that went into the
  cipher and the cipher blocks around it.
\<close>

definition cursor :: "bytes \<Rightarrow> bytes list \<Rightarrow> nat \<Rightarrow> decryptor \<Rightarrow> bool" where
  "cursor key ps q st \<longleftrightarrow>
     (\<exists>j < length ps. q = 8 * j + dest_i st \<and> dest_i st \<le> 8 \<and> dest_buf st = fst (chain key zero_iv ps ! j) \<and>
       iv_pre_crypt st = snd ((zero_iv # chain key zero_iv ps) ! j) \<and>
       iv_cur_crypt st = snd (chain key zero_iv ps ! j) \<and> nBufPos st = 8 * j + 8)"

lemma chain_lengths:
  assumes "16 \<le> length key" "blocks ps" "j \<le> length ps"
  shows "length (fst ((zero_iv # chain key zero_iv ps) ! j)) = 8" "length (snd ((zero_iv # chain key zero_iv ps) ! j)) = 8"
proof -
  have cb: "\<forall>(x, c) \<in> set (zero_iv # chain key zero_iv ps). length x = 8 \<and> length c = 8"
    using chain_blocks [OF assms(1,2), of zero_iv] by simp
  have "(zero_iv # chain key zero_iv ps) ! j \<in> set (zero_iv # chain key zero_iv ps)"
    using assms(3) by (intro nth_mem) simp
  from bspec [OF cb this] show "length (fst ((zero_iv # chain key zero_iv ps) ! j)) = 8"
    "length (snd ((zero_iv # chain key zero_iv ps) ! j)) = 8"
    by (simp_all add: case_prod_beta)
qed

lemma cursor_byte:
  assumes "16 \<le> length key" "blocks ps" "cursor key ps q st" "dest_i st < 8"
  shows "plain_byte st = concat ps ! q"
proof -
  obtain j where j: "j < length ps" "q = 8 * j + dest_i st" "dest_buf st = fst (chain key zero_iv ps ! j)"
    "iv_pre_crypt st = snd ((zero_iv # chain key zero_iv ps) ! j)"
    using assms(3) by (auto simp: cursor_def)
  have x: "dest_buf st = xor_bytes (ps ! j) (iv_pre_crypt st)"
    using chain_nth [OF j(1), of key zero_iv] j(3,4) by (simp add: Let_def)
  have "length (ps ! j) = 8" "length (iv_pre_crypt st) = 8"
    using assms(2) j(1,4) chain_lengths(2) [OF assms(1,2), of j] by simp_all
  then have "plain_byte st = ps ! j ! dest_i st"
    using assms(4) by (simp add: plain_byte_def x nth_xor_bytes xor_cancel)
  then show ?thesis
    using nth_blocks [OF assms(2) j(1) assms(4)] j(2) by simp
qed

lemma next_block_cursor:
  assumes "16 \<le> length key" "blocks ps" "cursor key ps q st" "dest_i st = 8" "q < 8 * length ps"
  shows "\<exists>st'. next_block (concat (map snd (chain key zero_iv ps))) key st = Inr (Some st') \<and> cursor key ps q st' \<and> dest_i st' = 0"
proof -
  let ?cs = "chain key zero_iv ps"
  obtain j where j: "j < length ps" "q = 8 * j + 8" "dest_buf st = fst (?cs ! j)" "iv_cur_crypt st = snd (?cs ! j)"
    "nBufPos st = 8 * j + 8"
    using assms(3,4) by (auto simp: cursor_def)
  have j1: "Suc j < length ps"
    using j(2) assms(5) by simp
  have len: "length (fst (?cs ! i)) = 8" "length (snd (?cs ! i)) = 8" if "i < length ps" for i
    using chain_lengths [OF assms(1,2), of "Suc i"] that by simp_all
  have bs: "blocks (map snd ?cs)"
    using len by (simp add: all_set_conv_all_nth)
  have cur: "slice (concat (map snd ?cs)) (nBufPos st) 8 = snd (?cs ! Suc j)"
    using slice_blocks [OF bs, of "Suc j"] j1 j(5) by (simp add: add.commute)
  have "snd (?cs ! Suc j) = xor_bytes (ecb key (fst (?cs ! Suc j))) (fst (?cs ! j))"
    using chain_nth [OF j1, of key zero_iv] by (simp add: Let_def)
  then have "xor_bytes (dest_buf st) (snd (?cs ! Suc j)) = ecb key (fst (?cs ! Suc j))"
    using xor_bytes_cancel(1) [of "fst (?cs ! j)" "ecb key (fst (?cs ! Suc j))"] ecb_ok(2) [OF assms(1)] len j1 j(1,3)
    by simp
  then have dec: "TeaDecryptECB (xor_bytes (dest_buf st) (snd (?cs ! Suc j))) key = Inr (fst (?cs ! Suc j))"
    using ecb_ok(3) [OF assms(1)] len j1 by simp
  have "length (concat (map snd ?cs)) = 8 * length ps"
    using concat_blocks_length [OF bs] by simp
  then have "next_block (concat (map snd ?cs)) key st =
      Inr (Some (st\<lparr>dest_buf := fst (?cs ! Suc j), dest_i := 0, iv_pre_crypt := snd (?cs ! j),
        iv_cur_crypt := snd (?cs ! Suc j), nBufPos := nBufPos st + 8\<rparr>))"
    using cur dec j1 j(4,5) by (simp add: next_block_def Let_def)
  then show ?thesis
    using j j1 by (auto simp: cursor_def intro!: exI [of _ "Suc j"])
qed

lemma open_block_cursor:
  assumes "16 \<le> length key" "blocks ps" "cursor key ps q st" "q < 8 * length ps"
  shows "\<exists>st'. open_block (concat (map snd (chain key zero_iv ps))) key st = Inr (Some st') \<and>
    plain_byte st' = concat ps ! q \<and> cursor key ps (q + 1) (st'\<lparr>dest_i := dest_i st' + 1\<rparr>)"
proof -
  have step: "cursor key ps (q + 1) (st'\<lparr>dest_i := dest_i st' + 1\<rparr>)" if "cursor key ps q st'" "dest_i st' < 8" for st'
    using that by (auto simp: cursor_def)
  show ?thesis
  proof (cases "dest_i st < 8")
    case True
    then show ?thesis
      using cursor_byte [OF assms(1-3) True] step assms(3) by (simp add: open_block_def)
  next
    case False
    then have "dest_i st = 8"
      using assms(3) by (auto simp: cursor_def)
    from next_block_cursor [OF assms(1-3) this assms(4)] show ?thesis
      using False cursor_byte [OF assms(1,2)] step by (fastforce simp: open_block_def)
  qed
qed

lemma skip_salt_loop_cursor:
  assumes "16 \<le> length key" "blocks ps" "cursor key ps q st" "q + n \<le> 8 * length ps"
  shows "\<exists>st'. skip_salt_loop n (concat (map snd (chain key zero_iv ps))) key st = Inr (Some st') \<and> cursor key ps (q + n) st'"
  using assms(3,4)
proof (induction n arbitrary: q st)
  case (Suc n)
  obtain st1 where st1: "open_block (concat (map snd (chain key zero_iv ps))) key st = Inr (Some st1)"
    "cursor key ps (q + 1) (st1\<lparr>dest_i := dest_i st1 + 1\<rparr>)"
    using open_block_cursor [OF assms(1,2) Suc.prems(1)] Suc.prems(2) by auto
  then show ?case
    using Suc.IH [OF st1(2)] Suc.prems(2) by simp
qed simp

lemma plain_loop_cursor:
  assumes "16 \<le> length key" "blocks ps" "cursor key ps q st" "q + n \<le> 8 * length ps"
  shows "\<exists>st'. plain_loop n (concat (map snd (chain key zero_iv ps))) key st out =
      Inr (Some (out @ take n (drop q (concat ps)), st')) \<and> cursor key ps (q + n) st'"
  using assms(3,4)
proof (induction n arbitrary: q st out)
  case (Suc n)
  obtain st1 where st1: "open_block (concat (map snd (chain key zero_iv ps))) key st = Inr (Some st1)"
    "plain_byte st1 = concat ps ! q" "cursor key ps (q + 1) (st1\<lparr>dest_i := dest_i st1 + 1\<rparr>)"
    using open_block_cursor [OF assms(1,2) Suc.prems(1)] Suc.prems(2) by auto
  have "q < length (concat ps)"
    using Suc.prems(2) concat_blocks_length [OF assms(2)] by simp
  then have "take (Suc n) (drop q (concat ps)) = concat ps ! q # take n (drop (q + 1) (concat ps))"
    by (simp add: Cons_nth_drop_Suc [symmetric])
  then show ?case
    using Suc.IH [OF st1(3), of "out @ [concat ps ! q]"] Suc.prems(2) st1 by auto
qed simp

lemma check_zero_loop_cursor:
  assumes "16 \<le> length key" "blocks ps" "cursor key ps q st" "q + n \<le> 8 * length ps"
  shows "check_zero_loop n (concat (map snd (chain key zero_iv ps))) key st =
    Inr (take n (drop q (concat ps)) = replicate n 0)"
  using assms(3,4)
proof (induction n arbitrary: q st)
  case (Suc n)
  obtain st1 where st1: "open_block (concat (map snd (chain key zero_iv ps))) key st = Inr (Some st1)"
    "plain_byte st1 = concat ps ! q" "cursor key ps (q + 1) (st1\<lparr>dest_i := dest_i st1 + 1\<rparr>)"
    using open_block_cursor [OF assms(1,2) Suc.prems(1)] Suc.prems(2) by auto
  have "q < length (concat ps)"
    using Suc.prems(2) concat_blocks_length [OF assms(2)] by simp
  then have "take (Suc n) (drop q (concat ps)) = concat ps ! q # take n (drop (q + 1) (concat ps))"
    by (simp add: Cons_nth_drop_Suc [symmetric])
  then show ?case
    using Suc.IH [OF st1(3)] Suc.prems(2) st1 by auto
qed simp

lemma oi_symmetry_decrypt2_frame:
  assumes "16 \<le> length key" "blocks ps" "concat ps = framed b pad salt body" "length pad = unat (b AND 7)"
    "length salt = kSaltLen" "int (length body) \<le> out_len"
    and "input = concat (map snd (chain key zero_iv ps))"
  shows "oi_symmetry_decrypt2 (input @ rest) (int (length input)) key out_len = Inr (Some body)"
proof -
  let ?cs = "chain key zero_iv ps" and ?n = "unat (b AND 7)"
  let ?in = "concat (map snd ?cs)"
  have len: "length (fst (?cs ! i)) = 8" "length (snd (?cs ! i)) = 8" if "i < length ps" for i
    using chain_lengths [OF assms(1,2), of "Suc i"] that by simp_all
  have bs: "blocks (map snd ?cs)"
    using len by (simp add: all_set_conv_all_nth)
  have total: "8 * length ps = 1 + ?n + 2 + length body + 7"
    using concat_blocks_length [OF assms(2)] assms(3-5) by (simp add: framed_def kSaltLen_def kZeroLen_def)
  have m: "0 < length ps" "1 < length ps"
    using total by linarith+
  have m3: "length ?in = 8 * length ps"
    using concat_blocks_length [OF bs] by simp
  have first: "take 8 ?in = snd (?cs ! 0)"
    using slice_blocks [OF bs, of 0] m by (simp add: slice_def)
  have c0: "?cs ! 0 = (ps ! 0, ecb key (ps ! 0))"
    using chain_nth [OF m(1), of key zero_iv] assms(2) m(1) ecb_ok(2) [OF assms(1), of "ps ! 0"] by (simp add: Let_def)
  then have dec: "TeaDecryptECB (take 8 ?in) key = Inr (ps ! 0)"
    using first ecb_ok(3) [OF assms(1), of "ps ! 0"] assms(2) m(1) by simp
  have b: "ps ! 0 ! 0 = b"
    using nth_blocks [OF assms(2) m(1), of 0] assms(3) by (simp add: framed_def)
  let ?st = "\<lparr>dest_buf = ps ! 0, dest_i = 1 + ?n, iv_pre_crypt = replicate 8 0, iv_cur_crypt = take 8 ?in, nBufPos = 8\<rparr>"
  have "?n \<le> 7"
    using word_and_le1 [of b 7] by (simp add: word_le_nat_alt)
  then have cur: "cursor key ps (1 + ?n) ?st"
    using m c0 first by (auto simp: cursor_def)
  obtain st1 where 1: "skip_salt_loop kSaltLen ?in key ?st = Inr (Some st1)" "cursor key ps (1 + ?n + kSaltLen) st1"
    using skip_salt_loop_cursor [OF assms(1,2) cur, of kSaltLen] total by (auto simp: kSaltLen_def)
  obtain st2 where 2: "plain_loop (length body) ?in key st1 [] =
      Inr (Some (take (length body) (drop (1 + ?n + kSaltLen) (concat ps)), st2))"
    "cursor key ps (1 + ?n + kSaltLen + length body) st2"
    using plain_loop_cursor [OF assms(1,2) 1(2), of "length body" "[]"] total by (auto simp: kSaltLen_def)
  have body: "take (length body) (drop (1 + ?n + kSaltLen) (concat ps)) = body"
    using assms(3-5) by (simp add: framed_def)
  have "drop (1 + ?n + kSaltLen + length body) (concat ps) = replicate kZeroLen 0"
    using assms(3-5) by (simp add: framed_def)
  then have 3: "check_zero_loop kZeroLen ?in key st2 = Inr True"
    using check_zero_loop_cursor [OF assms(1,2) 2(2), of kZeroLen] total by (simp add: kSaltLen_def kZeroLen_def)
  have i: "int (length ?in) - 1 - int ?n - int kSaltLen - int kZeroLen = int (length body)"
    using total m3 by (simp add: kSaltLen_def kZeroLen_def)
  have r: "c_rem (int (length ?in)) 8 = 0"
    using c_rem_nat [of "length ?in" 8] m3 by simp
  show ?thesis
    unfolding assms(7) oi_symmetry_decrypt2_def
    using m m3 dec b 1(1) 2(1) 3 i body r assms(6) by (simp add: Let_def)
qed

text \<open>
  C3: for every key of sixteen bytes, every text of at most \<open>2 ^ 31 - 18\<close> bytes and every state of the random
  number generator, \<^verbatim>\<open>Encrypt\<close> stays inside the buffer it computes, fills it completely, and
  \<^verbatim>\<open>Decrypt\<close> of its output returns the text. The bound is the largest for which the length of the cipher
  text is an \<^verbatim>\<open>int32_t\<close>.
\<close>

theorem Tea_roundtrip:
  assumes "length key = 16" "length plain + 18 \<le> 2 ^ 31"
  shows "\<exists>cipher seed'. Encrypt plain key seed = Inr (cipher, seed') \<and>
    oi_symmetry_encrypt2_len (int (length plain)) = Inr (int (length cipher)) \<and>
    Decrypt cipher key old = Inr (True, plain)"
proof -
  have key: "16 \<le> length (key @ [0])"
    using assms by simp
  obtain st b pad salt ps where e:
    "oi_symmetry_encrypt2 (plain @ [0]) (int (length plain)) (key @ [0]) (cipher_len (length plain)) seed = Inr st"
    "length pad = frame_pad (length plain)" "length salt = kSaltLen" "unat (b AND 7) = frame_pad (length plain)"
    "blocks ps" "concat ps = framed b pad salt plain" "out_buf st = concat (map snd (chain (key @ [0]) zero_iv ps))"
    using oi_symmetry_encrypt2_frame [OF key assms(2)] by blast
  have "blocks (map snd (chain (key @ [0]) zero_iv ps))"
    using chain_lengths(2) [OF key e(5), of "Suc _"] by (simp add: all_set_conv_all_nth)
  from concat_blocks_length [OF this] have len: "length (out_buf st) = cipher_len (length plain)"
    using e(2,3,6,7) concat_blocks_length [OF e(5)] by (simp add: framed_def cipher_len_def)
  then have ne: "out_buf st \<noteq> []" "length plain \<le> length (out_buf st)"
    by (auto simp: cipher_len_def)
  have sizes: "int32_of (length plain) = int (length plain)" "int32_of (length (out_buf st)) = int (length (out_buf st))"
    using assms(2) len cipher_len_bound [OF assms(2)] by (simp_all add: int32_of_small)
  have "oi_symmetry_decrypt2 (out_buf st @ [0]) (int (length (out_buf st))) (key @ [0]) (int (length (out_buf st))) =
      Inr (Some plain)"
    by (rule oi_symmetry_decrypt2_frame [OF key e(5,6) _ e(3)]) (use e(2,4,7) ne(2) in simp_all)
  then show ?thesis
    using e(1) len ne(1) assms(1) encrypt2_len_small [OF assms(2)] sizes by (simp add: Encrypt_def Decrypt_def)
qed

theorem Tea_roundtrip_witness:
  "\<exists>cipher seed'. Encrypt [1, 2, 3] (replicate 16 7) 42 = Inr (cipher, seed') \<and>
    length cipher = 16 \<and> Decrypt cipher (replicate 16 7) [] = Inr (True, [1, 2, 3])"
proof -
  have "oi_symmetry_encrypt2_len 3 = Inr 16"
    by code_simp
  then show ?thesis
    using Tea_roundtrip [of "replicate 16 7" "[1, 2, 3]" 42 "[]"] by auto
qed

text \<open>
  The bound is sharp: for the texts between it and \<open>2 ^ 31\<close> bytes, the length of the frame overflows.
\<close>

theorem Encrypt_length_overflow:
  assumes "length plain < 2 ^ 31" "2 ^ 31 < length plain + 18"
  shows "Encrypt plain key seed = Inl Undefined_arith"
proof -
  let ?n = "length plain"
  have "2 ^ 31 - 8 < cipher_len ?n"
    using assms(2) by (simp add: cipher_len_def kSaltLen_def kZeroLen_def)
  moreover have "8 dvd cipher_len ?n"
    using frame_len [of ?n] by (simp add: mod_0_imp_dvd)
  ultimately have "2 ^ 31 \<le> cipher_len ?n"
    by (auto simp: dvd_def)
  then have "\<not> int (?n + 1 + kSaltLen + kZeroLen) + int (frame_pad ?n) < 2 ^ 31"
    by (simp add: cipher_len_def)
  then have "oi_symmetry_encrypt2_len (int ?n) = Inl Undefined_arith"
    unfolding oi_symmetry_encrypt2_len_def frame_sum_def checked_int32_def
    using pad_len_frame [of ?n] by (simp add: add_ac split: if_split)
  then show ?thesis
    using assms(1) by (simp add: Encrypt_def int32_of_small)
qed

section \<open>Any input\<close>

text \<open>The decryptor on arbitrary input: every block is complete, so no read leaves a buffer.\<close>

lemma TeaDecryptECB_total:
  assumes "length buf = 8" "16 \<le> length key"
  obtains dest where "TeaDecryptECB buf key = Inr dest" "length dest = 8"
proof -
  have "\<exists>dest. TeaDecryptECB buf key = Inr dest \<and> length dest = 8"
    using assms by (simp add: TeaDecryptECB_def load_key_def load_be32_def be32_bytes_def split_beta)
  then show ?thesis
    using that by blast
qed

lemma open_block_total:
  assumes "length (dest_buf st) = 8" "16 \<le> length key"
  obtains "open_block input key st = Inr None"
    | st' where "open_block input key st = Inr (Some st')" "length (dest_buf st') = 8"
proof (cases "dest_i st < 8 \<or> nBufPos st + 8 > length input")
  case True
  then show ?thesis
    using that assms(1) by (cases "dest_i st < 8") (auto simp: open_block_def next_block_def)
next
  case False
  then have "length (xor_bytes (dest_buf st) (slice input (nBufPos st) 8)) = 8"
    using assms(1) by (auto simp: xor_bytes_def slice_def)
  from TeaDecryptECB_total [OF this assms(2)] obtain dest where
    "TeaDecryptECB (xor_bytes (dest_buf st) (slice input (nBufPos st) 8)) key = Inr dest" "length dest = 8" .
  then show ?thesis
    using False by - (rule that(2), simp add: open_block_def next_block_def Let_def, simp)
qed

lemma skip_salt_loop_total:
  "length (dest_buf st) = 8 \<Longrightarrow> 16 \<le> length key \<Longrightarrow>
   \<exists>r. skip_salt_loop n input key st = Inr r \<and> (\<forall>st'. r = Some st' \<longrightarrow> length (dest_buf st') = 8)"
proof (induction n arbitrary: st)
  case (Suc n)
  show ?case
  proof (rule open_block_total [OF Suc.prems, of input])
    fix st'
    assume "open_block input key st = Inr (Some st')" "length (dest_buf st') = 8"
    then show ?thesis
      using Suc.IH [of "st'\<lparr>dest_i := dest_i st' + 1\<rparr>"] Suc.prems(2) by simp
  qed simp
qed simp

lemma plain_loop_total:
  "length (dest_buf st) = 8 \<Longrightarrow> 16 \<le> length key \<Longrightarrow>
   \<exists>r. plain_loop n input key st out = Inr r \<and>
     (\<forall>p st'. r = Some (p, st') \<longrightarrow> length (dest_buf st') = 8 \<and> length p = length out + n)"
proof (induction n arbitrary: st out)
  case (Suc n)
  show ?case
  proof (rule open_block_total [OF Suc.prems, of input])
    fix st'
    assume "open_block input key st = Inr (Some st')" "length (dest_buf st') = 8"
    then show ?thesis
      using Suc.IH [of "st'\<lparr>dest_i := dest_i st' + 1\<rparr>" "out @ [plain_byte st']"] Suc.prems(2) by simp
  qed simp
qed simp

lemma check_zero_loop_total:
  "length (dest_buf st) = 8 \<Longrightarrow> 16 \<le> length key \<Longrightarrow> \<exists>r. check_zero_loop n input key st = Inr r"
proof (induction n arbitrary: st)
  case (Suc n)
  show ?case
  proof (rule open_block_total [OF Suc.prems, of input])
    fix st'
    assume "open_block input key st = Inr (Some st')" "length (dest_buf st') = 8"
    then show ?thesis
      using Suc.IH [of "st'\<lparr>dest_i := dest_i st' + 1\<rparr>"] Suc.prems(2) by (auto intro: exI [of _ False])
  qed auto
qed auto

lemma oi_symmetry_decrypt2_total:
  assumes "16 \<le> length key" "m \<le> int (length buf)"
  shows "\<exists>r. oi_symmetry_decrypt2 buf m key n = Inr r \<and> (\<forall>p. r = Some p \<longrightarrow> int (length p) + 10 \<le> m)"
proof (cases "c_rem m 8 \<noteq> 0 \<or> m < 16")
  case False
  define input where "input = take (nat m) buf"
  have m: "int (length input) = m"
    using False assms(2) by (simp add: input_def)
  then have "length (take 8 input) = 8"
    using False by simp
  from TeaDecryptECB_total [OF this assms(1)] obtain dest
    where d: "TeaDecryptECB (take 8 input) key = Inr dest" "length dest = 8" .
  let ?pad = "unat (dest ! 0 AND 7)"
  let ?i = "m - 1 - int ?pad - int kSaltLen - int kZeroLen"
  let ?st = "\<lparr>dest_buf = dest, dest_i = 1 + ?pad, iv_pre_crypt = replicate 8 0, iv_cur_crypt = take 8 input, nBufPos = 8\<rparr>"
  obtain r1 where r1: "skip_salt_loop kSaltLen input key ?st = Inr r1" "\<And>st. r1 = Some st \<Longrightarrow> length (dest_buf st) = 8"
    using skip_salt_loop_total [of ?st key kSaltLen input] d(2) assms(1) by auto
  show ?thesis
  proof (cases "n < ?i \<or> ?i < 0 \<or> r1 = None")
    case True
    then show ?thesis
      using False assms(2) d(1) r1(1) by (auto simp: oi_symmetry_decrypt2_def Let_def input_def [symmetric])
  next
    case go: False
    then obtain st1 where st1: "r1 = Some st1" "length (dest_buf st1) = 8"
      using r1(2) by auto
    obtain r2 where r2: "plain_loop (nat ?i) input key st1 [] = Inr r2"
      "\<And>p st. r2 = Some (p, st) \<Longrightarrow> length (dest_buf st) = 8 \<and> length p = nat ?i"
      using plain_loop_total [OF st1(2) assms(1), of "nat ?i" input "[]"] by auto
    show ?thesis
    proof (cases r2)
      case (Some q)
      obtain p st2 where q: "q = (p, st2)"
        by (cases q)
      then obtain ok where ok: "check_zero_loop kZeroLen input key st2 = Inr ok"
        using check_zero_loop_total [of st2 key kZeroLen input] r2(2) Some assms(1) by blast
      have "nat ?i + 10 \<le> length input"
        using False m unfolding kSaltLen_def kZeroLen_def by linarith
      then have "int (length p) + 10 \<le> m"
        using r2(2) Some q m by fastforce
      then show ?thesis
        using False assms(2) go d(1) r1(1) r2(1) Some q ok st1(1) by (simp add: oi_symmetry_decrypt2_def Let_def input_def [symmetric])
    qed (use False assms(2) go d(1) r1(1) r2(1) st1(1) in \<open>simp add: oi_symmetry_decrypt2_def Let_def input_def [symmetric]\<close>)
  qed
qed (simp add: oi_symmetry_decrypt2_def Let_def)

text \<open>
  C19: on any cipher text and any key \<^verbatim>\<open>Decrypt\<close> returns without leaving a buffer; a key that is not
  sixteen bytes long is refused and the output left alone; the empty cipher text is accepted with an empty output; from
  any other accepted cipher text comes a text that is at least ten bytes shorter; a refused cipher text clears the
  output.
\<close>

theorem Decrypt_safe:
  "\<exists>ok p. Decrypt cipher key old = Inr (ok, p) \<and>
     (if length key \<noteq> 16 then \<not> ok \<and> p = old
      else if cipher = [] then ok \<and> p = []
      else if ok then length p + 10 \<le> length cipher
      else p = [])"
proof (cases "length key = 16")
  case True
  let ?n = "int32_of (length cipher)"
  have n: "?n \<le> int (length (cipher @ [0]))"
    using int32_of_le [of "length cipher"] by simp
  obtain r where "oi_symmetry_decrypt2 (cipher @ [0]) ?n (key @ [0]) ?n = Inr r"
    "\<And>p. r = Some p \<Longrightarrow> int (length p) + 10 \<le> ?n"
    using oi_symmetry_decrypt2_total [OF _ n, of "key @ [0]" ?n] True by auto
  then show ?thesis
    using True int32_of_le [of "length cipher"] by (cases r) (fastforce simp: Decrypt_def)+
qed (auto simp: Decrypt_def)

section \<open>Short keys\<close>

lemma flush_block_short: "length key < 16 \<Longrightarrow> flush_block key st = Inl Out_of_bounds"
  by (auto simp: flush_block_def TeaEncryptECB_def load_key_def load_be32_def Let_def)

lemma put_byte_short:
  "length key < 16 \<Longrightarrow> put_byte key b st =
     (if length (src_buf st) = 7 then Inl Out_of_bounds else Inr (st\<lparr>src_buf := src_buf st @ [b]\<rparr>))"
  by (simp add: put_byte_def flush_block_short)

text \<open>With a short key a loop either fails or only collects bytes.\<close>

definition collects :: "nat \<Rightarrow> encryptor \<Rightarrow> encryptor result \<Rightarrow> bool" where
  "collects n st r \<longleftrightarrow>
     (case r of
        Inl e \<Rightarrow> e = Out_of_bounds
      | Inr st' \<Rightarrow> length (src_buf st') = length (src_buf st) + n \<and> (n = 0 \<or> length (src_buf st') < 8))"

lemma collects_step:
  assumes "length key < 16" "length (src_buf st) \<le> 8" "src_buf st' = src_buf st"
    and "\<And>st''. length (src_buf st'') = Suc (length (src_buf st)) \<Longrightarrow> length (src_buf st'') < 8 \<Longrightarrow> collects n st'' (f st'')"
  shows "collects (Suc n) st
    (bindR (if length (src_buf st) = 8 then flush_block key st else Inr st) (\<lambda>_.
       if length (src_buf st) < 8 then bindR (put_byte key b st') f else Inl Out_of_bounds))"
  using assms(2-3) assms(4) [of "st'\<lparr>src_buf := src_buf st @ [b]\<rparr>"]
  by (auto simp: flush_block_short [OF assms(1)] put_byte_short [OF assms(1)] collects_def split: sum.splits)

lemma salt_loop_short: "length key < 16 \<Longrightarrow> length (src_buf st) \<le> 8 \<Longrightarrow> collects n st (salt_loop n key st)"
proof (induction n arbitrary: st)
  case (Suc n)
  obtain b h where r: "next_rand st = (b, st\<lparr>holdrand := h\<rparr>)"
    using next_rand_cases by blast
  have "collects (Suc n) st
    (bindR (if length (src_buf st) = 8 then flush_block key st else Inr st) (\<lambda>_.
       if length (src_buf st) < 8 then bindR (put_byte key b (st\<lparr>holdrand := h\<rparr>)) (salt_loop n key) else Inl Out_of_bounds))"
    using Suc by (intro collects_step) simp_all
  then show ?case
    using r flush_block_short [OF Suc.prems(1)] by (auto split: if_splits)
qed (simp add: collects_def)

lemma body_loop_short: "length key < 16 \<Longrightarrow> length (src_buf st) \<le> 8 \<Longrightarrow> collects (length bs) st (body_loop bs key st)"
proof (induction bs arbitrary: st)
  case (Cons b bs)
  have "collects (Suc (length bs)) st
    (bindR (if length (src_buf st) = 8 then flush_block key st else Inr st) (\<lambda>_.
       if length (src_buf st) < 8 then bindR (put_byte key b st) (body_loop bs key) else Inl Out_of_bounds))"
    using Cons by (intro collects_step) simp_all
  then show ?case
    using flush_block_short [OF Cons.prems(1)] by (auto split: if_splits)
qed (simp add: collects_def)

lemma zero_loop_short: "length key < 16 \<Longrightarrow> length (src_buf st) \<le> 8 \<Longrightarrow> collects n st (zero_loop n key st)"
proof (induction n arbitrary: st)
  case (Suc n)
  have "collects (Suc n) st
    (bindR (if length (src_buf st) = 8 then flush_block key st else Inr st) (\<lambda>_.
       if length (src_buf st) < 8 then bindR (put_byte key 0 st) (zero_loop n key) else Inl Out_of_bounds))"
    using Suc by (intro collects_step) simp_all
  then show ?case
    using flush_block_short [OF Suc.prems(1)] by (auto split: if_splits)
qed (simp add: collects_def)

lemma pad_loop_short: "length (src_buf st) + n \<le> 8 \<Longrightarrow> \<exists>st'. pad_loop n st = Inr st' \<and> length (src_buf st') = length (src_buf st) + n"
proof (induction n arbitrary: st)
  case (Suc n)
  obtain b h where "next_rand st = (b, st\<lparr>holdrand := h\<rparr>)"
    using next_rand_cases by blast
  then show ?case
    using Suc.IH [of "st\<lparr>holdrand := h, src_buf := src_buf st @ [b]\<rparr>"] Suc.prems by simp
qed simp

lemma collects_cases:
  assumes "collects n st r"
  obtains "r = Inl Out_of_bounds"
    | st' where "r = Inr st'" "length (src_buf st') = length (src_buf st) + n" "n = 0 \<or> length (src_buf st') < 8"
  using assms by (auto simp: collects_def split: sum.splits)

text \<open>
  \<^verbatim>\<open>Encrypt\<close>, unlike \<^verbatim>\<open>Decrypt\<close>, does not test the key; with one of fewer than fifteen bytes it
  reads behind the key's buffer.
\<close>

theorem Encrypt_short_key:
  assumes "length key < 15" "length plain + 18 \<le> 2 ^ 31"
  shows "Encrypt plain key seed = Inl Out_of_bounds"
proof -
  let ?k = "key @ [0]" and ?n = "frame_pad (length plain)" and ?cap = "cipher_len (length plain)"
  let ?st0 = "\<lparr>src_buf = [], iv_plain = replicate 8 0, iv_crypt = replicate 8 0, out_buf = [], out_cap = ?cap,
    holdrand = seed\<rparr>"
  have k: "length ?k < 16"
    using assms by simp
  obtain r h where r: "next_rand ?st0 = (r, ?st0\<lparr>holdrand := h\<rparr>)"
    using next_rand_cases by blast
  let ?st1 = "?st0\<lparr>holdrand := h, src_buf := [(r AND 0xf8) OR word_of_nat ?n]\<rparr>"
  obtain st2 where 2: "pad_loop ?n ?st1 = Inr st2" "length (src_buf st2) = Suc ?n"
    using pad_loop_short [of ?st1 ?n] frame_pad_bound [of "length plain"] by auto
  have e: "oi_symmetry_encrypt2 (plain @ [0]) (int (length plain)) ?k ?cap seed =
      bindR (salt_loop kSaltLen ?k st2) (\<lambda>st. bindR (body_loop plain ?k st) (\<lambda>st. zero_loop kZeroLen ?k st))"
    using r 2
    by (simp only: oi_symmetry_encrypt2_def frame_sum_small [OF assms(2)] bindR_simps Let_def pad_len_frame)
      (simp add: body_of_length_def)
  have "collects kSaltLen st2 (salt_loop kSaltLen ?k st2)"
    using salt_loop_short [OF k, of st2] 2(2) frame_pad_bound [of "length plain"] by simp
  then have "oi_symmetry_encrypt2 (plain @ [0]) (int (length plain)) ?k ?cap seed = Inl Out_of_bounds"
  proof (cases rule: collects_cases)
    case (2 st3)
    then have "collects (length plain) st3 (body_loop plain ?k st3)"
      by (intro body_loop_short [OF k]) (simp add: kSaltLen_def)
    then show ?thesis
    proof (cases rule: collects_cases)
      case (2 st4)
      then have "collects kZeroLen st4 (zero_loop kZeroLen ?k st4)"
        using \<open>kSaltLen = 0 \<or> length (src_buf st3) < 8\<close> by (intro zero_loop_short [OF k]) (auto simp: kSaltLen_def)
      then show ?thesis
        using 2 \<open>length (src_buf st3) = length (src_buf st2) + kSaltLen\<close> \<open>length (src_buf st2) = Suc ?n\<close>
          \<open>salt_loop kSaltLen ?k st2 = Inr st3\<close> e
        by (auto simp: kSaltLen_def kZeroLen_def elim!: collects_cases)
    qed (use 2 e in simp)
  qed (use e in simp)
  then show ?thesis
    using assms(2) by (simp add: Encrypt_def int32_of_small encrypt2_len_small)
qed

theorem Encrypt_short_key_witness: "Encrypt [] [1, 2, 3] 5 = Inl Out_of_bounds"
  by (rule Encrypt_short_key) simp_all

end
