(* ===== verification/Varint.thy ===== *)
theory Varint
  imports Neptune_Prelude
begin

unbundle bit_operations_syntax

text \<open>
  The base-128 encoding of integers of \<^verbatim>\<open>app/qzap/common/recordio/internal/variant_integer.h\<close> and the checked
  conversions of \<^verbatim>\<open>int_cast.h\<close> in front of it. An integral template argument of \<open>n\<close> bits is a word of
  length \<open>n\<close>; a buffer is a list of 8-bit words, and \<open>size\<close> the size the caller states. Both branches of the two
  preprocessor conditionals are modelled and shown to agree. The results are the round trips through the checked and
  the unchecked functions, for every width and both signs, and the one signed value that does not come back.
\<close>

type_synonym buffer = "8 word list"

section \<open>Sizes\<close>

lemma unat_drop_bit_7: "unat (drop_bit 7 (v :: 'a :: len word)) = unat v div 128"
  by (simp only: unat_drop_bit_eq) (simp add: drop_bit_eq_div)

definition ENCODING_WIDTH :: nat where [simp]: "ENCODING_WIDTH = 7"

definition ENCODING_MASK :: "'a :: len word" where "ENCODING_MASK = 127"

definition ENCODING_CONTINUE_MASK :: "8 word" where "ENCODING_CONTINUE_MASK = 128"

fun DecodedSize_loop :: "nat \<Rightarrow> buffer \<Rightarrow> nat \<Rightarrow> int result" where
  "DecodedSize_loop 0 p pos = Inr (- 1)"
| "DecodedSize_loop (Suc left) p pos =
     bindR (checked_nth p pos) (\<lambda>byte.
       if byte AND ENCODING_CONTINUE_MASK = 0 then Inr (int (pos + 1)) else DecodedSize_loop left p (pos + 1))"

definition DecodedSize :: "buffer \<Rightarrow> nat \<Rightarrow> int result" where
  "DecodedSize p size' = DecodedSize_loop size' p 0"

text \<open>The loop without a bound ends at a byte without the mark or behind the buffer.\<close>

function UncheckedDecodedSize_loop :: "buffer \<Rightarrow> nat \<Rightarrow> int result" where
  "UncheckedDecodedSize_loop p pos =
     (if pos < length p
      then if (p ! pos) AND ENCODING_CONTINUE_MASK = 0 then Inr (int (pos + 1))
           else UncheckedDecodedSize_loop p (pos + 1)
      else Inl Out_of_bounds)"
  by pat_completeness auto
termination
  by (relation "measure (\<lambda>(p, pos). length p - pos)") auto

declare UncheckedDecodedSize_loop.simps [simp del]

definition UncheckedDecodedSize :: "buffer \<Rightarrow> int result" where
  "UncheckedDecodedSize p = UncheckedDecodedSize_loop p 0"

text \<open>The instruction \<^verbatim>\<open>bsr\<close>: the index of the highest bit that is set.\<close>

fun bsr :: "nat \<Rightarrow> nat" where
  "bsr n = (if n < 2 then 0 else Suc (bsr (n div 2)))"

declare bsr.simps [simp del]

definition log2 :: "'a :: len word \<Rightarrow> nat" where
  "log2 x = (if x = 0 then 0 else bsr (unat x))"

definition SignificantBits :: "'a :: len word \<Rightarrow> nat" where
  "SignificantBits value = log2 value + 1"

definition Div7_table :: "nat list" where
  "Div7_table =
    [0, 0, 0, 0, 0, 0, 0,
     1, 1, 1, 1, 1, 1, 1,
     2, 2, 2, 2, 2, 2, 2,
     3, 3, 3, 3, 3, 3, 3,
     4, 4, 4, 4, 4, 4, 4,
     5, 5, 5, 5, 5, 5, 5,
     6, 6, 6, 6, 6, 6, 6,
     7, 7, 7, 7, 7, 7, 7,
     8, 8, 8, 8, 8, 8, 8,
     9, 9, 9, 9, 9, 9, 9,
     10, 10, 10, 10, 10, 10, 10]"

definition Div7 :: "nat \<Rightarrow> nat result" where
  "Div7 n = checked_nth Div7_table n"

definition EncodedSize :: "'a :: len word \<Rightarrow> nat result" where
  "EncodedSize value = Div7 (SignificantBits value + ENCODING_WIDTH - 1)"

text \<open>The branch for other processors.\<close>

function EncodedSize_loop :: "'a :: len word \<Rightarrow> nat \<Rightarrow> nat" where
  "EncodedSize_loop value result =
     (if 127 < unat value then EncodedSize_loop (drop_bit ENCODING_WIDTH value) (result + 1) else result)"
  by pat_completeness auto
termination
  by (relation "measure (\<lambda>(v, r). unat v)") (auto simp: unat_drop_bit_7)

declare EncodedSize_loop.simps [simp del]

definition EncodedSize_portable :: "'a :: len word \<Rightarrow> nat" where
  "EncodedSize_portable value = EncodedSize_loop value 1"

section \<open>Unsigned integers\<close>

text \<open>\<^verbatim>\<open>BASE128_ENCODE_ONE_BYTE\<close> for every case label above one that is fallen through, then the last byte.\<close>

fun encode_cases :: "nat \<Rightarrow> 'a :: len word \<Rightarrow> buffer" where
  "encode_cases (Suc (Suc n)) value =
     (ucast (value AND ENCODING_MASK) OR ENCODING_CONTINUE_MASK) # encode_cases (Suc n) (drop_bit ENCODING_WIDTH value)"
| "encode_cases _ value = [ucast value]"

text \<open>Storing bytes at the start of a buffer.\<close>

definition store :: "buffer \<Rightarrow> buffer \<Rightarrow> buffer result" where
  "store bs buffer = (if length bs \<le> length buffer then Inr (bs @ drop (length bs) buffer) else Inl Out_of_bounds)"

definition UncheckedEncodeKnownSize :: "'a :: len word \<Rightarrow> nat \<Rightarrow> buffer \<Rightarrow> (int \<times> buffer) result" where
  "UncheckedEncodeKnownSize value encoded_size buffer =
     (if 1 \<le> encoded_size \<and> encoded_size \<le> 10
      then let bs = encode_cases encoded_size value
           in bindR (store bs buffer) (\<lambda>buffer. Inr (int (length bs), buffer))
      else Inl Assertion_failed)"

definition UncheckedEncode :: "'a :: len word \<Rightarrow> buffer \<Rightarrow> (int \<times> buffer) result" where
  "UncheckedEncode value buffer =
     bindR (EncodedSize value) (\<lambda>result_size. UncheckedEncodeKnownSize value result_size buffer)"

text \<open>The loop that the preprocessor leaves out.\<close>

function encode_loop :: "'a :: len word \<Rightarrow> buffer" where
  "encode_loop value =
     (if 127 < unat value
      then (ucast (value AND ENCODING_MASK) OR ENCODING_CONTINUE_MASK) # encode_loop (drop_bit ENCODING_WIDTH value)
      else [ucast value])"
  by pat_completeness auto
termination
  by (relation "measure unat") (auto simp: unat_drop_bit_7)

declare encode_loop.simps [simp del]

definition UncheckedEncode_portable :: "'a :: len word \<Rightarrow> buffer \<Rightarrow> (int \<times> buffer) result" where
  "UncheckedEncode_portable value buffer =
     (let bs = encode_loop value in bindR (store bs buffer) (\<lambda>buffer. Inr (int (length bs), buffer)))"

definition Encode :: "'a :: len word \<Rightarrow> buffer \<Rightarrow> nat \<Rightarrow> (int \<times> buffer) result" where
  "Encode value buffer size' =
     bindR (EncodedSize value) (\<lambda>result_size.
       if result_size > size' then Inr (- 1, buffer) else UncheckedEncodeKnownSize value result_size buffer)"

text \<open>
  One decoded byte; \<^verbatim>\<open>shift\<close> is an \<^verbatim>\<open>unsigned int\<close> of 32 bits. A byte whose bits would be shifted out
  completely is skipped, as the code does to avoid an undefined shift.
\<close>

definition decode_byte :: "8 word \<Rightarrow> nat \<Rightarrow> 'a :: len word \<Rightarrow> 'a word" where
  "decode_byte byte shift value =
     (if shift < LENGTH('a) then value OR push_bit shift (ucast byte AND ENCODING_MASK) else value)"

definition next_shift :: "nat \<Rightarrow> nat" where
  "next_shift shift = (shift + ENCODING_WIDTH) mod 2 ^ 32"

fun base128_Decode_loop :: "nat \<Rightarrow> buffer \<Rightarrow> nat \<Rightarrow> nat \<Rightarrow> 'a :: len word \<Rightarrow> (int \<times> 'a word) result" where
  "base128_Decode_loop 0 p pos shift value = Inr (- 1, value)"
| "base128_Decode_loop (Suc left) p pos shift value =
     bindR (checked_nth p pos) (\<lambda>byte.
       let value = decode_byte byte shift value
       in if byte AND ENCODING_CONTINUE_MASK = 0 then Inr (int (pos + 1), value)
          else base128_Decode_loop left p (pos + 1) (next_shift shift) value)"

definition Decode :: "buffer \<Rightarrow> nat \<Rightarrow> (int \<times> 'a :: len word) result" where
  "Decode p size' = base128_Decode_loop size' p 0 0 0"

function UncheckedDecode_loop :: "buffer \<Rightarrow> nat \<Rightarrow> nat \<Rightarrow> 'a :: len word \<Rightarrow> (int \<times> 'a word) result" where
  "UncheckedDecode_loop p pos shift value =
     (if pos < length p
      then let value = decode_byte (p ! pos) shift value
           in if (p ! pos) AND ENCODING_CONTINUE_MASK = 0 then Inr (int (pos + 1), value)
              else UncheckedDecode_loop p (pos + 1) (next_shift shift) value
      else Inl Out_of_bounds)"
  by pat_completeness auto
termination
  by (relation "measure (\<lambda>(p, pos, s, v). length p - pos)") auto

declare UncheckedDecode_loop.simps [simp del]

definition UncheckedDecode :: "buffer \<Rightarrow> (int \<times> 'a :: len word) result" where
  "UncheckedDecode p = UncheckedDecode_loop p 0 0 0"

section \<open>Signed integers\<close>

text \<open>
  The bits of a signed integer are a word, its value is \<^const>\<open>sint\<close> of the word. Shifting a negative number to the
  left keeps the low bits, as the compiler defines it.
\<close>

definition MapToUnsigned :: "'a :: len word \<Rightarrow> 'a word" where
  "MapToUnsigned value = push_bit 1 value XOR signed_drop_bit (LENGTH('a) - 1) value"

definition SignedEncodedSize :: "'a :: len word \<Rightarrow> nat result" where
  "SignedEncodedSize value = EncodedSize (MapToUnsigned value)"

definition SignedEncode :: "'a :: len word \<Rightarrow> buffer \<Rightarrow> nat \<Rightarrow> (int \<times> buffer) result" where
  "SignedEncode value buffer size' = Encode (MapToUnsigned value) buffer size'"

definition SignedUncheckedEncode :: "'a :: len word \<Rightarrow> buffer \<Rightarrow> (int \<times> buffer) result" where
  "SignedUncheckedEncode value buffer = UncheckedEncode (MapToUnsigned value) buffer"

definition MapToSigned :: "64 word \<Rightarrow> 64 word" where
  "MapToSigned value = (if value AND 1 \<noteq> 0 then - drop_bit 1 (value + 1) else drop_bit 1 value)"

text \<open>The decoder reads 64 bits whatever the type is; \<open>value\<close> is what the output variable held before.\<close>

definition SignedDecode :: "buffer \<Rightarrow> nat \<Rightarrow> 'a :: len word \<Rightarrow> (int \<times> 'a word) result" where
  "SignedDecode p size' value =
     bindR (Decode p size' :: (int \<times> 64 word) result) (\<lambda>(result, n).
       if result > 0 then Inr (result, ucast (MapToSigned n)) else Inr (- 1, value))"

definition SignedUncheckedDecode :: "buffer \<Rightarrow> (int \<times> 'a :: len word) result" where
  "SignedUncheckedDecode p =
     bindR (UncheckedDecode p :: (int \<times> 64 word) result) (\<lambda>(result, n). Inr (result, ucast (MapToSigned n)))"

definition MaxEncodedSizeOf :: "nat \<Rightarrow> nat" where
  "MaxEncodedSizeOf sizeof_Type = ((sizeof_Type + 1) * 8 - 1) div (8 - 1)"

section \<open>Checked conversions and the interface\<close>

text \<open>
  An integral type is its sign and its size in bytes. \<^verbatim>\<open>static_cast\<close> keeps the low bits. The eight
  specialisations of \<^verbatim>\<open>Converter\<close> are told apart by the two signs and whether the target is narrower.
\<close>

definition in_range :: "bool \<Rightarrow> nat \<Rightarrow> int \<Rightarrow> bool" where
  "in_range sg sz i \<longleftrightarrow> (if sg then - (2 ^ (8 * sz - 1)) \<le> i \<and> i < 2 ^ (8 * sz - 1) else 0 \<le> i \<and> i < 2 ^ (8 * sz))"

definition static_cast :: "bool \<Rightarrow> nat \<Rightarrow> int \<Rightarrow> int" where
  "static_cast sg sz i = (if sg then signed_take_bit (8 * sz - 1) i else take_bit (8 * sz) i)"

definition assertR :: "bool \<Rightarrow> 'a \<Rightarrow> 'a result" where
  "assertR b x = (if b then Inr x else Inl Assertion_failed)"

fun Converter_Convert :: "bool \<Rightarrow> bool \<Rightarrow> bool \<Rightarrow> nat \<Rightarrow> nat \<Rightarrow> int \<Rightarrow> int result" where
  "Converter_Convert False False False From To s = Inr (static_cast False To s)"
| "Converter_Convert False False True From To s = (let t = static_cast False To s in assertR (t = s) t)"
| "Converter_Convert True True False From To s = Inr (static_cast True To s)"
| "Converter_Convert True True True From To s = (let t = static_cast True To s in assertR (t = s) t)"
| "Converter_Convert True False False From To s =
     bindR (assertR (s \<ge> 0) ()) (\<lambda>_. Inr (static_cast False To s))"
| "Converter_Convert True False True From To s =
     bindR (assertR (s \<ge> 0) ()) (\<lambda>_.
       let t = static_cast False To s; t_as_s = static_cast True From t in assertR (t_as_s = s) t)"
| "Converter_Convert False True False From To s = (let t = static_cast True To s in assertR (t \<ge> 0) t)"
| "Converter_Convert False True True From To s =
     (let t = static_cast True To s
      in bindR (assertR (t \<ge> 0) ()) (\<lambda>_. let t_as_s = static_cast False From t in assertR (t_as_s = s) t))"

definition int_cast :: "bool \<Rightarrow> nat \<Rightarrow> bool \<Rightarrow> nat \<Rightarrow> int \<Rightarrow> int result" where
  "int_cast from_signed From to_signed To s =
     (let narrow = To < From in Converter_Convert from_signed to_signed narrow From To s)"

text \<open>
  The entry points: \<^verbatim>\<open>Type\<close> is a word type and a sign, \<^verbatim>\<open>ArgType\<close> a sign and a size, and
  values are integers.
\<close>

definition value_as :: "bool \<Rightarrow> 'a :: len word \<Rightarrow> int" where
  "value_as sg w = (if sg then sint w else uint w)"

definition VariantInteger_Encode ::
  "'a :: len itself \<Rightarrow> bool \<Rightarrow> bool \<Rightarrow> nat \<Rightarrow> int \<Rightarrow> buffer \<Rightarrow> nat \<Rightarrow> (int \<times> buffer) result" where
  "VariantInteger_Encode T sg arg_sg arg_size i buffer size' =
     bindR (int_cast arg_sg arg_size sg (LENGTH('a) div 8) i) (\<lambda>i.
       if sg then SignedEncode (word_of_int i :: 'a word) buffer size' else Encode (word_of_int i :: 'a word) buffer size')"

definition VariantInteger_UncheckedEncode ::
  "'a :: len itself \<Rightarrow> bool \<Rightarrow> bool \<Rightarrow> nat \<Rightarrow> int \<Rightarrow> buffer \<Rightarrow> (int \<times> buffer) result" where
  "VariantInteger_UncheckedEncode T sg arg_sg arg_size i buffer =
     bindR (int_cast arg_sg arg_size sg (LENGTH('a) div 8) i) (\<lambda>i.
       if sg then SignedUncheckedEncode (word_of_int i :: 'a word) buffer
       else UncheckedEncode (word_of_int i :: 'a word) buffer)"

definition VariantInteger_EncodedSize :: "'a :: len itself \<Rightarrow> bool \<Rightarrow> bool \<Rightarrow> nat \<Rightarrow> int \<Rightarrow> nat result" where
  "VariantInteger_EncodedSize T sg arg_sg arg_size i =
     bindR (int_cast arg_sg arg_size sg (LENGTH('a) div 8) i) (\<lambda>i.
       if sg then SignedEncodedSize (word_of_int i :: 'a word) else EncodedSize (word_of_int i :: 'a word))"

definition VariantInteger_Decode :: "bool \<Rightarrow> buffer \<Rightarrow> nat \<Rightarrow> 'a :: len word \<Rightarrow> (int \<times> int) result" where
  "VariantInteger_Decode sg p size' old =
     (if sg then bindR (SignedDecode p size' old) (\<lambda>(r, w). Inr (r, sint w))
      else bindR (Decode p size' :: (int \<times> 'a word) result) (\<lambda>(r, w). Inr (r, uint w)))"

definition VariantInteger_UncheckedDecode :: "'a :: len itself \<Rightarrow> bool \<Rightarrow> buffer \<Rightarrow> (int \<times> int) result" where
  "VariantInteger_UncheckedDecode T sg p =
     (if sg then bindR (SignedUncheckedDecode p :: (int \<times> 'a word) result) (\<lambda>(r, w). Inr (r, sint w))
      else bindR (UncheckedDecode p :: (int \<times> 'a word) result) (\<lambda>(r, w). Inr (r, uint w)))"

section \<open>The sizes agree\<close>

lemma bsr_bounds: "0 < n \<Longrightarrow> 2 ^ bsr n \<le> n \<and> n < 2 ^ Suc (bsr n)"
proof (induction n rule: bsr.induct)
  case (1 n)
  show ?case
  proof (cases "n < 2")
    case False
    then have "2 ^ bsr (n div 2) \<le> n div 2 \<and> n div 2 < 2 ^ Suc (bsr (n div 2))"
      using 1 by simp
    then show ?thesis
      using False by (simp only: bsr.simps [of n] if_False power_Suc) linarith
  qed (use 1(2) in \<open>simp add: bsr.simps [of n]\<close>)
qed

lemma bsr_less: "0 < n \<Longrightarrow> n < 2 ^ k \<Longrightarrow> bsr n < k"
  using bsr_bounds [of n] by (metis le_less_trans nat_power_less_imp_less zero_less_numeral)

lemma bsr_div_128:
  assumes "127 < n"
  shows "bsr n = bsr (n div 128) + 7"
proof -
  have "bsr n = Suc (Suc (Suc (Suc (Suc (Suc (Suc (bsr (n div 2 div 2 div 2 div 2 div 2 div 2 div 2))))))))" if "127 < n" for n
    using that by (simp add: bsr.simps [of n] bsr.simps [of "n div 2"] bsr.simps [of "n div 4"] bsr.simps [of "n div 8"]
        bsr.simps [of "n div 16"] bsr.simps [of "n div 32"] bsr.simps [of "n div 64"] div_less_iff_less_mult flip: div_mult2_eq)
  from this [OF assms] show ?thesis
    by (simp flip: div_mult2_eq)
qed

lemma bsr_div_7: "127 < n \<Longrightarrow> bsr n div 7 = Suc (bsr (n div 128) div 7)"
  by (simp add: bsr_div_128)

lemma bsr_small: "n < 128 \<Longrightarrow> bsr n div 7 = 0"
  using bsr_less [of n 7] by (cases "n = 0") (simp_all add: bsr.simps [of 0])

lemma Div7_table_nth:
  assumes "n < 77"
  shows "Div7_table ! n = n div 7"
proof -
  have "Div7_table = map (\<lambda>n. n div 7) [0..<77]"
    by code_simp
  then have "Div7_table ! n = map (\<lambda>n. n div 7) [0..<77] ! n"
    by (rule arg_cong)
  then show ?thesis
    using nth_map_upt [of n 77 0 "\<lambda>n. n div 7"] assms by linarith
qed

lemma EncodedSize_eq:
  fixes v :: "'a :: len word"
  assumes "LENGTH('a) \<le> 64"
  shows "EncodedSize v = Inr (bsr (unat v) div 7 + 1)"
proof -
  have "bsr (unat v) < 64"
  proof (cases "unat v = 0")
    case False
    have "unat v < 2 ^ 64"
      using unsigned_less [of v, where 'a = nat] assms
      by (meson less_le_trans one_le_numeral power_increasing)
    then show ?thesis
      using False bsr_less by blast
  qed (simp add: bsr.simps [of 0])
  moreover have "length Div7_table = 77"
    by (simp add: Div7_table_def)
  ultimately show ?thesis
    by (auto simp: EncodedSize_def SignificantBits_def Div7_def log2_def checked_nth_def Div7_table_nth bsr.simps [of 0])
qed

lemma EncodedSize_loop_eq: "EncodedSize_loop v r = bsr (unat v) div 7 + r"
proof (induction v r rule: EncodedSize_loop.induct)
  case (1 v r)
  show ?case
  proof (cases "127 < unat v")
    case True
    then show ?thesis
      using 1 bsr_div_7 [of "unat v"] by (simp add: EncodedSize_loop.simps [of v r] unat_drop_bit_7)
  qed (simp add: EncodedSize_loop.simps [of v r] bsr_small)
qed

lemma encode_loop_cases: "encode_cases (bsr (unat v) div 7 + 1) v = encode_loop v"
proof (induction v rule: encode_loop.induct)
  case (1 v)
  show ?case
  proof (cases "127 < unat v")
    case True
    then show ?thesis
      using 1 bsr_div_7 [of "unat v"] by (simp add: encode_loop.simps [of v] unat_drop_bit_7)
  qed (simp add: encode_loop.simps [of v] bsr_small)
qed

lemma length_encode_loop: "length (encode_loop v) = bsr (unat v) div 7 + 1"
proof (induction v rule: encode_loop.induct)
  case (1 v)
  then show ?case
    using bsr_div_7 [of "unat v"] by (cases "127 < unat v") (simp_all add: encode_loop.simps [of v] unat_drop_bit_7 bsr_small)
qed

lemma length_encode_loop_bound:
  fixes v :: "'a :: len word"
  assumes "LENGTH('a) \<le> 64"
  shows "1 \<le> length (encode_loop v)" "length (encode_loop v) \<le> (LENGTH('a) + 6) div 7"
    "length (encode_loop v) \<le> 10"
proof -
  have "bsr (unat v) < LENGTH('a)"
    using bsr_less [of "unat v" "LENGTH('a)"] unsigned_less [of v, where 'a = nat]
    by (cases "unat v = 0") (simp_all add: bsr.simps [of 0])
  then show "1 \<le> length (encode_loop v)" "length (encode_loop v) \<le> (LENGTH('a) + 6) div 7"
    "length (encode_loop v) \<le> 10"
    using assms unfolding length_encode_loop by linarith+
qed

lemma UncheckedEncode_eq:
  fixes v :: "'a :: len word"
  assumes "LENGTH('a) \<le> 64"
  shows "UncheckedEncode v buffer = UncheckedEncode_portable v buffer"
  using assms length_encode_loop_bound [OF assms, of v] encode_loop_cases [of v]
  by (simp add: EncodedSize_eq UncheckedEncode_def UncheckedEncode_portable_def UncheckedEncodeKnownSize_def length_encode_loop)

text \<open>
  C20: the table-driven size and the unrolled encoder agree with the portable loops of the other preprocessor
  branches for every type of at most 64 bits.
\<close>

theorem Varint_branches_agree:
  fixes v :: "'a :: len word"
  assumes "LENGTH('a) \<le> 64"
  shows "EncodedSize v = Inr (EncodedSize_portable v) \<and>
    UncheckedEncode v buffer = UncheckedEncode_portable v buffer"
  using assms UncheckedEncode_eq [OF assms] by (simp add: EncodedSize_eq EncodedSize_portable_def EncodedSize_loop_eq)


theorem Varint_branches_agree_witness:
  "UncheckedEncode (300 :: 16 word) [1, 2, 3] = UncheckedEncode_portable (300 :: 16 word) [1, 2, 3]"
  using Varint_branches_agree [of "300 :: 16 word" "[1, 2, 3]"] by simp

section \<open>Decoding undoes encoding\<close>

lemma bit_ENCODING_MASK: "bit (ENCODING_MASK :: 'a :: len word) n \<longleftrightarrow> n < 7 \<and> n < LENGTH('a)"
proof -
  have e: "(ENCODING_MASK :: 'a word) = mask 7"
    by (simp add: ENCODING_MASK_def mask_eq_exp_minus_1)
  show ?thesis
    unfolding e by (auto simp: bit_mask_iff)
qed

lemma bit_ENCODING_CONTINUE_MASK: "bit ENCODING_CONTINUE_MASK n \<longleftrightarrow> n = 7"
proof -
  have e: "ENCODING_CONTINUE_MASK = 2 ^ 7"
    by (simp add: ENCODING_CONTINUE_MASK_def)
  show ?thesis
    unfolding e bit_exp_iff by auto
qed

lemmas mask_bits = bit_simps bit_ENCODING_MASK bit_ENCODING_CONTINUE_MASK

lemma encode_byte_bits:
  "(ucast (v AND ENCODING_MASK) OR ENCODING_CONTINUE_MASK) AND ENCODING_CONTINUE_MASK \<noteq> 0"
proof -
  have "bit ((ucast (v AND ENCODING_MASK) OR ENCODING_CONTINUE_MASK) AND ENCODING_CONTINUE_MASK) 7"
    by (simp add: mask_bits)
  then show ?thesis
    by (metis bit_0_eq bot_apply bot_bool_def)
qed

lemma small_bits: "unat (v :: 'a :: len word) < 2 ^ k \<Longrightarrow> k \<le> n \<Longrightarrow> \<not> bit v n"
proof -
  assume "unat v < 2 ^ k" "k \<le> n"
  then have "unat v < 2 ^ n"
    by (meson less_le_trans one_le_numeral power_increasing)
  then have "\<not> bit (unat v) n"
    by (simp add: bit_iff_odd)
  then show "\<not> bit v n"
    by (simp add: bit_unsigned_iff possible_bit_nat)
qed

lemma last_byte_bits:
  assumes "unat (v :: 'a :: len word) < 128"
  shows "(ucast v :: 8 word) AND ENCODING_CONTINUE_MASK = 0"
proof (rule bit_word_eqI)
  fix n
  have "\<not> bit v 7"
    using small_bits [of v 7 7] assms by simp
  then show "bit ((ucast v :: 8 word) AND ENCODING_CONTINUE_MASK) n = bit 0 n"
    by (auto simp: mask_bits)
qed

lemma decode_byte_eq: "decode_byte b s (x :: 'b :: len word) = x OR push_bit s (ucast b AND ENCODING_MASK)"
  by (auto simp: decode_byte_def intro!: bit_word_eqI simp: bit_simps)

lemma decode_last_byte:
  assumes "unat (v :: 'a :: len word) < 128"
  shows "decode_byte (ucast v) s (x :: 'b :: len word) = x OR push_bit s (ucast v)"
proof -
  have "(ucast (ucast v :: 8 word) AND ENCODING_MASK :: 'b word) = ucast v"
  proof (rule bit_word_eqI)
    fix n
    have "bit v n \<Longrightarrow> n < 7"
      using small_bits [of v 7 n] assms by (simp add: not_le) (use not_le in blast)
    then show "bit (ucast (ucast v :: 8 word) AND ENCODING_MASK :: 'b word) n = bit (ucast v :: 'b word) n"
      by (auto simp: mask_bits)
  qed
  then show ?thesis
    by (simp add: decode_byte_eq)
qed

lemma decode_inner_byte:
  fixes v :: "'a :: len word" and x :: "'b :: len word"
  shows "decode_byte (ucast (v AND ENCODING_MASK) OR ENCODING_CONTINUE_MASK) s x OR push_bit (s + 7) (ucast (drop_bit 7 v)) =
    x OR push_bit s (ucast v)"
proof -
  have "push_bit s (ucast (ucast (v AND ENCODING_MASK) OR ENCODING_CONTINUE_MASK :: 8 word) AND ENCODING_MASK) OR
      push_bit (s + 7) (ucast (drop_bit 7 v)) = push_bit s (ucast v :: 'b word)"
  proof (rule bit_word_eqI)
    fix n
    show "bit (push_bit s (ucast (ucast (v AND ENCODING_MASK) OR ENCODING_CONTINUE_MASK :: 8 word) AND ENCODING_MASK) OR
      push_bit (s + 7) (ucast (drop_bit 7 v)) :: 'b word) n = bit (push_bit s (ucast v :: 'b word)) n"
      by (cases "n < s + 7") (auto simp: mask_bits dest: bit_imp_le_length)
  qed
  then show ?thesis
    by (simp add: decode_byte_eq or.assoc)
qed

lemma drop_ConsD: "drop pos p = b # bs \<Longrightarrow> pos < length p \<and> p ! pos = b \<and> drop (Suc pos) p = bs"
  by (metis Cons_nth_drop_Suc drop_eq_Nil2 list.distinct(1) list.inject not_le_imp_less)

lemma encode_loop_decoded:
  fixes v :: "'a :: len word" and x :: "'b :: len word"
  assumes "drop pos p = encode_loop v @ rest" "length (encode_loop v) \<le> left" "s + 7 * length (encode_loop v) < 2 ^ 32"
  shows "base128_Decode_loop left p pos s x = Inr (int (pos + length (encode_loop v)), x OR push_bit s (ucast v))"
    "UncheckedDecode_loop p pos s x = Inr (int (pos + length (encode_loop v)), x OR push_bit s (ucast v))"
    "DecodedSize_loop left p pos = Inr (int (pos + length (encode_loop v)))"
    "UncheckedDecodedSize_loop p pos = Inr (int (pos + length (encode_loop v)))"
proof -
  have "base128_Decode_loop left p pos s x = Inr (int (pos + length (encode_loop v)), x OR push_bit s (ucast v)) \<and>
    UncheckedDecode_loop p pos s x = Inr (int (pos + length (encode_loop v)), x OR push_bit s (ucast v)) \<and>
    DecodedSize_loop left p pos = Inr (int (pos + length (encode_loop v))) \<and>
    UncheckedDecodedSize_loop p pos = Inr (int (pos + length (encode_loop v)))"
    using assms
  proof (induction v arbitrary: pos left s x rule: encode_loop.induct)
    case (1 v)
    note simps = UncheckedDecode_loop.simps [of p pos s x] UncheckedDecodedSize_loop.simps [of p pos] encode_loop.simps [of v]
    show ?case
    proof (cases "127 < unat v")
      case True
      let ?b = "ucast (v AND ENCODING_MASK) OR ENCODING_CONTINUE_MASK :: 8 word" and ?w = "drop_bit ENCODING_WIDTH v"
      obtain left' where left: "left = Suc left'" "length (encode_loop ?w) \<le> left'"
        using "1.prems"(2) True by (cases left) (simp_all add: encode_loop.simps [of v])
      have p: "pos < length p \<and> p ! pos = ?b \<and> drop (Suc pos) p = encode_loop ?w @ rest"
        using "1.prems"(1) True by (intro drop_ConsD) (simp add: encode_loop.simps [of v])
      have s: "next_shift s = s + 7" "s + 7 + 7 * length (encode_loop ?w) < 2 ^ 32"
        using "1.prems"(3) True by (simp_all add: next_shift_def encode_loop.simps [of v])
      show ?thesis
        using "1.IH" [OF True conjunct2 [OF conjunct2 [OF p]] left(2) s(2), of "decode_byte ?b s x"] p s(1) left(1) True
          encode_byte_bits [of v] decode_inner_byte [of v s x]
        by (simp add: simps checked_nth_def Let_def)
    next
      case False
      then have p: "pos < length p \<and> p ! pos = ucast v"
        using "1.prems"(1) drop_ConsD [of pos p "ucast v" rest] by (simp add: encode_loop.simps [of v])
      then show ?thesis
        using "1.prems"(2) False last_byte_bits [of v] decode_last_byte [of v s x]
        by (cases left) (simp_all add: simps checked_nth_def Let_def)
    qed
  qed
  then show "base128_Decode_loop left p pos s x = Inr (int (pos + length (encode_loop v)), x OR push_bit s (ucast v))"
    "UncheckedDecode_loop p pos s x = Inr (int (pos + length (encode_loop v)), x OR push_bit s (ucast v))"
    "DecodedSize_loop left p pos = Inr (int (pos + length (encode_loop v)))"
    "UncheckedDecodedSize_loop p pos = Inr (int (pos + length (encode_loop v)))"
    by simp_all
qed

lemma Encode_eq:
  fixes v :: "'a :: len word"
  assumes "LENGTH('a) \<le> 64" "size' \<le> length buffer"
  shows "Encode v buffer size' =
    (if size' < length (encode_loop v) then Inr (- 1, buffer)
     else Inr (int (length (encode_loop v)), encode_loop v @ drop (length (encode_loop v)) buffer))"
  using assms length_encode_loop_bound [OF assms(1), of v] encode_loop_cases [of v]
  by (simp add: Encode_def EncodedSize_eq UncheckedEncodeKnownSize_def store_def length_encode_loop Let_def)

lemma Decode_encoded:
  fixes v :: "'a :: len word"
  assumes "LENGTH('a) \<le> 64" "p = encode_loop v @ rest" "length (encode_loop v) \<le> size'"
  shows "Decode p size' = Inr (int (length (encode_loop v)), ucast v :: 'b :: len word)"
    "UncheckedDecode p = Inr (int (length (encode_loop v)), ucast v :: 'b word)"
    "DecodedSize p size' = Inr (int (length (encode_loop v)))"
    "UncheckedDecodedSize p = Inr (int (length (encode_loop v)))"
  using encode_loop_decoded(1,2) [of 0 p v rest size' 0 "0 :: 'b word"] encode_loop_decoded(3,4) [of 0 p v rest size' 0] length_encode_loop_bound [OF assms(1), of v] assms(2,3)
  by (simp_all add: Decode_def UncheckedDecode_def DecodedSize_def UncheckedDecodedSize_def)

text \<open>
  For every unsigned type of at most 64 bits \<^verbatim>\<open>Encode\<close> refuses a buffer that is too small and leaves it
  alone; otherwise it writes exactly \<^verbatim>\<open>EncodedSize\<close> bytes, keeps the rest of the buffer, and all four decoding
  functions find the value and its size again.
\<close>

lemma Varint_unsigned_roundtrip:
  fixes v :: "'a :: len word"
  assumes "LENGTH('a) \<le> 64" "size' \<le> length buffer" "EncodedSize v = Inr n"
  shows "if size' < n then Encode v buffer size' = Inr (- 1, buffer)
    else \<exists>buffer'. Encode v buffer size' = Inr (int n, buffer') \<and> length buffer' = length buffer \<and>
      drop n buffer' = drop n buffer \<and> Decode buffer' size' = Inr (int n, v) \<and> UncheckedDecode buffer' = Inr (int n, v) \<and>
      DecodedSize buffer' size' = Inr (int n) \<and> UncheckedDecodedSize buffer' = Inr (int n)"
proof -
  have n: "n = length (encode_loop v)"
    using assms(3) EncodedSize_eq [OF assms(1), of v] by (simp add: length_encode_loop)
  then show ?thesis
    using assms(2) Encode_eq [OF assms(1,2), of v] Decode_encoded(1,2) [OF assms(1) refl, of v size' "drop n buffer", where 'b = 'a]
      Decode_encoded(3,4) [OF assms(1) refl, of v size' "drop n buffer"]
    by (auto simp: not_less)
qed

section \<open>Signed integers\<close>

lemma signed_drop_bit_all:
  fixes v :: "'a :: len word"
  shows "signed_drop_bit (LENGTH('a) - 1) v = (if bit v (LENGTH('a) - 1) then - 1 else 0)"
  by (intro bit_word_eqI) (auto simp: bit_signed_drop_bit_iff bit_simps not_less_eq_eq)

lemma bit_top:
  fixes v :: "'a :: len word"
  shows "bit v (LENGTH('a) - 1) \<longleftrightarrow> 2 ^ (LENGTH('a) - 1) \<le> uint v"
proof -
  have "uint v < 2 * 2 ^ (LENGTH('a) - 1)"
    using unsigned_less [of v, where 'a = int] by (simp flip: power_Suc)
  then have "uint v div 2 ^ (LENGTH('a) - 1) = (if 2 ^ (LENGTH('a) - 1) \<le> uint v then 1 else 0)"
    by (auto simp: div_pos_pos_trivial intro!: int_div_pos_eq [of _ _ _ "uint v - 2 ^ (LENGTH('a) - 1)"])
  then have "bit (uint v) (LENGTH('a) - 1) \<longleftrightarrow> 2 ^ (LENGTH('a) - 1) \<le> uint v"
    by (simp add: bit_iff_odd)
  then show ?thesis
    by (simp add: bit_unsigned_iff)
qed

lemma MapToUnsigned_cases:
  fixes v :: "'a :: len word"
  shows "MapToUnsigned v = (if 2 ^ (LENGTH('a) - 1) \<le> uint v then NOT (push_bit 1 v) else push_bit 1 v)"
  unfolding MapToUnsigned_def signed_drop_bit_all bit_top by simp

lemma uint_MapToUnsigned:
  fixes v :: "'a :: len word"
  shows "uint (MapToUnsigned v) =
    (if uint v < 2 ^ (LENGTH('a) - 1) then 2 * uint v else 2 * 2 ^ LENGTH('a) - 1 - 2 * uint v)"
proof -
  let ?h = "2 ^ (LENGTH('a) - 1) :: int"
  have N: "2 ^ LENGTH('a) = 2 * ?h"
    by (simp flip: power_Suc)
  have v: "uint v < 2 * ?h"
    using unsigned_less [of v, where 'a = int] by (simp add: N)
  have d: "uint (push_bit 1 v) = (2 * uint v) mod (2 * ?h)"
    unfolding unsigned_push_bit_eq by (simp only: take_bit_eq_mod push_bit_eq_mult N power_one_right mult.commute)
  show ?thesis
  proof (cases "uint v < ?h")
    case True
    then show ?thesis
      using d by (simp add: MapToUnsigned_cases)
  next
    case False
    have "(uint v - ?h) mod ?h = uint v - ?h"
      using v False by (intro mod_pos_pos_trivial) linarith+
    then have m: "(2 * uint v) mod (2 * ?h) = 2 * uint v - 2 * ?h"
      by simp
    have "uint (NOT (push_bit 1 v)) = (- uint (push_bit 1 v) - 1) mod (2 * ?h)"
      by (simp add: unsigned_not_eq take_bit_eq_mod N not_int_def)
    also have "\<dots> = (- uint (push_bit 1 v) - 1 + 2 * ?h) mod (2 * ?h)"
      by simp
    also have "\<dots> = 2 * (2 * ?h) - 1 - 2 * uint v"
      using False v m d by (subst mod_pos_pos_trivial) linarith+
    finally show ?thesis
      using False by (simp add: MapToUnsigned_cases N)
  qed
qed


text \<open>The zig-zag code is undone at 64 bits, except for the code of the smallest 64-bit number.\<close>

lemma MapToSigned_eq:
  "MapToSigned w =
     word_of_int (if odd (uint w) then - (((uint w + 1) mod 2 ^ 64) div 2) else uint w div 2)"
proof -
  have odd: "w AND 1 \<noteq> 0 \<longleftrightarrow> odd (uint w)"
    by (simp add: and_one_eq mod_2_eq_odd) (metis bit_0 bit_uint_iff len_gt_0)
  have half: "drop_bit 1 x = word_of_int (uint x div 2)" for x :: "64 word"
  proof -
    have "drop_bit 1 x = x div 2"
      by (simp add: drop_bit_eq_div)
    also have "\<dots> = word_of_int (uint (x div 2))"
      by simp
    finally show ?thesis
      unfolding uint_div_distrib by simp
  qed
  have "uint (w + 1) = (uint w + 1) mod 2 ^ 64"
    by (simp add: uint_word_ariths)
  then show ?thesis
    unfolding MapToSigned_def odd half by simp
qed

lemma zigzag_roundtrip:
  fixes v :: "'a :: len word"
  assumes "LENGTH('a) \<le> 64"
  shows "ucast (MapToSigned (ucast (MapToUnsigned v))) = (if LENGTH('a) = 64 \<and> uint v = 2 ^ 63 then 0 else v)"
proof -
  let ?N = "2 ^ LENGTH('a) :: int" and ?n = "ucast (MapToUnsigned v) :: 64 word"
  have N: "?N \<le> 2 ^ 64" "?N = 2 * 2 ^ (LENGTH('a) - 1)"
    using assms by (simp_all only: power_increasing one_le_numeral) (simp flip: power_Suc)
  have v: "uint v < ?N"
    using unsigned_less [of v, where 'a = int] by simp
  have "uint (MapToUnsigned v) < ?N"
    using unsigned_less [of "MapToUnsigned v", where 'a = int] by simp
  then have "uint (MapToUnsigned v) < 2 ^ 64"
    using N(1) by linarith
  then have n: "uint ?n = uint (MapToUnsigned v)"
    by (simp add: unsigned_ucast_eq take_bit_int_eq_self)
  have trunc: "ucast (word_of_int i :: 64 word) = (word_of_int i :: 'a word)" for i
    using assms by (intro bit_word_eqI) (auto simp: bit_simps dest: bit_imp_le_length)
  show ?thesis
  proof (cases "uint v < 2 ^ (LENGTH('a) - 1)")
    case True
    then have e: "uint ?n = 2 * uint v"
      using n by (simp add: uint_MapToUnsigned)
    have "MapToSigned ?n = word_of_int (uint v)"
      unfolding MapToSigned_eq e by simp
    then have "ucast (MapToSigned ?n) = v"
      by (simp only: trunc word_of_int_uint)
    then show ?thesis
      using True by auto
  next
    case False
    then have e: "uint ?n = 2 * (?N - uint v) - 1"
      using n by (simp add: uint_MapToUnsigned)
    have "(2 * (?N - uint v)) mod 2 ^ 64 = (if LENGTH('a) = 64 \<and> uint v = 2 ^ 63 then 0 else 2 * (?N - uint v))"
    proof (cases "LENGTH('a) = 64 \<and> uint v = 2 ^ 63")
      case special: False
      have "2 * (?N - uint v) \<noteq> 2 ^ 64"
      proof
        assume a: "2 * (?N - uint v) = 2 ^ 64"
        have "n = k" if "n = 2 * h" "\<not> u < h" "n \<le> k" "2 * (n - u) = k" for n h u k :: int
          using that by presburger
        from this [OF N(2) False N(1) a] have "?N = 2 ^ 64" .
        moreover from this have "uint v = 2 ^ 63"
          using a by simp
        ultimately show False
          using special power_inject_exp [of "2 :: int" "LENGTH('a)" 64] by simp
      qed
      moreover have "2 * (n - u) \<le> k" if "n = 2 * h" "\<not> u < h" "n \<le> k" for n h u k :: int
        using that by presburger
      from this [OF N(2) False N(1)] have "2 * (?N - uint v) \<le> 2 ^ 64" .
      ultimately have "2 * (?N - uint v) < 2 ^ 64"
        by linarith
      then have "(2 * (?N - uint v)) mod 2 ^ 64 = 2 * (?N - uint v)"
        by (intro mod_pos_pos_trivial) (simp_all add: less_imp_le)
      then show ?thesis
        using special by auto
    qed simp
    moreover have "MapToSigned ?n = word_of_int (- ((2 * (?N - uint v)) mod 2 ^ 64 div 2))"
    proof -
      have "odd (2 * (?N - uint v) - 1)" "2 * (?N - uint v) - 1 + 1 = 2 * (?N - uint v)"
        by simp_all
      then show ?thesis
        unfolding MapToSigned_eq e by (simp only: not_False_eq_True if_True)
    qed
    ultimately have "MapToSigned ?n = word_of_int (if LENGTH('a) = 64 \<and> uint v = 2 ^ 63 then 0 else uint v - ?N)"
      by (simp only: split: if_split) auto
    then have "ucast (MapToSigned ?n) = (word_of_int (if LENGTH('a) = 64 \<and> uint v = 2 ^ 63 then 0 else uint v - ?N) :: 'a word)"
      by (simp only: trunc)
    moreover have "(word_of_int (uint v - ?N) :: 'a word) = v"
      using word_of_int_eq_iff [of "uint v - ?N" "uint v", where 'a = 'a] by (simp add: take_bit_eq_mod)
    ultimately show ?thesis
      by (cases "LENGTH('a) = 64 \<and> uint v = 2 ^ 63") (simp_all only: if_True if_False of_int_0 simp_thms)
  qed
qed

text \<open>
  For every signed type of at most 64 bits and every value but the smallest one of 64 bits, decoding what was
  encoded gives the value back; that one is decoded to zero, because the code \<open>2 ^ 64 - 1\<close> wraps around when one is
  added to it.
\<close>

lemma Varint_signed_roundtrip:
  fixes v :: "'a :: len word"
  assumes "LENGTH('a) \<le> 64" "size' \<le> length buffer" "SignedEncodedSize v = Inr n" "n \<le> size'"
  shows "\<exists>buffer'. SignedEncode v buffer size' = Inr (int n, buffer') \<and> drop n buffer' = drop n buffer \<and>
    (let w = if LENGTH('a) = 64 \<and> uint v = 2 ^ 63 then 0 else v
     in SignedDecode buffer' size' old = Inr (int n, w) \<and> SignedUncheckedDecode buffer' = Inr (int n, w))"
proof -
  let ?e = "encode_loop (MapToUnsigned v)"
  have n: "n = length ?e"
    using assms(3) EncodedSize_eq [OF assms(1), of "MapToUnsigned v"] by (simp add: SignedEncodedSize_def length_encode_loop)
  then have e: "SignedEncode v buffer size' = Inr (int n, ?e @ drop n buffer)"
    using assms(4) Encode_eq [OF assms(1,2), of "MapToUnsigned v"] by (simp add: SignedEncode_def)
  moreover have "0 < n"
    using n length_encode_loop_bound(1) [OF assms(1), of "MapToUnsigned v"] by linarith
  ultimately show ?thesis
    using n assms(4) zigzag_roundtrip [OF assms(1), of v]
      Decode_encoded(1,2) [OF assms(1) refl, of "MapToUnsigned v" size' "drop n buffer", where 'b = 64]
    by (simp add: SignedDecode_def SignedUncheckedDecode_def Let_def)
qed

text \<open>The stated maximum of \<^verbatim>\<open>MaxEncodedSizeOf\<close> is never exceeded, for either sign.\<close>

lemma MaxEncodedSizeOf_bound:
  fixes v :: "'a :: len word"
  assumes "LENGTH('a) = 8 * sizeof" "sizeof \<le> 8"
  shows "\<exists>n m. EncodedSize v = Inr n \<and> SignedEncodedSize v = Inr m \<and> 1 \<le> n \<and> n \<le> MaxEncodedSizeOf sizeof \<and>
    1 \<le> m \<and> m \<le> MaxEncodedSizeOf sizeof"
proof -
  have l: "LENGTH('a) \<le> 64"
    using assms by simp
  have "(sizeof + 1) * 8 - 1 = LENGTH('a) + 7"
    using assms(1) by simp
  then have "(LENGTH('a) + 6) div 7 \<le> MaxEncodedSizeOf sizeof"
    using div_le_mono [of "LENGTH('a) + 6" "LENGTH('a) + 7" 7] by (simp add: MaxEncodedSizeOf_def)
  then show ?thesis
    using length_encode_loop_bound [OF l, of v] length_encode_loop_bound [OF l, of "MapToUnsigned v"]
    by (simp add: EncodedSize_eq [OF l] SignedEncodedSize_def length_encode_loop)
qed

section \<open>The interface\<close>

lemma static_cast_in_range:
  "0 < sz \<Longrightarrow> in_range sg sz (static_cast sg sz i)"
  using signed_take_bit_int_less_exp [of "8 * sz - 1" i] signed_take_bit_int_greater_eq_minus_exp [of "8 * sz - 1" i]
  by (auto simp: in_range_def static_cast_def)

lemma static_cast_id: "0 < sz \<Longrightarrow> in_range sg sz i \<Longrightarrow> static_cast sg sz i = i"
  by (auto simp: in_range_def static_cast_def signed_take_bit_int_eq_self take_bit_int_eq_self split: if_splits)

lemma in_range_widen: "0 < n \<Longrightarrow> n \<le> m \<Longrightarrow> in_range sg n i \<Longrightarrow> in_range sg m i"
proof -
  assume "0 < n" "n \<le> m" "in_range sg n i"
  moreover have "(2 :: int) ^ (8 * n) \<le> 2 ^ (8 * m)" "(2 :: int) ^ (8 * n - 1) \<le> 2 ^ (8 * m - 1)"
    using \<open>n \<le> m\<close> by (simp_all add: power_increasing)
  ultimately show ?thesis
    by (cases sg) (simp_all only: in_range_def if_True if_False simp_thms, linarith+)
qed

lemma static_cast_eq_iff: "0 < sz \<Longrightarrow> static_cast sg sz i = i \<longleftrightarrow> in_range sg sz i"
  using static_cast_id static_cast_in_range by metis

lemma in_range_unsigned: "0 < sz \<Longrightarrow> in_range True sz t \<Longrightarrow> 0 \<le> t \<Longrightarrow> in_range False sz t"
proof -
  assume "0 < sz" "in_range True sz t" "0 \<le> t"
  moreover have "(2 :: int) ^ (8 * sz - 1) \<le> 2 ^ (8 * sz)"
    by (simp add: power_increasing)
  ultimately show ?thesis
    by (simp only: in_range_def if_True if_False simp_thms) linarith
qed

lemma in_range_signed: "n < m \<Longrightarrow> in_range False n t \<Longrightarrow> in_range True m t"
proof -
  assume "n < m" "in_range False n t"
  moreover have "(2 :: int) ^ (8 * n) \<le> 2 ^ (8 * m - 1)"
    using \<open>n < m\<close> by (intro power_increasing) simp_all
  moreover have "- (2 ^ (8 * m - 1)) \<le> (0 :: int)"
    by simp
  ultimately show ?thesis
    by (simp only: in_range_def if_True if_False simp_thms) linarith
qed

lemma int_cast_narrow:
  assumes "0 < To" "To < From" "in_range from_signed From s"
  shows "Converter_Convert from_signed to_signed True From To s = (if in_range to_signed To s then Inr s else Inl Assertion_failed)"
proof -
  let ?t = "static_cast to_signed To s"
  have t: "?t = s \<longleftrightarrow> in_range to_signed To s" "in_range to_signed To ?t"
    by (rule static_cast_eq_iff [OF assms(1)]) (rule static_cast_in_range [OF assms(1)])
  have undone: "static_cast from_signed From ?t = ?t" if "from_signed \<noteq> to_signed" "0 \<le> ?t"
  proof (rule static_cast_id)
    show "0 < From"
      using assms(2) by simp
    show "in_range from_signed From ?t"
      using that t(2) assms(1,2) in_range_signed [of To From ?t] in_range_unsigned [of To ?t] in_range_widen [of To From False ?t]
      by (cases from_signed; cases to_signed) auto
  qed
  have nonneg: "\<not> from_signed \<Longrightarrow> 0 \<le> s" "\<not> to_signed \<Longrightarrow> 0 \<le> ?t" "\<not> to_signed \<Longrightarrow> in_range to_signed To s \<Longrightarrow> 0 \<le> s"
    using assms(3) t(2) by (auto simp: in_range_def)
  show ?thesis
    using t undone nonneg by (cases from_signed; cases to_signed) (auto simp: assertR_def Let_def)
qed

lemma static_cast_top:
  assumes "0 < sz" "2 ^ (8 * sz - 1) \<le> i" "i < 2 ^ (8 * sz)"
  shows "static_cast True sz i < 0"
proof -
  have p: "(2 :: int) ^ (8 * sz) = 2 * 2 ^ (8 * sz - 1)"
    using assms(1) by (simp flip: power_Suc)
  have "bit i (8 * sz - 1)"
  proof -
    have "i div 2 ^ (8 * sz - 1) = 1"
      using assms p by (intro int_div_pos_eq [of _ _ _ "i - 2 ^ (8 * sz - 1)"]) simp_all
    then show ?thesis
      by (simp add: bit_iff_odd)
  qed
  then show ?thesis
    by (simp add: static_cast_def)
qed

lemma int_cast_wide:
  assumes "0 < From" "From \<le> To" "in_range from_signed From s"
  shows "Converter_Convert from_signed to_signed False From To s = (if in_range to_signed To s then Inr s else Inl Assertion_failed)"
proof -
  have To: "0 < To"
    using assms by simp
  have same: "in_range from_signed To s"
    by (rule in_range_widen [OF assms])
  have id: "in_range to_signed To s \<Longrightarrow> static_cast to_signed To s = s"
    by (rule static_cast_id [OF To])
  show ?thesis
  proof (cases from_signed; cases to_signed)
    assume signs: "from_signed" "\<not> to_signed"
    then have "in_range to_signed To s \<longleftrightarrow> 0 \<le> s"
      using same in_range_unsigned [OF To] by (auto simp: in_range_def)
    then show ?thesis
      using signs id by (auto simp: assertR_def)
  next
    assume signs: "\<not> from_signed" "to_signed"
    then have s: "0 \<le> s" "s < 2 ^ (8 * To)"
      using same by (simp_all add: in_range_def)
    have "in_range to_signed To s \<or> static_cast to_signed To s < 0"
    proof (cases "2 ^ (8 * To - 1) \<le> s")
      case True
      then show ?thesis
        using signs static_cast_top [OF To True s(2)] by simp
    next
      case False
      moreover have "- (2 ^ (8 * To - 1)) \<le> (0 :: int)"
        by simp
      ultimately show ?thesis
        using signs s(1) by (simp only: in_range_def if_True) linarith
    qed
    moreover have "in_range to_signed To s \<Longrightarrow> 0 \<le> static_cast to_signed To s"
      using id s(1) by simp
    ultimately show ?thesis
      using signs id by (auto simp: assertR_def Let_def)
  qed (use same id in \<open>simp_all\<close>)
qed

text \<open>
  \<^verbatim>\<open>int_cast\<close> returns the number it was given if the target type has it, and fails its assertion
  otherwise, for any two integral types.
\<close>

lemma int_cast_exact:
  assumes "0 < From" "0 < To" "in_range from_signed From s"
  shows "int_cast from_signed From to_signed To s = (if in_range to_signed To s then Inr s else Inl Assertion_failed)"
proof (cases "To < From")
  case True
  then show ?thesis
    using int_cast_narrow [OF assms(2) _ assms(3), of to_signed] by (simp add: int_cast_def)
next
  case False
  then show ?thesis
    using int_cast_wide [OF assms(1) _ assms(3), of To to_signed] by (simp add: int_cast_def)
qed

lemma word_of_int_value:
  assumes "LENGTH('a :: len) = 8 * sz" "in_range sg sz i"
  shows "value_as sg (word_of_int i :: 'a word) = i"
proof (cases sg)
  case True
  then show ?thesis
    using assms by (simp add: value_as_def in_range_def signed_take_bit_int_eq_self sint_sbintrunc')
next
  case False
  then show ?thesis
    using assms by (simp add: value_as_def in_range_def take_bit_int_eq_self uint_word_of_int_eq)
qed

lemma word_of_int_minimum:
  assumes "uint (word_of_int i :: 64 word) = 2 ^ 63" "in_range True 8 i"
  shows "i = - (2 ^ 63)"
proof -
  have "i mod 2 ^ 64 = 2 ^ 63"
    using assms(1) by (simp add: uint_word_of_int)
  moreover have "i mod 2 ^ 64 = (if i < 0 then i + 2 ^ 64 else i)"
    using assms(2) mod_pos_pos_trivial [of "i + 2 ^ 64" "2 ^ 64"] mod_pos_pos_trivial [of i "2 ^ 64"]
    by (auto simp: in_range_def)
  ultimately show ?thesis
    using assms(2) by (simp add: in_range_def split: if_splits)
qed

text \<open>
  C4: through the public interface, for every integral type of one to eight bytes as \<^verbatim>\<open>Type\<close> and as
  \<^verbatim>\<open>ArgType\<close>: a number that fits both is encoded into a buffer of \<^verbatim>\<open>MaxEncodedSizeOf\<close> bytes and decoded
  to itself, except for the smallest 64-bit number; a number that does not fit fails the assertion of
  \<^verbatim>\<open>int_cast\<close>.
\<close>

theorem VariantInteger_roundtrip:
  assumes "LENGTH('a :: len) = 8 * sizeof" "0 < arg_size" "sizeof \<le> 8" "in_range arg_sg arg_size i"
    "MaxEncodedSizeOf sizeof \<le> size'" "size' \<le> length buffer" "\<not> (sg \<and> sizeof = 8 \<and> i = - (2 ^ 63))"
  shows "if in_range sg sizeof i
    then \<exists>n buffer'. VariantInteger_Encode TYPE('a) sg arg_sg arg_size i buffer size' = Inr (int n, buffer') \<and>
      1 \<le> n \<and> n \<le> MaxEncodedSizeOf sizeof \<and>
      VariantInteger_Decode sg buffer' size' (old :: 'a word) = Inr (int n, i) \<and>
      VariantInteger_UncheckedDecode TYPE('a) sg buffer' = Inr (int n, i)
    else VariantInteger_Encode TYPE('a) sg arg_sg arg_size i buffer size' = Inl Assertion_failed"
proof -
  let ?w = "word_of_int i :: 'a word"
  have len: "LENGTH('a) \<le> 64" "LENGTH('a) div 8 = sizeof" "0 < sizeof"
    using assms(1,3) len_gt_0 [where 'a = 'a] by (linarith, simp, linarith)
  have cast: "int_cast arg_sg arg_size sg sizeof i = (if in_range sg sizeof i then Inr i else Inl Assertion_failed)"
    by (rule int_cast_exact [OF assms(2) len(3) assms(4)])
  obtain n m where sizes: "EncodedSize ?w = Inr n" "SignedEncodedSize ?w = Inr m" "1 \<le> n" "n \<le> MaxEncodedSizeOf sizeof"
    "1 \<le> m" "m \<le> MaxEncodedSizeOf sizeof"
    using MaxEncodedSizeOf_bound [OF assms(1,3), of ?w] by blast
  show ?thesis
  proof (cases "in_range sg sizeof i")
    case True
    then have v: "value_as sg ?w = i"
      by (rule word_of_int_value [OF assms(1)])
    show ?thesis
    proof (cases sg)
      case sg: True
      have "\<not> (LENGTH('a) = 64 \<and> uint ?w = 2 ^ 63)"
        using assms(1,7) True sg word_of_int_minimum [of i] by (auto simp: uint_word_of_int)
      then obtain buffer' where "SignedEncode ?w buffer size' = Inr (int m, buffer')"
        "SignedDecode buffer' size' old = Inr (int m, ?w)" "SignedUncheckedDecode buffer' = Inr (int m, ?w)"
        using Varint_signed_roundtrip [OF len(1) assms(6) sizes(2), of old] sizes(6) assms(5)
        by (auto simp only: Let_def if_False le_trans)
      then show ?thesis
        using True sg v sizes(5,6) cast by (simp add: VariantInteger_Encode_def VariantInteger_Decode_def
            VariantInteger_UncheckedDecode_def len(2) value_as_def)
    next
      case sg: False
      obtain buffer' where "Encode ?w buffer size' = Inr (int n, buffer')"
        "Decode buffer' size' = Inr (int n, ?w)" "UncheckedDecode buffer' = Inr (int n, ?w)"
        using Varint_unsigned_roundtrip [OF len(1) assms(6) sizes(1)] sizes(4) assms(5) by (auto split: if_splits)
      then show ?thesis
        using True sg v sizes(3,4) cast by (simp add: VariantInteger_Encode_def VariantInteger_Decode_def
            VariantInteger_UncheckedDecode_def len(2) value_as_def)
    qed
  qed (simp add: VariantInteger_Encode_def cast len(2))
qed

theorem VariantInteger_roundtrip_witness:
  "\<exists>n buffer'. VariantInteger_Encode TYPE(32) True True 8 (- 70000) (replicate 5 0) 5 = Inr (int n, buffer') \<and>
    VariantInteger_Decode True buffer' 5 (0 :: 32 word) = Inr (int n, - 70000)"
  using VariantInteger_roundtrip [of 4 8 True "- 70000" 5 "replicate 5 0" True "0 :: 32 word"]
  by (auto simp: in_range_def MaxEncodedSizeOf_def)

text \<open>
  C33: the smallest 64-bit number is encoded without complaint and decoded to zero, by the checked and by the unchecked
  functions.
\<close>

theorem VariantInteger_minimum_lost:
  assumes "10 \<le> size'" "size' \<le> length buffer"
  shows "\<exists>n buffer'. VariantInteger_Encode TYPE(64) True True 8 (- (2 ^ 63)) buffer size' = Inr (int n, buffer') \<and>
    VariantInteger_Decode True buffer' size' (old :: 64 word) = Inr (int n, 0) \<and>
    VariantInteger_UncheckedDecode TYPE(64) True buffer' = Inr (int n, 0)"
proof -
  have cast: "int_cast True 8 True 8 (- (2 ^ 63)) = Inr (- (2 ^ 63))"
    using int_cast_exact [of 8 8 True "- (2 ^ 63)" True] by (simp add: in_range_def)
  have u: "uint (word_of_int (- (2 ^ 63)) :: 64 word) = 2 ^ 63"
    by simp
  obtain m where m: "SignedEncodedSize (word_of_int (- (2 ^ 63)) :: 64 word) = Inr m" "m \<le> 10"
    using MaxEncodedSizeOf_bound [of 8 "word_of_int (- (2 ^ 63)) :: 64 word"] by (auto simp: MaxEncodedSizeOf_def)
  obtain buffer' where "SignedEncode (word_of_int (- (2 ^ 63)) :: 64 word) buffer size' = Inr (int m, buffer')"
    "SignedDecode buffer' size' old = Inr (int m, 0)" "SignedUncheckedDecode buffer' = Inr (int m, 0 :: 64 word)"
    using Varint_signed_roundtrip [of size' buffer "word_of_int (- (2 ^ 63)) :: 64 word" m old] m assms u
    by (auto simp: Let_def)
  then show ?thesis
    using cast by (simp add: VariantInteger_Encode_def VariantInteger_Decode_def VariantInteger_UncheckedDecode_def)
qed

theorem VariantInteger_minimum_lost_witness:
  "\<exists>n buffer'. VariantInteger_Encode TYPE(64) True True 8 (- (2 ^ 63)) (replicate 10 0) 10 = Inr (int n, buffer') \<and>
    VariantInteger_Decode True buffer' 10 (7 :: 64 word) = Inr (int n, 0)"
  using VariantInteger_minimum_lost [of 10 "replicate 10 0" 7] by auto

end
