(* ===== verification/Record_Format.thy ===== *)
theory Record_Format
  imports Varint
begin

unbundle bit_operations_syntax

text \<open>
  The building blocks of the record files of \<^verbatim>\<open>app/qzap/common/recordio/recordio.cc\<close>: its constants, the
  checksums, the little-endian words of \<^verbatim>\<open>GetUnaligned\<close> and the lengths in variant encoding. The table-driven
  checksum is shown to be the bitwise one, and to change under every corruption of at most four consecutive bytes.
\<close>

section \<open>Constants\<close>

definition kBlockTypeMask :: "8 word" where "kBlockTypeMask = 0x0F"

definition BLOCK_TYPE_FIXED :: "8 word" where "BLOCK_TYPE_FIXED = 0"

definition BLOCK_TYPE_VARIABLE :: "8 word" where "BLOCK_TYPE_VARIABLE = 1"

definition BLOCK_TYPE_SINGLE :: "8 word" where "BLOCK_TYPE_SINGLE = 2"

definition BLOCK_TYPE_EXTENT_PROTO_HEADER :: "8 word" where "BLOCK_TYPE_EXTENT_PROTO_HEADER = 0x80"

definition RECORD_SIZE_INIT :: int where "RECORD_SIZE_INIT = - 1"

definition RECORD_SIZE_DIFFERENT :: int where "RECORD_SIZE_DIFFERENT = - 2"

definition kMaxBlockHeaderSize :: nat where "kMaxBlockHeaderSize = 11"

definition kMinBlockSize :: nat where "kMinBlockSize = 13"

definition kBlockFooterSize :: nat where "kBlockFooterSize = 4"

definition kRecordIOCRC32InitValue :: buffer where "kRecordIOCRC32InitValue = [0xe8, 0xba, 0x49, 0x5a]"

definition kBlockHeaderMagic :: buffer where "kBlockHeaderMagic = [0x6d, 0x32, 0x47, 0xc9]"

definition kLocalBufferBlockSize :: nat where "kLocalBufferBlockSize = 4 * 1024"

definition kRecordSizeBufferSize :: nat where "kRecordSizeBufferSize = 8 * kLocalBufferBlockSize"

definition kRecordBufferSize :: nat where "kRecordBufferSize = 32 * kLocalBufferBlockSize"

definition kMaxVarintEncodedSize :: nat where "kMaxVarintEncodedSize = MaxEncodedSizeOf 4"

definition kMaxRecordSize :: nat where "kMaxRecordSize = 32 * 1024 * 1024 - 1"

definition ComputeLocalBufferSize :: "nat \<Rightarrow> nat" where
  "ComputeLocalBufferSize bytes_at_least =
     (let local_buffer_capacity =
            (bytes_at_least + (kLocalBufferBlockSize - 1)) div kLocalBufferBlockSize * kLocalBufferBlockSize
      in if local_buffer_capacity < kRecordSizeBufferSize + kRecordBufferSize
         then kRecordSizeBufferSize + kRecordBufferSize
         else local_buffer_capacity)"

section \<open>Words in memory\<close>

text \<open>\<^verbatim>\<open>GetUnaligned\<close> on the little-endian target, and the bytes of a variable written to a stream.\<close>

fun le_word :: "buffer \<Rightarrow> 'a :: len word" where
  "le_word [] = 0"
| "le_word (b # bs) = ucast b OR push_bit 8 (le_word bs)"

definition GetUnaligned32 :: "buffer \<Rightarrow> 32 word result" where
  "GetUnaligned32 p = (if 4 \<le> length p then Inr (le_word (take 4 p)) else Inl Out_of_bounds)"

definition GetUnaligned16 :: "buffer \<Rightarrow> 16 word result" where
  "GetUnaligned16 p = (if 2 \<le> length p then Inr (le_word (take 2 p)) else Inl Out_of_bounds)"

fun le_bytes :: "nat \<Rightarrow> 'a :: len word \<Rightarrow> buffer" where
  "le_bytes 0 w = []"
| "le_bytes (Suc n) w = ucast w # le_bytes n (drop_bit 8 w)"

section \<open>Checksums\<close>

definition crc32_table :: "32 word list" where
  "crc32_table =
    [0x00000000, 0x77073096, 0xee0e612c, 0x990951ba, 0x076dc419, 0x706af48f, 0xe963a535, 0x9e6495a3,
     0x0edb8832, 0x79dcb8a4, 0xe0d5e91e, 0x97d2d988, 0x09b64c2b, 0x7eb17cbd, 0xe7b82d07, 0x90bf1d91,
     0x1db71064, 0x6ab020f2, 0xf3b97148, 0x84be41de, 0x1adad47d, 0x6ddde4eb, 0xf4d4b551, 0x83d385c7,
     0x136c9856, 0x646ba8c0, 0xfd62f97a, 0x8a65c9ec, 0x14015c4f, 0x63066cd9, 0xfa0f3d63, 0x8d080df5,
     0x3b6e20c8, 0x4c69105e, 0xd56041e4, 0xa2677172, 0x3c03e4d1, 0x4b04d447, 0xd20d85fd, 0xa50ab56b,
     0x35b5a8fa, 0x42b2986c, 0xdbbbc9d6, 0xacbcf940, 0x32d86ce3, 0x45df5c75, 0xdcd60dcf, 0xabd13d59,
     0x26d930ac, 0x51de003a, 0xc8d75180, 0xbfd06116, 0x21b4f4b5, 0x56b3c423, 0xcfba9599, 0xb8bda50f,
     0x2802b89e, 0x5f058808, 0xc60cd9b2, 0xb10be924, 0x2f6f7c87, 0x58684c11, 0xc1611dab, 0xb6662d3d,
     0x76dc4190, 0x01db7106, 0x98d220bc, 0xefd5102a, 0x71b18589, 0x06b6b51f, 0x9fbfe4a5, 0xe8b8d433,
     0x7807c9a2, 0x0f00f934, 0x9609a88e, 0xe10e9818, 0x7f6a0dbb, 0x086d3d2d, 0x91646c97, 0xe6635c01,
     0x6b6b51f4, 0x1c6c6162, 0x856530d8, 0xf262004e, 0x6c0695ed, 0x1b01a57b, 0x8208f4c1, 0xf50fc457,
     0x65b0d9c6, 0x12b7e950, 0x8bbeb8ea, 0xfcb9887c, 0x62dd1ddf, 0x15da2d49, 0x8cd37cf3, 0xfbd44c65,
     0x4db26158, 0x3ab551ce, 0xa3bc0074, 0xd4bb30e2, 0x4adfa541, 0x3dd895d7, 0xa4d1c46d, 0xd3d6f4fb,
     0x4369e96a, 0x346ed9fc, 0xad678846, 0xda60b8d0, 0x44042d73, 0x33031de5, 0xaa0a4c5f, 0xdd0d7cc9,
     0x5005713c, 0x270241aa, 0xbe0b1010, 0xc90c2086, 0x5768b525, 0x206f85b3, 0xb966d409, 0xce61e49f,
     0x5edef90e, 0x29d9c998, 0xb0d09822, 0xc7d7a8b4, 0x59b33d17, 0x2eb40d81, 0xb7bd5c3b, 0xc0ba6cad,
     0xedb88320, 0x9abfb3b6, 0x03b6e20c, 0x74b1d29a, 0xead54739, 0x9dd277af, 0x04db2615, 0x73dc1683,
     0xe3630b12, 0x94643b84, 0x0d6d6a3e, 0x7a6a5aa8, 0xe40ecf0b, 0x9309ff9d, 0x0a00ae27, 0x7d079eb1,
     0xf00f9344, 0x8708a3d2, 0x1e01f268, 0x6906c2fe, 0xf762575d, 0x806567cb, 0x196c3671, 0x6e6b06e7,
     0xfed41b76, 0x89d32be0, 0x10da7a5a, 0x67dd4acc, 0xf9b9df6f, 0x8ebeeff9, 0x17b7be43, 0x60b08ed5,
     0xd6d6a3e8, 0xa1d1937e, 0x38d8c2c4, 0x4fdff252, 0xd1bb67f1, 0xa6bc5767, 0x3fb506dd, 0x48b2364b,
     0xd80d2bda, 0xaf0a1b4c, 0x36034af6, 0x41047a60, 0xdf60efc3, 0xa867df55, 0x316e8eef, 0x4669be79,
     0xcb61b38c, 0xbc66831a, 0x256fd2a0, 0x5268e236, 0xcc0c7795, 0xbb0b4703, 0x220216b9, 0x5505262f,
     0xc5ba3bbe, 0xb2bd0b28, 0x2bb45a92, 0x5cb36a04, 0xc2d7ffa7, 0xb5d0cf31, 0x2cd99e8b, 0x5bdeae1d,
     0x9b64c2b0, 0xec63f226, 0x756aa39c, 0x026d930a, 0x9c0906a9, 0xeb0e363f, 0x72076785, 0x05005713,
     0x95bf4a82, 0xe2b87a14, 0x7bb12bae, 0x0cb61b38, 0x92d28e9b, 0xe5d5be0d, 0x7cdcefb7, 0x0bdbdf21,
     0x86d3d2d4, 0xf1d4e242, 0x68ddb3f8, 0x1fda836e, 0x81be16cd, 0xf6b9265b, 0x6fb077e1, 0x18b74777,
     0x88085ae6, 0xff0f6a70, 0x66063bca, 0x11010b5c, 0x8f659eff, 0xf862ae69, 0x616bffd3, 0x166ccf45,
     0xa00ae278, 0xd70dd2ee, 0x4e048354, 0x3903b3c2, 0xa7672661, 0xd06016f7, 0x4969474d, 0x3e6e77db,
     0xaed16a4a, 0xd9d65adc, 0x40df0b66, 0x37d83bf0, 0xa9bcae53, 0xdebb9ec5, 0x47b2cf7f, 0x30b5ffe9,
     0xbdbdf21c, 0xcabac28a, 0x53b39330, 0x24b4a3a6, 0xbad03605, 0xcdd70693, 0x54de5729, 0x23d967bf,
     0xb3667a2e, 0xc4614ab8, 0x5d681b02, 0x2a6f2b94, 0xb40bbe37, 0xc30c8ea1, 0x5a05df1b, 0x2d02ef8d]"

definition UpdateCRC32 :: "buffer \<Rightarrow> 32 word \<Rightarrow> 32 word" where
  "UpdateCRC32 data old_crc =
     foldl (\<lambda>crc b. drop_bit 8 crc XOR crc32_table ! unat ((crc AND 0xFF) XOR ucast b)) old_crc data"

definition CRC32Hash32ToHash16 :: "32 word \<Rightarrow> 16 word" where
  "CRC32Hash32ToHash16 hash32 = ucast (drop_bit 16 hash32) XOR ucast hash32"

definition crc_init :: "32 word" where
  "crc_init = le_word kRecordIOCRC32InitValue"

section \<open>Lengths\<close>

text \<open>
  A length is written as an unsigned 32-bit number; \<open>room\<close> is how many bytes are left at the place it is written to.
  Reading returns the number of bytes and the value as an \<^verbatim>\<open>int32_t\<close>.
\<close>

definition EncodedSizeOf :: "int \<Rightarrow> nat result" where
  "EncodedSizeOf length' = VariantInteger_EncodedSize TYPE(32) False True 4 length'"

definition EncodeLength :: "int \<Rightarrow> nat \<Rightarrow> buffer result" where
  "EncodeLength length' room =
     bindR (VariantInteger_UncheckedEncode TYPE(32) False True 4 length' (replicate room 0)) (\<lambda>(n, buffer).
       Inr (take (nat n) buffer))"

definition DecodeLength :: "buffer \<Rightarrow> nat \<Rightarrow> (int \<times> int) result" where
  "DecodeLength buffer size' =
     bindR (Decode buffer size' :: (int \<times> 32 word) result) (\<lambda>(r, w). Inr (r, sint w))"

section \<open>The checksum is the bitwise one\<close>

definition crc_poly :: "32 word" where "crc_poly = 0xEDB88320"

definition crc_bit :: "32 word \<Rightarrow> 32 word" where
  "crc_bit c = (if bit c 0 then drop_bit 1 c XOR crc_poly else drop_bit 1 c)"

definition crc_byte :: "32 word \<Rightarrow> 32 word" where
  "crc_byte = crc_bit ^^ 8"

lemma crc_bit_xor: "crc_bit (a XOR b) = crc_bit a XOR crc_bit b"
  unfolding crc_bit_def by (intro bit_word_eqI) (auto simp: bit_simps)

lemma crc_bits_xor: "(crc_bit ^^ n) (a XOR b) = (crc_bit ^^ n) a XOR (crc_bit ^^ n) b"
  by (induction n) (simp_all add: crc_bit_xor)

lemma crc_bits_shift: "n \<le> 32 \<Longrightarrow> (\<And>i. i < n \<Longrightarrow> \<not> bit c i) \<Longrightarrow> (crc_bit ^^ n) c = drop_bit n c"
proof (induction n arbitrary: c)
  case (Suc n)
  have "crc_bit c = drop_bit 1 c"
    using Suc.prems(2) [of 0] by (simp add: crc_bit_def)
  moreover have "(crc_bit ^^ n) (drop_bit 1 c) = drop_bit n (drop_bit 1 c)"
    using Suc.prems by (intro Suc.IH) (simp_all add: bit_drop_bit_eq)
  ultimately show ?case
    by (simp only: funpow_Suc_right comp_def drop_bit_drop_bit) simp
qed simp

text \<open>The table is built by doubling: the entry of \<open>2 ^ k + j\<close> is the sum of those of \<open>2 ^ k\<close> and \<open>j\<close>.\<close>

fun crc_entries :: "nat \<Rightarrow> 32 word list" where
  "crc_entries 0 = [0]"
| "crc_entries (Suc n) = crc_entries n @ map (\<lambda>x. x XOR crc_byte (2 ^ n)) (crc_entries n)"

lemma word_of_nat_split: "n < 32 \<Longrightarrow> j < 2 ^ n \<Longrightarrow> (word_of_nat (2 ^ n + j) :: 32 word) = word_of_nat j XOR 2 ^ n"
proof -
  assume n: "n < 32" and j: "j < 2 ^ n"
  have "bit j i \<Longrightarrow> i < n" for i
  proof (rule ccontr)
    assume "bit j i" "\<not> i < n"
    then have "j < 2 ^ i"
      using j by (meson less_le_trans linorder_not_less one_le_numeral power_increasing)
    then show False
      using \<open>bit j i\<close> by (simp add: bit_iff_odd)
  qed
  then have b: "bit (word_of_nat j :: 32 word) i \<Longrightarrow> i < n" for i
    by (simp add: bit_simps)
  then have d: "\<not> bit (word_of_nat j :: 32 word) i \<or> \<not> bit (2 ^ n :: 32 word) i" for i
    by (auto simp: bit_exp_iff)
  have "(word_of_nat (2 ^ n + j) :: 32 word) = word_of_nat j + 2 ^ n"
    by simp
  also have "\<dots> = word_of_nat j OR 2 ^ n"
    by (rule disjunctive_add) (rule d)
  also have "\<dots> = word_of_nat j XOR 2 ^ n"
    using d by (intro bit_word_eqI) (auto simp: bit_or_iff bit_xor_iff)
  finally show ?thesis .
qed

lemma crc_entries_map: "n \<le> 32 \<Longrightarrow> crc_entries n = map (\<lambda>i. crc_byte (word_of_nat i)) [0..<2 ^ n]"
proof (induction n)
  case 0
  show ?case
    by (simp add: crc_byte_def crc_bit_def funpow_def numeral_eq_Suc)
next
  case (Suc n)
  have "[0..<2 ^ Suc n] = [0..<2 ^ n] @ [2 ^ n..<2 ^ n + 2 ^ n]"
    unfolding power_Suc mult_2 by (rule upt_add_eq_append) simp
  also have "[2 ^ n..<2 ^ n + 2 ^ n] = map (\<lambda>j. j + 2 ^ n) [0..<2 ^ n]"
    by (rule map_add_upt [symmetric])
  finally have "map (\<lambda>i. crc_byte (word_of_nat i)) [0..<2 ^ Suc n] =
      map (\<lambda>i. crc_byte (word_of_nat i)) [0..<2 ^ n] @ map (\<lambda>j. crc_byte (word_of_nat (2 ^ n + j))) [0..<2 ^ n]"
    by (simp only: map_append map_map comp_def add.commute)
  moreover have "map (\<lambda>j. crc_byte (word_of_nat (2 ^ n + j))) [0..<2 ^ n] =
      map (\<lambda>j. crc_byte (word_of_nat j) XOR crc_byte (2 ^ n)) [0..<2 ^ n]"
    using Suc.prems by (intro map_cong refl) (simp only: set_upt atLeastLessThan_iff word_of_nat_split Suc_le_eq
        crc_byte_def crc_bits_xor)
  ultimately show ?case
    using Suc.IH Suc.prems by (simp only: crc_entries.simps map_map comp_def Suc_leD)
qed

lemma crc_byte_powers:
  "crc_byte 1 = 0x77073096" "crc_byte 2 = 0xee0e612c" "crc_byte 4 = 0x076dc419" "crc_byte 8 = 0x0edb8832"
  "crc_byte 16 = 0x1db71064" "crc_byte 32 = 0x3b6e20c8" "crc_byte 64 = 0x76dc4190" "crc_byte 128 = 0xedb88320"
  by (code_simp, code_simp, code_simp, code_simp, code_simp, code_simp, code_simp, code_simp)

lemma crc32_table_entries: "crc32_table = map (\<lambda>i. crc_byte (word_of_nat i)) [0..<256]"
proof -
  have "crc32_table = crc_entries 8"
    by (simp add: crc32_table_def eval_nat_numeral crc_byte_powers)
  then show ?thesis
    using crc_entries_map [of 8] by simp
qed

definition crc_step :: "32 word \<Rightarrow> 8 word \<Rightarrow> 32 word" where
  "crc_step c b = crc_byte (c XOR ucast b)"

lemma crc_table_step: "drop_bit 8 c XOR crc32_table ! unat ((c AND 0xFF) XOR ucast b) = crc_step c b"
proof -
  let ?x = "c XOR ucast b"
  define m :: "32 word" where "m = mask 8"
  have m: "(0xFF :: 32 word) = m"
    by (simp add: m_def mask_eq_exp_minus_1)
  have bm: "bit m n \<longleftrightarrow> n < 8" for n
    unfolding m_def by (auto simp: bit_mask_iff)
  have bb: "bit b n \<Longrightarrow> n < 8" for n
    using bit_imp_le_length [of b n] by simp
  have low: "(c AND m) XOR ucast b = ?x AND m"
    using bb by (intro bit_word_eqI) (auto simp: bit_and_iff bit_xor_iff bm bit_ucast_iff)
  have "unat (?x AND m) < 256"
    unfolding m_def take_bit_eq_mask [symmetric] unsigned_take_bit_eq
    using take_bit_nat_less_exp [of 8 "unat ?x"] by simp
  then have "crc32_table ! unat (?x AND m) = crc_byte (?x AND m)"
    unfolding crc32_table_entries by (subst nth_map_upt) simp_all
  moreover have "drop_bit 8 c = crc_byte (?x AND NOT m)"
  proof -
    have "crc_byte (?x AND NOT m) = drop_bit 8 (?x AND NOT m)"
      unfolding crc_byte_def by (rule crc_bits_shift) (auto simp: bit_and_iff bit_not_iff bm)
    also have "\<dots> = drop_bit 8 c"
      by (intro bit_word_eqI) (auto simp: bit_drop_bit_eq bit_and_iff bit_not_iff bit_xor_iff bm bit_ucast_iff
          dest: bb bit_imp_le_length [of c])
    finally show ?thesis ..
  qed
  moreover have "(?x AND NOT m) XOR (?x AND m) = ?x"
    by (intro bit_word_eqI) (auto simp: bit_and_iff bit_not_iff bit_xor_iff)
  ultimately show ?thesis
    unfolding m using low crc_bits_xor [of 8 "?x AND NOT m" "?x AND m"] by (simp only: crc_step_def crc_byte_def)
qed

text \<open>
  C9: the table-driven checksum is the bitwise one with the reversed polynomial \<open>0xEDB88320\<close>.
\<close>

theorem UpdateCRC32_bitwise: "UpdateCRC32 data old_crc = foldl (\<lambda>c b. (crc_bit ^^ 8) (c XOR ucast b)) old_crc data"
  unfolding UpdateCRC32_def crc_table_step by (simp add: crc_step_def [abs_def] crc_byte_def)

section \<open>What the checksum detects\<close>

lemma xor_right_inject: "a XOR c = b XOR c \<longleftrightarrow> a = b" for a b c :: "'a :: len word"
  by (metis xor.assoc xor.right_neutral xor_self_eq)

lemma xor_left_inject: "c XOR a = c XOR b \<longleftrightarrow> a = b" for a b c :: "'a :: len word"
  by (metis xor.commute xor_right_inject)

lemma crc_bit_inject: "crc_bit a = crc_bit b \<Longrightarrow> a = b"
proof -
  assume e: "crc_bit a = crc_bit b"
  have top: "bit (crc_bit c) 31 \<longleftrightarrow> bit c 0" for c
    using bit_imp_le_length [of c 32] by (auto simp: crc_bit_def crc_poly_def bit_simps)
  then have low: "bit a 0 \<longleftrightarrow> bit b 0"
    using e by metis
  then have "drop_bit 1 a = drop_bit 1 b"
    using e unfolding crc_bit_def by (auto simp: xor_right_inject split: if_splits)
  then have "bit a (Suc n) \<longleftrightarrow> bit b (Suc n)" for n
    by (metis bit_drop_bit_eq comp_apply plus_1_eq_Suc)
  then show "a = b"
    using low by (intro bit_word_eqI) (metis not0_implies_Suc)
qed

lemma crc_bits_inject: "(crc_bit ^^ n) a = (crc_bit ^^ n) b \<Longrightarrow> a = b"
  by (induction n) (auto dest: crc_bit_inject)

lemma UpdateCRC32_step: "UpdateCRC32 data c = foldl crc_step c data"
  unfolding UpdateCRC32_def crc_table_step ..

lemma UpdateCRC32_append: "UpdateCRC32 (a @ b) c = UpdateCRC32 b (UpdateCRC32 a c)"
  by (simp add: UpdateCRC32_def)

lemma UpdateCRC32_Nil [simp]: "UpdateCRC32 [] c = c"
  by (simp add: UpdateCRC32_def)

lemma UpdateCRC32_inject: "UpdateCRC32 data c = UpdateCRC32 data d \<Longrightarrow> c = d"
proof (induction data arbitrary: c d)
  case (Cons b bs)
  then have "crc_step c b = crc_step d b"
    by (simp add: UpdateCRC32_step)
  then show ?case
    by (auto simp: crc_step_def crc_byte_def xor_right_inject dest: crc_bits_inject)
qed simp

lemma le_word_small:
  assumes "length bs \<le> 4"
  shows "bit (le_word bs :: 32 word) n \<longleftrightarrow> n < 8 * length bs \<and> bit (bs ! (n div 8)) (n mod 8)"
  using assms
proof (induction bs arbitrary: n)
  case (Cons b bs)
  show ?case
  proof (cases "n < 8")
    case True
    then show ?thesis
      by (simp add: bit_or_iff bit_ucast_iff bit_push_bit_iff)
  next
    case False
    then have "n div 8 = Suc ((n - 8) div 8)" "(n - 8) mod 8 = n mod 8"
      by (simp_all add: le_div_geq le_mod_geq)
    moreover have "\<not> bit b n"
      using False bit_imp_le_length [of b n] by auto
    moreover have "bit (le_word bs :: 32 word) (n - 8) \<longleftrightarrow> n - 8 < 8 * length bs \<and> bit (bs ! ((n - 8) div 8)) ((n - 8) mod 8)"
      using Cons.prems by (intro Cons.IH) simp
    moreover have "n - 8 < 8 * length bs \<longleftrightarrow> n < 8 * length (b # bs)" "n < 8 * length (b # bs) \<Longrightarrow> n < 32"
      using False Cons.prems by (simp_all, linarith)
    ultimately show ?thesis
      using False by (simp add: bit_or_iff bit_ucast_iff bit_push_bit_iff) blast
  qed
qed simp

lemma le_word_inject:
  assumes "length as = length bs" "length bs \<le> 4" "(le_word as :: 32 word) = le_word bs"
  shows "as = bs"
proof (rule nth_equalityI)
  fix i
  assume i: "i < length as"
  show "as ! i = bs ! i"
  proof (rule bit_word_eqI)
    fix n
    assume n: "n < LENGTH(8)"
    then have "(8 * i + n) div 8 = i" "(8 * i + n) mod 8 = n" "8 * i + n < 8 * length as"
      using i by simp_all
    then show "bit (as ! i) n = bit (bs ! i) n"
      using le_word_small [of as "8 * i + n"] le_word_small [of bs "8 * i + n"] assms by simp
  qed
qed (use assms in simp)

lemma UpdateCRC32_le_word:
  "length bs \<le> 4 \<Longrightarrow> UpdateCRC32 bs c = (crc_bit ^^ (8 * length bs)) (c XOR le_word bs)"
proof (induction bs arbitrary: c)
  case (Cons b bs)
  have "crc_byte (push_bit 8 (le_word bs)) = drop_bit 8 (push_bit 8 (le_word bs))"
    unfolding crc_byte_def by (rule crc_bits_shift) (auto simp: bit_push_bit_iff)
  also have "\<dots> = le_word bs"
    using Cons.prems by (intro bit_word_eqI) (auto simp: bit_drop_bit_eq bit_push_bit_iff le_word_small)
  finally have shift: "crc_byte (push_bit 8 (le_word bs)) = le_word bs" .
  have split: "(le_word (b # bs) :: 32 word) = ucast b XOR push_bit 8 (le_word bs)"
    by (intro bit_word_eqI) (auto simp: bit_or_iff bit_xor_iff bit_ucast_iff bit_push_bit_iff dest: bit_imp_le_length)
  have "UpdateCRC32 (b # bs) c = (crc_bit ^^ (8 * length bs)) (crc_byte (c XOR ucast b) XOR le_word bs)"
    using Cons by (simp add: UpdateCRC32_step crc_step_def)
  also have "crc_byte (c XOR ucast b) XOR le_word bs = crc_byte (c XOR le_word (b # bs))"
    using shift crc_bits_xor [of 8 "c XOR ucast b" "push_bit 8 (le_word bs)"]
    by (simp only: split crc_byte_def xor.assoc)
  also have "(crc_bit ^^ (8 * length bs)) (crc_byte x) = (crc_bit ^^ (8 * length (b # bs))) x" for x
  proof -
    have "8 * length (b # bs) = 8 * length bs + 8"
      by simp
    then show ?thesis
      by (simp only: funpow_add comp_apply crc_byte_def)
  qed
  finally show ?case .
qed simp

text \<open>
  C8: the checksum changes whenever the data is changed inside at most four consecutive bytes, wherever they are
  and whatever the rest of the data is.
\<close>

theorem UpdateCRC32_detects_burst:
  assumes "length as = length bs" "length bs \<le> 4" "as \<noteq> bs"
  shows "UpdateCRC32 (front @ as @ rear) c \<noteq> UpdateCRC32 (front @ bs @ rear) c"
proof
  let ?c = "UpdateCRC32 front c"
  assume "UpdateCRC32 (front @ as @ rear) c = UpdateCRC32 (front @ bs @ rear) c"
  then have "UpdateCRC32 as ?c = UpdateCRC32 bs ?c"
    by (auto simp: UpdateCRC32_append dest: UpdateCRC32_inject)
  then have "?c XOR le_word as = ?c XOR le_word bs"
    using assms by (auto simp: UpdateCRC32_le_word dest: crc_bits_inject)
  then have "(le_word as :: 32 word) = le_word bs"
    by (simp add: xor_left_inject)
  then show False
    using le_word_inject assms by blast
qed

theorem UpdateCRC32_detects_burst_witness:
  "UpdateCRC32 ([1, 2] @ [3, 4] @ [5]) crc_init \<noteq> UpdateCRC32 ([1, 2] @ [3, 5] @ [5]) crc_init"
  by (rule UpdateCRC32_detects_burst) simp_all

section \<open>Reading back words and lengths\<close>

lemma length_le_bytes [simp]: "length (le_bytes n w) = n"
  by (induction n arbitrary: w) simp_all

lemma le_word_le_bytes: "(le_word (le_bytes n w) :: 'a :: len word) = take_bit (8 * n) w"
proof (induction n arbitrary: w)
  case (Suc n)
  have "bit (ucast (ucast w :: 8 word) OR push_bit 8 (take_bit (8 * n) (drop_bit 8 w)) :: 'a word) i \<longleftrightarrow>
      bit (take_bit (8 * Suc n) w) i" for i
    by (cases "i < 8") (auto simp: bit_simps dest: bit_imp_le_length [of w])
  then show ?case
    using Suc by (intro bit_word_eqI) simp
qed simp

lemma GetUnaligned32_le_bytes: "GetUnaligned32 (le_bytes 4 w @ rest) = Inr w"
  by (simp add: GetUnaligned32_def le_word_le_bytes take_bit_word_eq_self)

lemma GetUnaligned16_le_bytes: "GetUnaligned16 (le_bytes 2 w @ rest) = Inr w"
  by (simp add: GetUnaligned16_def le_word_le_bytes take_bit_word_eq_self)

definition varint :: "nat \<Rightarrow> buffer" where
  "varint n = encode_loop (word_of_nat n :: 32 word)"

lemma varint_length: "1 \<le> length (varint n)" "length (varint n) \<le> 5"
  using length_encode_loop_bound [of "word_of_nat n :: 32 word"] by (simp_all add: varint_def)

lemma varint_not_Nil: "varint n \<noteq> []"
  using varint_length(1) [of n] by auto

lemma varint_length_bound:
  assumes "n < 2 ^ (7 * k)" "0 < k" "n < 2 ^ 32"
  shows "length (varint n) \<le> k"
proof -
  have "bsr n < 7 * k"
    using assms bsr_less [of n "7 * k"] by (cases "n = 0") (simp_all add: bsr.simps [of 0])
  moreover have "unat (word_of_nat n :: 32 word) = n"
    using assms(3) by (simp add: unat_of_nat)
  ultimately show ?thesis
    using div_less_iff_less_mult [of 7 "bsr n" k] by (simp add: varint_def length_encode_loop mult.commute Suc_le_eq)
qed

lemma length_cast: "n < 2 ^ 31 \<Longrightarrow> int_cast True 4 False 4 (int n) = Inr (int n)"
  using int_cast_exact [of 4 4 True "int n" False] by (simp add: in_range_def of_nat_less_iff flip: of_nat_less_iff)

lemma EncodedSizeOf_eq: "n < 2 ^ 31 \<Longrightarrow> EncodedSizeOf (int n) = Inr (length (varint n))"
  by (simp add: EncodedSizeOf_def VariantInteger_EncodedSize_def length_cast EncodedSize_eq varint_def length_encode_loop)

lemma EncodeLength_eq:
  assumes "n < 2 ^ 31" "length (varint n) \<le> room"
  shows "EncodeLength (int n) room = Inr (varint n)"
  using assms UncheckedEncode_eq [of "word_of_nat n :: 32 word" "replicate room 0"]
  by (simp add: EncodeLength_def VariantInteger_UncheckedEncode_def length_cast varint_def UncheckedEncode_portable_def
      store_def Let_def)

lemma DecodeLength_eq:
  assumes "n < 2 ^ 31" "length (varint n) \<le> size'"
  shows "DecodeLength (varint n @ rest) size' = Inr (int (length (varint n)), int n)"
proof -
  have "sint (word_of_nat n :: 32 word) = int n"
    using assms(1) by (simp add: signed_of_nat signed_take_bit_int_eq_self)
  then show ?thesis
    using assms(2) Decode_encoded(1) [of "varint n @ rest" "word_of_nat n :: 32 word" rest size', where 'b = 32]
    by (simp add: DecodeLength_def varint_def)
qed

end
