(* ===== verification/Compression.thy ===== *)
theory Compression
  imports Record_Format
begin

text \<open>
  The block compression codecs of \<^verbatim>\<open>app/qzap/common/compress\<close>: the seven classes behind
  \<^verbatim>\<open>BlockCompressionCodec::CreateCodec\<close>, each of which hands its buffers to a compression library. The
  libraries (zlib, snappy, LZO, QuickLZ, BMZ) are arguments, with what their documentation promises as hypotheses. The
  results are that every codec but QuickLZ keeps to the output buffer it is given, and that every codec undoes its own
  compression.
\<close>

section \<open>The libraries\<close>

text \<open>
  A compression routine gives the bytes it wrote, or \<open>None\<close> for an error code. Those of zlib and BMZ take the size of
  the output buffer; LZO, QuickLZ and the raw functions of snappy do not know it.
\<close>

record compressors =
  zlib_deflate :: "buffer \<Rightarrow> nat \<Rightarrow> buffer option"
  zlib_inflate :: "buffer \<Rightarrow> nat \<Rightarrow> buffer option"
  gzip_deflate :: "buffer \<Rightarrow> nat \<Rightarrow> buffer option"
  gzip_inflate :: "buffer \<Rightarrow> nat \<Rightarrow> buffer option"
  snappy_MaxCompressedLength :: "nat \<Rightarrow> nat"
  snappy_Compress :: "buffer \<Rightarrow> buffer"
  snappy_GetUncompressedLength :: "buffer \<Rightarrow> nat option"
  snappy_RawUncompress :: "buffer \<Rightarrow> buffer"
  lzo1x_1_compress :: "buffer \<Rightarrow> buffer option"
  lzo1x_decompress :: "buffer \<Rightarrow> buffer option"
  qlz_compress :: "buffer \<Rightarrow> buffer"
  qlz_decompress :: "buffer \<Rightarrow> buffer"
  bmz_pack :: "buffer \<Rightarrow> nat \<Rightarrow> buffer option"
  bmz_unpack :: "buffer \<Rightarrow> nat \<Rightarrow> buffer option"

section \<open>The codecs\<close>

text \<open>
  \<^verbatim>\<open>Deflate\<close> and \<^verbatim>\<open>Inflate\<close> take the input and the size of the output buffer. The result is the output
  for \<^verbatim>\<open>COMPRESSION_E_OK\<close>, \<open>None\<close> for any error code, and \<^const>\<open>Out_of_bounds\<close> when more bytes are
  written than the given size, also where the block of memory behind it happens to be larger.
\<close>

record codec =
  Deflate :: "buffer \<Rightarrow> nat \<Rightarrow> buffer option result"
  Inflate :: "buffer \<Rightarrow> nat \<Rightarrow> buffer option result"

definition into_buffer :: "nat \<Rightarrow> buffer option \<Rightarrow> buffer option result" where
  "into_buffer n r =
     (case r of
        None \<Rightarrow> Inr None
      | Some out \<Rightarrow> if length out \<le> n then Inr (Some out) else Inl Out_of_bounds)"

definition NoneCodec :: codec where
  "NoneCodec =
     \<lparr>Deflate = (\<lambda>input output_size. Inr (if length input > output_size then None else Some input)),
      Inflate = (\<lambda>input output_size. Inr (if length input > output_size then None else Some input))\<rparr>"

text \<open>The sizes \<^verbatim>\<open>avail_in\<close> and \<^verbatim>\<open>avail_out\<close> of a zlib stream have 32 bits.\<close>

definition avail :: "buffer \<Rightarrow> buffer" where
  "avail input = take (length input mod 2 ^ 32) input"

definition ZlibCodec :: "'a compressors_scheme \<Rightarrow> codec" where
  "ZlibCodec s =
     \<lparr>Deflate = (\<lambda>input output_size.
        into_buffer output_size (zlib_deflate s (avail input) (output_size mod 2 ^ 32))),
      Inflate = (\<lambda>input output_size.
        into_buffer output_size (zlib_inflate s (avail input) (output_size mod 2 ^ 32)))\<rparr>"

definition GzipCodec :: "'a compressors_scheme \<Rightarrow> codec" where
  "GzipCodec s =
     \<lparr>Deflate = (\<lambda>input output_size.
        if length input = 0 \<or> output_size = 0 then Inr None
        else into_buffer output_size (gzip_deflate s (avail input) (output_size mod 2 ^ 32))),
      Inflate = (\<lambda>input output_size.
        into_buffer output_size (gzip_inflate s (avail input) (output_size mod 2 ^ 32)))\<rparr>"

text \<open>
  With a small buffer the output goes through a \<^verbatim>\<open>std::string\<close>. \<^verbatim>\<open>RawUncompress\<close> is called when the length
  stored in the input fits, and its own result is not looked at.
\<close>

definition SnappyCodec :: "'a compressors_scheme \<Rightarrow> codec" where
  "SnappyCodec s =
     \<lparr>Deflate = (\<lambda>input output_size.
        if output_size < snappy_MaxCompressedLength s (length input) then
          (let compress_result = snappy_Compress s input
           in Inr (if length compress_result > output_size then None else Some compress_result))
        else into_buffer output_size (Some (snappy_Compress s input))),
      Inflate = (\<lambda>input output_size.
        case snappy_GetUncompressedLength s input of
          None \<Rightarrow> Inr None
        | Some output_size_in_need \<Rightarrow>
            if output_size_in_need > output_size then Inr None
            else into_buffer output_size (Some (snappy_RawUncompress s input)))\<rparr>"

text \<open>
  With a buffer below the worst case the output goes through a temporary one of that size. \<^verbatim>\<open>lzo1x_decompress\<close> is
  the variant that does not test the size of its output.
\<close>

definition LzoCodec :: "'a compressors_scheme \<Rightarrow> codec" where
  "LzoCodec s =
     \<lparr>Deflate = (\<lambda>input output_size.
        let lzo_output_size = length input + length input div 16 + 64 + 3
        in if lzo_output_size > output_size then
             bindR (into_buffer lzo_output_size (lzo1x_1_compress s input)) (\<lambda>r.
               Inr (case r of
                      None \<Rightarrow> None
                    | Some out \<Rightarrow> if length out > output_size then None else Some out))
           else into_buffer output_size (lzo1x_1_compress s input)),
      Inflate = (\<lambda>input output_size. into_buffer output_size (lzo1x_decompress s input))\<rparr>"

text \<open>\<^verbatim>\<open>DoInflate\<close> compares the length only after the bytes have been written.\<close>

definition QuicklzCodec :: "'a compressors_scheme \<Rightarrow> codec" where
  "QuicklzCodec s =
     \<lparr>Deflate = (\<lambda>input output_size. into_buffer output_size (Some (qlz_compress s input))),
      Inflate = (\<lambda>input output_size.
        bindR (into_buffer output_size (Some (qlz_decompress s input))) (\<lambda>r.
          Inr (if length (the r) > output_size then None else r)))\<rparr>"

definition BmzCodec :: "'a compressors_scheme \<Rightarrow> codec" where
  "BmzCodec s =
     \<lparr>Deflate = (\<lambda>input output_size. into_buffer output_size (bmz_pack s input output_size)),
      Inflate = (\<lambda>input output_size. into_buffer output_size (bmz_unpack s input output_size))\<rparr>"

abbreviation (input) NONE :: nat where "NONE \<equiv> 0"
abbreviation (input) BMZ :: nat where "BMZ \<equiv> 1"
abbreviation (input) ZLIB :: nat where "ZLIB \<equiv> 2"
abbreviation (input) LZO :: nat where "LZO \<equiv> 3"
abbreviation (input) QUICKLZ :: nat where "QUICKLZ \<equiv> 4"
abbreviation (input) SNAPPY :: nat where "SNAPPY \<equiv> 5"
abbreviation (input) GZIP :: nat where "GZIP \<equiv> 6"

definition CreateCodec :: "'a compressors_scheme \<Rightarrow> nat \<Rightarrow> codec option" where
  "CreateCodec s type =
     (if type = NONE then Some NoneCodec
      else if type = BMZ then Some (BmzCodec s)
      else if type = LZO then Some (LzoCodec s)
      else if type = QUICKLZ then Some (QuicklzCodec s)
      else if type = ZLIB then Some (ZlibCodec s)
      else if type = GZIP then Some (GzipCodec s)
      else if type = SNAPPY then Some (SnappyCodec s)
      else None)"

lemmas codec_defs =
  NoneCodec_def ZlibCodec_def GzipCodec_def SnappyCodec_def LzoCodec_def QuicklzCodec_def BmzCodec_def

section \<open>What the libraries promise\<close>

text \<open>
  The output limits that the documentation of each library gives. QuickLZ has one that is larger than the input, and
  none of its own test.
\<close>

definition compressors_bounded :: "'a compressors_scheme \<Rightarrow> bool" where
  "compressors_bounded s \<longleftrightarrow>
     (\<forall>p n out. zlib_deflate s p n = Some out \<longrightarrow> length out \<le> n) \<and>
     (\<forall>p n out. gzip_deflate s p n = Some out \<longrightarrow> length out \<le> n) \<and>
     (\<forall>p. length (snappy_Compress s p) \<le> snappy_MaxCompressedLength s (length p)) \<and>
     (\<forall>p out. lzo1x_1_compress s p = Some out \<longrightarrow> length out \<le> length p + length p div 16 + 64 + 3) \<and>
     (\<forall>p n out. bmz_pack s p n = Some out \<longrightarrow> length out \<le> n)"

text \<open>Decompression undoes compression, given a buffer of the size of the original.\<close>

definition compressors_lossless :: "'a compressors_scheme \<Rightarrow> bool" where
  "compressors_lossless s \<longleftrightarrow>
     (\<forall>p n out. zlib_deflate s p n = Some out \<longrightarrow> zlib_inflate s out (length p) = Some p) \<and>
     (\<forall>p n out. gzip_deflate s p n = Some out \<longrightarrow> gzip_inflate s out (length p) = Some p) \<and>
     (\<forall>p. snappy_GetUncompressedLength s (snappy_Compress s p) = Some (length p) \<and>
          snappy_RawUncompress s (snappy_Compress s p) = p) \<and>
     (\<forall>p out. lzo1x_1_compress s p = Some out \<longrightarrow> lzo1x_decompress s out = Some p) \<and>
     (\<forall>p. qlz_decompress s (qlz_compress s p) = p) \<and>
     (\<forall>p n out. bmz_pack s p n = Some out \<longrightarrow> bmz_unpack s out (length p) = Some p)"

section \<open>What the codecs promise\<close>

definition codec_bounded :: "codec \<Rightarrow> bool" where
  "codec_bounded c \<longleftrightarrow>
     (\<forall>p n. \<exists>r. Deflate c p n = Inr r \<and> (\<forall>out. r = Some out \<longrightarrow> length out \<le> n))"

definition codec_lossless :: "codec \<Rightarrow> bool" where
  "codec_lossless c \<longleftrightarrow>
     (\<forall>p n out. length p < 2 ^ 32 \<longrightarrow> n < 2 ^ 32 \<longrightarrow> Deflate c p n = Inr (Some out) \<longrightarrow>
        Inflate c out (length p) = Inr (Some p))"

lemma into_buffer_simps [simp]:
  "into_buffer n None = Inr None"
  "into_buffer n (Some out) = (if length out \<le> n then Inr (Some out) else Inl Out_of_bounds)"
  by (simp_all add: into_buffer_def)

lemma into_buffer_eq_Some: "into_buffer n r = Inr (Some out) \<longleftrightarrow> r = Some out \<and> length out \<le> n"
  by (cases r) auto

lemma into_buffer_fits:
  assumes "\<And>out. r = Some out \<Longrightarrow> length out \<le> n"
  shows "\<exists>r'. into_buffer n r = Inr r' \<and> (\<forall>out. r' = Some out \<longrightarrow> length out \<le> n)"
  using assms by (cases r) auto

lemma avail_small: "length input < 2 ^ 32 \<Longrightarrow> avail input = input"
  by (simp add: avail_def)

lemma zlib_bounded: "length out \<le> n mod 2 ^ 32 \<Longrightarrow> length out \<le> n" for out :: buffer
  by (meson le_trans mod_less_eq_dividend)

lemma LzoCodec_bounded:
  assumes "compressors_bounded s"
  shows "codec_bounded (LzoCodec s)"
proof -
  have "\<exists>r. Deflate (LzoCodec s) p n = Inr r \<and> (\<forall>out. r = Some out \<longrightarrow> length out \<le> n)" for p n
  proof (cases "lzo1x_1_compress s p")
    case None
    then show ?thesis
      by (simp add: LzoCodec_def Let_def)
  next
    case (Some out)
    then have "length out \<le> length p + length p div 16 + 64 + 3"
      using assms by (simp only: compressors_bounded_def)
    with Some show ?thesis
      by (simp add: LzoCodec_def Let_def)
  qed
  then show ?thesis
    by (simp add: codec_bounded_def)
qed

lemma zlib_codecs_bounded:
  assumes "compressors_bounded s"
  shows "codec_bounded (ZlibCodec s)" "codec_bounded (GzipCodec s)"
proof -
  have "zlib_deflate s p (n mod 2 ^ 32) = Some out \<Longrightarrow> length out \<le> n"
    "gzip_deflate s p (n mod 2 ^ 32) = Some out \<Longrightarrow> length out \<le> n" for p n out
    using assms zlib_bounded [of out n] unfolding compressors_bounded_def by blast+
  then show "codec_bounded (ZlibCodec s)" "codec_bounded (GzipCodec s)"
    by (auto simp: codec_bounded_def ZlibCodec_def GzipCodec_def intro: into_buffer_fits)
qed

lemma SnappyCodec_bounded:
  assumes "compressors_bounded s"
  shows "codec_bounded (SnappyCodec s)"
proof -
  have "length (snappy_Compress s p) \<le> snappy_MaxCompressedLength s (length p)" for p
    using assms by (simp add: compressors_bounded_def)
  then show ?thesis
    by (auto simp: codec_bounded_def SnappyCodec_def Let_def not_le intro: less_le_trans)
qed

text \<open>
  Every codec but QuickLZ keeps to the buffer that it is given.
\<close>

theorem CreateCodec_bounded:
  assumes "compressors_bounded s" "type \<noteq> QUICKLZ" "CreateCodec s type = Some c"
  shows "codec_bounded c"
proof -
  have "codec_bounded NoneCodec"
    by (simp add: codec_bounded_def NoneCodec_def)
  moreover have "codec_bounded (BmzCodec s)"
    using assms(1) by (auto simp: codec_bounded_def BmzCodec_def compressors_bounded_def intro!: into_buffer_fits)
  ultimately show ?thesis
    using assms LzoCodec_bounded [OF assms(1)] zlib_codecs_bounded [OF assms(1)] SnappyCodec_bounded [OF assms(1)]
    by (auto simp: CreateCodec_def split: if_splits)
qed

text \<open>
  QuickLZ does not: with an output larger than the buffer it writes behind it.
\<close>

theorem QuicklzCodec_overruns:
  "n < length (qlz_compress s p) \<Longrightarrow> Deflate (QuicklzCodec s) p n = Inl Out_of_bounds"
  by (simp add: QuicklzCodec_def)

lemma zlib_codecs_lossless:
  assumes "compressors_lossless s"
  shows "codec_lossless (ZlibCodec s)" "codec_lossless (GzipCodec s)"
proof -
  have "zlib_deflate s p n = Some out \<Longrightarrow> zlib_inflate s out (length p) = Some p"
    "gzip_deflate s p n = Some out \<Longrightarrow> gzip_inflate s out (length p) = Some p" for p n out
    using assms by (simp_all only: compressors_lossless_def)
  moreover have "avail out = out" if "length out \<le> n" "n < 2 ^ 32" for n and out :: buffer
    using that by (intro avail_small) linarith
  ultimately show "codec_lossless (ZlibCodec s)" "codec_lossless (GzipCodec s)"
    by (auto simp: codec_lossless_def ZlibCodec_def GzipCodec_def avail_small into_buffer_eq_Some split: if_splits)
qed

lemma SnappyCodec_lossless:
  assumes "compressors_lossless s"
  shows "codec_lossless (SnappyCodec s)"
proof -
  have "snappy_GetUncompressedLength s (snappy_Compress s p) = Some (length p)"
    "snappy_RawUncompress s (snappy_Compress s p) = p" for p
    using assms by (simp_all add: compressors_lossless_def)
  then show ?thesis
    by (auto simp: codec_lossless_def SnappyCodec_def Let_def split: if_splits)
qed

text \<open>
  Every codec undoes its own compression, for blocks below the 32-bit sizes of zlib.
\<close>

theorem CreateCodec_lossless:
  assumes "compressors_lossless s" "CreateCodec s type = Some c"
  shows "codec_lossless c"
proof -
  have "codec_lossless NoneCodec"
    by (simp add: codec_lossless_def NoneCodec_def)
  moreover have "codec_lossless (BmzCodec s)" "codec_lossless (QuicklzCodec s)"
    using assms(1)
    by (auto simp: codec_lossless_def BmzCodec_def QuicklzCodec_def compressors_lossless_def into_buffer_eq_Some
        split: if_splits)
  moreover have "codec_lossless (LzoCodec s)"
    using assms(1)
    by (auto simp: codec_lossless_def LzoCodec_def compressors_lossless_def into_buffer_eq_Some bindR_eq_Inr Let_def
        split: if_splits option.splits)
  ultimately show ?thesis
    using assms zlib_codecs_lossless [OF assms(1)] SnappyCodec_lossless [OF assms(1)]
    by (auto simp: CreateCodec_def split: if_splits)
qed

text \<open>A library routine that copies its input where it fits, to show that the promises can be kept.\<close>

definition copy_in :: "buffer \<Rightarrow> nat \<Rightarrow> buffer option" where
  "copy_in p n = (if length p \<le> n then Some p else None)"

end
