(* ===== verification/Record_Writer.thy ===== *)
theory Record_Writer
  imports Compression
begin

unbundle bit_operations_syntax

text \<open>
  \<^verbatim>\<open>RecordWriter\<close> of \<^verbatim>\<open>app/qzap/common/recordio/recordio.cc\<close>: records are collected in two buffers and
  written out as checksummed blocks of three kinds, optionally compressed. The compression libraries and the generated
  protocol buffer of the extent header are arguments. The results are that no sequence of calls leaves a buffer or fails a
  check, whatever the output stream does, and that a working stream receives a sequence of well-formed blocks whose
  records, followed by the buffered ones, are exactly the records written.
\<close>

section \<open>What the writer is given\<close>

text \<open>
  The compression libraries, the functions of the generated extent header, which holds the number of the codec and
  the uncompressed size, or nothing, and whether the build has the checks that \<^verbatim>\<open>NDEBUG\<close> removes.
\<close>

type_synonym extent_header = "(nat \<times> nat) option"

record services = compressors +
  SerializeToString :: "extent_header \<Rightarrow> buffer"
  ParseFromArray :: "buffer \<Rightarrow> extent_header option"
  debug_checks :: bool

section \<open>State\<close>

text \<open>
  The buffers hold the bytes in front of their write pointers. \<open>w_output\<close> is what the stream has taken, and
  \<open>w_faults\<close> what the next calls of the stream will do: \<open>None\<close> succeeds, \<open>Some k\<close> takes \<open>k\<close> bytes and fails; an empty
  list never fails.
\<close>

record writer =
  w_services :: services
  w_codec_type :: nat
  w_compression_codec :: "codec option"
  w_record_size :: int
  w_records :: nat
  w_record_size_buffer :: buffer
  w_record_buffer :: buffer
  w_checksum_state :: "32 word"
  w_uncompressed_buffer :: buffer
  w_uncompressed_buffer_capacity :: nat
  w_compressed_buffer_capacity :: nat
  w_output :: buffer
  w_faults :: "nat option list"

definition RecordWriter_Initialize :: "services \<Rightarrow> nat \<Rightarrow> nat option list \<Rightarrow> writer" where
  "RecordWriter_Initialize services codec_type faults =
     \<lparr>w_services = services, w_codec_type = codec_type,
      w_compression_codec = (if codec_type > 0 then CreateCodec services codec_type else None),
      w_record_size = RECORD_SIZE_INIT, w_records = 0, w_record_size_buffer = [], w_record_buffer = [],
      w_checksum_state = crc_init, w_uncompressed_buffer = [], w_uncompressed_buffer_capacity = 0,
      w_compressed_buffer_capacity = 0, w_output = [], w_faults = faults\<rparr>"

section \<open>The stream\<close>

definition WriteToStream :: "buffer \<Rightarrow> writer \<Rightarrow> bool \<times> writer" where
  "WriteToStream data w =
     (if data = [] then (True, w)
      else case w_faults w of
          [] \<Rightarrow> (True, w\<lparr>w_output := w_output w @ data\<rparr>)
        | None # fs \<Rightarrow> (True, w\<lparr>w_output := w_output w @ data, w_faults := fs\<rparr>)
        | Some k # fs \<Rightarrow> (False, w\<lparr>w_output := w_output w @ take k data, w_faults := fs\<rparr>))"

definition FlushStream :: "writer \<Rightarrow> bool \<times> writer" where
  "FlushStream w =
     (case w_faults w of
        [] \<Rightarrow> (True, w)
      | None # fs \<Rightarrow> (True, w\<lparr>w_faults := fs\<rparr>)
      | Some _ # fs \<Rightarrow> (False, w\<lparr>w_faults := fs\<rparr>))"

definition WriteAndUpdateChecksum :: "buffer \<Rightarrow> writer \<Rightarrow> bool \<times> writer" where
  "WriteAndUpdateChecksum data w =
     (if data = [] then (True, w)
      else WriteToStream data (w\<lparr>w_checksum_state := UpdateCRC32 data (w_checksum_state w)\<rparr>))"

definition WriteVarintAndUpdateChecksum :: "int \<Rightarrow> writer \<Rightarrow> (bool \<times> writer) result" where
  "WriteVarintAndUpdateChecksum i w =
     bindR (EncodeLength i kMaxVarintEncodedSize) (\<lambda>varint_buffer.
       if length varint_buffer > 0 then Inr (WriteAndUpdateChecksum varint_buffer w) else Inl Assertion_failed)"

definition RecordWriter_WriteToBuffer :: "buffer \<Rightarrow> writer \<Rightarrow> writer result" where
  "RecordWriter_WriteToBuffer data w =
     (if length (w_uncompressed_buffer w) + length data \<le> w_uncompressed_buffer_capacity w
      then Inr (w\<lparr>w_uncompressed_buffer := w_uncompressed_buffer w @ data\<rparr>)
      else Inl Out_of_bounds)"

definition WriteVarintToBuffer :: "int \<Rightarrow> writer \<Rightarrow> writer result" where
  "WriteVarintToBuffer i w =
     bindR (EncodeLength i kMaxVarintEncodedSize) (\<lambda>varint_buffer.
       if length varint_buffer > 0 then RecordWriter_WriteToBuffer varint_buffer w else Inl Assertion_failed)"

text \<open>A step that is skipped, with its failure, when the one before it failed.\<close>

definition and_then_write :: "(bool \<times> writer) result \<Rightarrow> (writer \<Rightarrow> (bool \<times> writer) result) \<Rightarrow> (bool \<times> writer) result" where
  "and_then_write r f = bindR r (\<lambda>(ok, w). if ok then f w else Inr (False, w))"

section \<open>Blocks\<close>

text \<open>The first part of both flushing functions: the block type and the size of the block body.\<close>

definition block_type_of :: "writer \<Rightarrow> 8 word" where
  "block_type_of w =
     (if w_records w = 1 then BLOCK_TYPE_SINGLE
      else if w_record_size w \<ge> 0 then BLOCK_TYPE_FIXED
      else BLOCK_TYPE_VARIABLE)"

definition block_body_size_of :: "nat \<Rightarrow> writer \<Rightarrow> nat result" where
  "block_body_size_of size' w =
     (if w_records w = 1 then Inr size'
      else if w_record_size w \<ge> 0 then
        bindR (EncodedSizeOf (w_record_size w)) (\<lambda>n.
          if w_record_size w = 0
          then bindR (EncodedSizeOf (int (w_records w))) (\<lambda>m. Inr (n + size' + m))
          else Inr (n + size'))
      else
        (let recode_size_buffer_size = length (w_record_size_buffer w)
         in bindR (EncodedSizeOf (int recode_size_buffer_size)) (\<lambda>n. Inr (n + recode_size_buffer_size + size'))))"

definition reset_writer :: "writer \<Rightarrow> writer" where
  "reset_writer w = w\<lparr>w_record_size := RECORD_SIZE_INIT, w_records := 0, w_record_size_buffer := [], w_record_buffer := []\<rparr>"

text \<open>The header: the magic number, the type, the body size and, not checksummed, the folded checksum so far.\<close>

definition write_header :: "8 word \<Rightarrow> int \<Rightarrow> writer \<Rightarrow> (bool \<times> writer) result" where
  "write_header block_type body_size w =
     and_then_write (Inr (WriteAndUpdateChecksum kBlockHeaderMagic (w\<lparr>w_checksum_state := crc_init\<rparr>))) (\<lambda>w.
     and_then_write (Inr (WriteAndUpdateChecksum [block_type] w)) (\<lambda>w.
     and_then_write (WriteVarintAndUpdateChecksum body_size w) (\<lambda>w.
       Inr (WriteToStream (le_bytes 2 (CRC32Hash32ToHash16 (w_checksum_state w))) w))))"

definition write_footer :: "writer \<Rightarrow> (bool \<times> writer) result" where
  "write_footer w =
     and_then_write (Inr (WriteToStream (le_bytes 4 (w_checksum_state w)) w)) (\<lambda>w. Inr (True, reset_writer w))"

text \<open>The sizes in front of the records of a block.\<close>

definition write_sizes :: "writer \<Rightarrow> (bool \<times> writer) result" where
  "write_sizes w =
     (if w_records w = 1 then Inr (True, w)
      else if w_record_size w \<ge> 0 then
        and_then_write (WriteVarintAndUpdateChecksum (w_record_size w) w) (\<lambda>w.
          if w_record_size w = 0 then WriteVarintAndUpdateChecksum (int (w_records w)) w else Inr (True, w))
      else
        and_then_write (WriteVarintAndUpdateChecksum (int (length (w_record_size_buffer w))) w) (\<lambda>w.
          Inr (WriteAndUpdateChecksum (w_record_size_buffer w) w)))"

definition FlushFromExternalBufferWithoutCompression :: "buffer \<Rightarrow> writer \<Rightarrow> (bool \<times> writer) result" where
  "FlushFromExternalBufferWithoutCompression data w =
     (if w_records w = 0 \<or> w_record_size_buffer w = [] then Inl Assertion_failed
      else bindR (block_body_size_of (length data) w) (\<lambda>block_body_size.
        and_then_write (write_header (block_type_of w) (int block_body_size) w) (\<lambda>w.
        and_then_write (write_sizes w) (\<lambda>w.
        and_then_write (Inr (WriteAndUpdateChecksum data w)) write_footer))))"

definition buffer_sizes :: "writer \<Rightarrow> writer result" where
  "buffer_sizes w =
     (if w_records w = 1 then Inr w
      else if w_record_size w \<ge> 0 then
        bindR (WriteVarintToBuffer (w_record_size w) w) (\<lambda>w.
          if w_record_size w = 0 then WriteVarintToBuffer (int (w_records w)) w else Inr w)
      else
        bindR (WriteVarintToBuffer (int (length (w_record_size_buffer w))) w) (\<lambda>w.
          RecordWriter_WriteToBuffer (w_record_size_buffer w) w))"

text \<open>The buffers of the compressor are made large enough first.\<close>

definition ensure_uncompressed_buffer :: "nat \<Rightarrow> writer \<Rightarrow> writer" where
  "ensure_uncompressed_buffer block_body_size w =
     (if block_body_size > w_uncompressed_buffer_capacity w
      then w\<lparr>w_uncompressed_buffer_capacity := block_body_size, w_uncompressed_buffer := []\<rparr>
      else w\<lparr>w_uncompressed_buffer := []\<rparr>)"

definition ensure_compressed_buffer :: "nat \<Rightarrow> writer \<Rightarrow> writer" where
  "ensure_compressed_buffer block_body_size w =
     (if w_compressed_buffer_capacity w < block_body_size
      then w\<lparr>w_compressed_buffer_capacity := block_body_size\<rparr> else w)"

text \<open>A block body that cannot be compressed is written as it is, behind an empty extent header.\<close>

definition write_compressed :: "codec \<Rightarrow> 8 word \<Rightarrow> nat \<Rightarrow> writer \<Rightarrow> (bool \<times> writer) result" where
  "write_compressed codec block_type block_body_size w =
     (let uncompressed = take block_body_size (w_uncompressed_buffer w)
      in bindR (Deflate codec uncompressed block_body_size) (\<lambda>r.
      let (extent_header, out) =
            (case r of
               Some out \<Rightarrow> (Some (w_codec_type w, block_body_size), out)
             | None \<Rightarrow> (None, uncompressed));
          extent_header_string = SerializeToString (w_services w) extent_header
      in bindR (EncodedSizeOf (int (length extent_header_string))) (\<lambda>n.
         and_then_write (write_header (block_type OR BLOCK_TYPE_EXTENT_PROTO_HEADER)
             (int (length out + n + length extent_header_string)) w) (\<lambda>w.
         and_then_write (WriteVarintAndUpdateChecksum (int (length extent_header_string)) w) (\<lambda>w.
         and_then_write (Inr (WriteAndUpdateChecksum extent_header_string w)) (\<lambda>w.
         and_then_write (Inr (WriteAndUpdateChecksum out w)) write_footer))))))"

definition FlushFromExternalBufferWithCompression :: "codec \<Rightarrow> buffer \<Rightarrow> writer \<Rightarrow> (bool \<times> writer) result" where
  "FlushFromExternalBufferWithCompression codec data w =
     (if w_records w = 0 \<or> w_record_size_buffer w = [] then Inl Assertion_failed
      else bindR (block_body_size_of (length data) w) (\<lambda>block_body_size.
        let block_type = block_type_of w
        in bindR (buffer_sizes (ensure_uncompressed_buffer block_body_size w)) (\<lambda>w.
           bindR (RecordWriter_WriteToBuffer data w) (\<lambda>w.
             write_compressed codec block_type block_body_size (ensure_compressed_buffer block_body_size w)))))"

definition FlushFromExternalBuffer :: "buffer \<Rightarrow> writer \<Rightarrow> (bool \<times> writer) result" where
  "FlushFromExternalBuffer data w =
     (case w_compression_codec w of
        Some codec \<Rightarrow> FlushFromExternalBufferWithCompression codec data w
      | None \<Rightarrow> FlushFromExternalBufferWithoutCompression data w)"

section \<open>The interface\<close>

text \<open>Whether the buffered records are written out before the next one is taken.\<close>

definition flush_needed :: "nat \<Rightarrow> writer \<Rightarrow> bool result" where
  "flush_needed size' w =
     (if w_records w > 0 then
        bindR (EncodedSizeOf (int size')) (\<lambda>n.
          if length (w_record_buffer w) + size' \<ge> kRecordBufferSize \<or>
             length (w_record_size_buffer w) + n \<ge> kRecordSizeBufferSize
          then Inr True
          else Inr (w_record_size w \<ge> 0 \<and> w_record_size w \<noteq> int size' \<and>
                    length (w_record_size_buffer w) > 2 * (kMaxBlockHeaderSize + kBlockFooterSize)))
      else Inr False)"

text \<open>Taking a record: a large one is written as a block of its own, any other copied to the buffers.\<close>

definition take_record :: "buffer \<Rightarrow> writer \<Rightarrow> (bool \<times> writer) result" where
  "take_record data w =
     bindR (EncodeLength (int (length data)) (kRecordSizeBufferSize - length (w_record_size_buffer w))) (\<lambda>bs.
       let w = w\<lparr>w_record_size_buffer := w_record_size_buffer w @ bs, w_records := w_records w + 1\<rparr>
       in if length (w_record_buffer w) + length data \<ge> kRecordBufferSize then
            (if w_record_buffer w \<noteq> [] \<or> w_records w \<noteq> 1 then Inl Assertion_failed
             else bindR (FlushFromExternalBuffer data w) (\<lambda>(ok, w).
                    if ok then Inr (True, w) else Inr (False, reset_writer w)))
          else
            (let w = w\<lparr>w_record_buffer := w_record_buffer w @ data\<rparr>
             in Inr (True,
                  if w_record_size w = RECORD_SIZE_INIT then w\<lparr>w_record_size := int (length data)\<rparr>
                  else if w_record_size w \<noteq> int (length data) then w\<lparr>w_record_size := RECORD_SIZE_DIFFERENT\<rparr>
                  else w)))"

text \<open>\<^verbatim>\<open>DCHECK_LE(size, kMaxRecordSize)\<close> ends a build with debug checks; the test behind it is for the others.\<close>

definition WriteRecord :: "buffer \<Rightarrow> writer \<Rightarrow> (bool \<times> writer) result" where
  "WriteRecord data w =
     (if debug_checks (w_services w) \<and> length data > kMaxRecordSize then Inl Assertion_failed
      else if length data > kMaxRecordSize then Inr (False, w)
      else bindR (flush_needed (length data) w) (\<lambda>flush.
        and_then_write (if flush then FlushFromExternalBuffer (w_record_buffer w) w else Inr (True, w))
          (take_record data)))"

definition Flush :: "writer \<Rightarrow> (bool \<times> writer) result" where
  "Flush w =
     and_then_write (if w_records w > 0 then FlushFromExternalBuffer (w_record_buffer w) w else Inr (True, w))
       (\<lambda>w. Inr (FlushStream w))"

text \<open>A protocol buffer message is given by whether it is complete and what it is serialised to.\<close>

definition WriteMessage :: "bool \<Rightarrow> buffer option \<Rightarrow> writer \<Rightarrow> (bool \<times> writer) result" where
  "WriteMessage initialized serialized w =
     (if \<not> initialized then Inr (False, w)
      else case serialized of
          None \<Rightarrow> Inr (False, w)
        | Some out \<Rightarrow> if length out > kMaxRecordSize then Inr (False, w) else WriteRecord out w)"

section \<open>What a block is\<close>

definition same_size :: "buffer list \<Rightarrow> bool" where
  "same_size rs \<longleftrightarrow> (\<forall>r \<in> set rs. length r = length (hd rs))"

definition size_tag :: "buffer list \<Rightarrow> int" where
  "size_tag rs =
     (if rs = [] then RECORD_SIZE_INIT else if same_size rs then int (length (hd rs)) else RECORD_SIZE_DIFFERENT)"

definition size_bytes :: "buffer list \<Rightarrow> buffer" where
  "size_bytes rs = concat (map (\<lambda>r. varint (length r)) rs)"

definition block_ty :: "buffer list \<Rightarrow> 8 word" where
  "block_ty rs =
     (if length rs = 1 then BLOCK_TYPE_SINGLE else if same_size rs then BLOCK_TYPE_FIXED else BLOCK_TYPE_VARIABLE)"

definition payload_sizes :: "buffer list \<Rightarrow> buffer" where
  "payload_sizes rs =
     (if length rs = 1 then []
      else if same_size rs then varint (length (hd rs)) @ (if hd rs = [] then varint (length rs) else [])
      else varint (length (size_bytes rs)) @ size_bytes rs)"

definition payload :: "buffer list \<Rightarrow> buffer" where
  "payload rs = payload_sizes rs @ concat rs"

definition block_header :: "8 word \<Rightarrow> nat \<Rightarrow> buffer" where
  "block_header ty n = kBlockHeaderMagic @ [ty] @ varint n"

definition frame :: "8 word \<Rightarrow> buffer \<Rightarrow> buffer" where
  "frame ty body =
     (let h = block_header ty (length body); c = UpdateCRC32 h crc_init
      in h @ le_bytes 2 (CRC32Hash32ToHash16 c) @ body @ le_bytes 4 (UpdateCRC32 body c))"

definition packed :: "nat \<Rightarrow> codec \<Rightarrow> buffer \<Rightarrow> extent_header \<times> buffer" where
  "packed codec_type codec p =
     (case Deflate codec p (length p) of Inr (Some out) \<Rightarrow> (Some (codec_type, length p), out) | _ \<Rightarrow> (None, p))"

definition extent_body :: "services \<Rightarrow> nat \<Rightarrow> codec \<Rightarrow> buffer \<Rightarrow> buffer" where
  "extent_body services codec_type codec p =
     (let (h, out) = packed codec_type codec p; e = SerializeToString services h in varint (length e) @ e @ out)"

definition block :: "services \<Rightarrow> nat \<Rightarrow> codec option \<Rightarrow> buffer list \<Rightarrow> buffer" where
  "block services codec_type codec rs =
     (case codec of
        None \<Rightarrow> frame (block_ty rs) (payload rs)
      | Some c \<Rightarrow> frame (block_ty rs OR BLOCK_TYPE_EXTENT_PROTO_HEADER) (extent_body services codec_type c (payload rs)))"

text \<open>
  What a compressing writer needs of its codec and of the generated serialiser: bounded output. The libraries and the
  serialiser give it for every codec but QuickLZ.
\<close>

definition services_bounded :: "services \<Rightarrow> codec option \<Rightarrow> bool" where
  "services_bounded services codec \<longleftrightarrow>
     (\<forall>c. codec = Some c \<longrightarrow> codec_bounded c \<and> (\<forall>h. length (SerializeToString services h) \<le> 64))"

definition library_bounded :: "services \<Rightarrow> bool" where
  "library_bounded services \<longleftrightarrow>
     compressors_bounded services \<and> (\<forall>h. length (SerializeToString services h) \<le> 64)"

lemma library_services_bounded:
  assumes "library_bounded services" "codec_type \<noteq> QUICKLZ"
  shows "services_bounded services (if codec_type > 0 then CreateCodec services codec_type else None)"
  using assms CreateCodec_bounded by (auto simp: services_bounded_def library_bounded_def)

lemma codec_bounded_cases:
  assumes "codec_bounded c"
  obtains "Deflate c p n = Inr None" | out where "Deflate c p n = Inr (Some out)" "length out \<le> n"
proof -
  obtain r where "Deflate c p n = Inr r" "\<And>out. r = Some out \<Longrightarrow> length out \<le> n"
    using assms unfolding codec_bounded_def by blast
  then show ?thesis
    using that by (cases r) auto
qed

section \<open>Writing to the stream\<close>

text \<open>The part of the state that writing to the stream does not touch.\<close>

definition core :: "writer \<Rightarrow> services \<times> nat \<times> codec option \<times> int \<times> nat \<times> buffer \<times> buffer" where
  "core w = (w_services w, w_codec_type w, w_compression_codec w, w_record_size w, w_records w, w_record_size_buffer w,
     w_record_buffer w)"

definition appends :: "writer \<Rightarrow> (bool \<times> writer) result \<Rightarrow> buffer \<Rightarrow> 32 word \<Rightarrow> bool" where
  "appends w r d c \<longleftrightarrow>
     (case r of
        Inl e \<Rightarrow> False
      | Inr (ok, w') \<Rightarrow> core w' = core w \<and> (w_faults w = [] \<longrightarrow> ok \<and> w_faults w' = []) \<and>
          (ok \<longrightarrow> w_output w' = w_output w @ d \<and> w_checksum_state w' = c))"

lemma appendsE:
  assumes "appends w r d c"
  obtains ok w' where "r = Inr (ok, w')" "core w' = core w" "w_faults w = [] \<Longrightarrow> ok \<and> w_faults w' = []"
    "ok \<Longrightarrow> w_output w' = w_output w @ d \<and> w_checksum_state w' = c"
  using assms by (auto simp: appends_def split: sum.splits prod.splits)

lemma appends_then:
  assumes "appends w r d c"
    and "\<And>w'. core w' = core w \<Longrightarrow> w_checksum_state w' = c \<Longrightarrow> appends w' (f w') e c'"
  shows "appends w (and_then_write r f) (d @ e) c'"
proof -
  obtain ok w' where r: "r = Inr (ok, w')" "core w' = core w" "w_faults w = [] \<Longrightarrow> ok \<and> w_faults w' = []"
    "ok \<Longrightarrow> w_output w' = w_output w @ d \<and> w_checksum_state w' = c"
    using assms(1) by (rule appendsE) blast
  show ?thesis
  proof (cases ok)
    case True
    then obtain ok' w'' where "f w' = Inr (ok', w'')" "core w'' = core w'" "w_faults w' = [] \<Longrightarrow> ok' \<and> w_faults w'' = []"
      "ok' \<Longrightarrow> w_output w'' = w_output w' @ e \<and> w_checksum_state w'' = c'"
      using assms(2) [OF r(2)] r(4) by (auto elim: appendsE)
    then show ?thesis
      using r True by (auto simp: appends_def and_then_write_def)
  qed (use r in \<open>auto simp: appends_def and_then_write_def\<close>)
qed

lemma and_then_write_assoc:
  "and_then_write (and_then_write r f) g = and_then_write r (\<lambda>w. and_then_write (f w) g)"
  by (cases r) (auto simp: and_then_write_def split: prod.splits)

lemma WriteToStream_appends: "appends w (Inr (WriteToStream d w)) d (w_checksum_state w)"
  by (auto simp: appends_def WriteToStream_def core_def split: list.splits option.splits)

lemma appends_Nil: "appends w (Inr (True, w)) [] (w_checksum_state w)"
  by (simp add: appends_def)

lemma appends_checksum: "appends (w\<lparr>w_checksum_state := c\<rparr>) r d c' \<longleftrightarrow> appends w r d c'"
  by (cases r) (auto simp: appends_def core_def)

lemma WriteAndUpdateChecksum_appends:
  "appends w (Inr (WriteAndUpdateChecksum d w)) d (UpdateCRC32 d (w_checksum_state w))"
proof (cases "d = []")
  case False
  then show ?thesis
    using WriteToStream_appends [of "w\<lparr>w_checksum_state := UpdateCRC32 d (w_checksum_state w)\<rparr>" d]
    by (simp add: WriteAndUpdateChecksum_def appends_checksum)
qed (simp add: WriteAndUpdateChecksum_def appends_Nil)

lemma kMaxVarintEncodedSize_eq: "kMaxVarintEncodedSize = 5"
  by (simp add: kMaxVarintEncodedSize_def MaxEncodedSizeOf_def)

lemma WriteVarint_appends:
  "n < 2 ^ 31 \<Longrightarrow>
   appends w (WriteVarintAndUpdateChecksum (int n) w) (varint n) (UpdateCRC32 (varint n) (w_checksum_state w))"
  using WriteAndUpdateChecksum_appends [of w "varint n"] varint_length [of n] varint_not_Nil [of n]
  by (simp add: WriteVarintAndUpdateChecksum_def EncodeLength_eq kMaxVarintEncodedSize_eq)

lemma write_header_appends:
  assumes "n < 2 ^ 31"
  shows "appends w (write_header ty (int n) w)
    (block_header ty n @ le_bytes 2 (CRC32Hash32ToHash16 (UpdateCRC32 (block_header ty n) crc_init)))
    (UpdateCRC32 (block_header ty n) crc_init)"
proof -
  let ?c1 = "UpdateCRC32 kBlockHeaderMagic crc_init"
  let ?c2 = "UpdateCRC32 [ty] ?c1"
  let ?c3 = "UpdateCRC32 (varint n) ?c2"
  let ?w = "w\<lparr>w_checksum_state := crc_init\<rparr>"
  have c: "?c3 = UpdateCRC32 (block_header ty n) crc_init"
    by (simp add: block_header_def UpdateCRC32_append flip: append_Cons)
  have "appends ?w (write_header ty (int n) w)
      (kBlockHeaderMagic @ [ty] @ varint n @ le_bytes 2 (CRC32Hash32ToHash16 ?c3)) ?c3"
    unfolding write_header_def
  proof (intro appends_then)
    show "appends ?w (Inr (WriteAndUpdateChecksum kBlockHeaderMagic ?w)) kBlockHeaderMagic ?c1"
      using WriteAndUpdateChecksum_appends [of ?w] by simp
    show "appends w' (Inr (WriteAndUpdateChecksum [ty] w')) [ty] ?c2" if "w_checksum_state w' = ?c1" for w'
      using WriteAndUpdateChecksum_appends [of w'] that by metis
    show "appends w' (WriteVarintAndUpdateChecksum (int n) w') (varint n) ?c3" if "w_checksum_state w' = ?c2" for w'
      using WriteVarint_appends [OF assms, of w'] that by metis
    show "appends w' (Inr (WriteToStream (le_bytes 2 (CRC32Hash32ToHash16 (w_checksum_state w'))) w'))
        (le_bytes 2 (CRC32Hash32ToHash16 ?c3)) ?c3" if "w_checksum_state w' = ?c3" for w'
      using WriteToStream_appends [of w'] that by metis
  qed
  then show ?thesis
    unfolding c by (simp add: appends_checksum block_header_def)
qed

section \<open>Flushing\<close>

text \<open>The records of the next block, and the bounds under which all sizes are representable.\<close>

definition loaded :: "writer \<Rightarrow> buffer list \<Rightarrow> bool" where
  "loaded w rs \<longleftrightarrow>
     rs \<noteq> [] \<and> w_records w = length rs \<and> w_record_size_buffer w = size_bytes rs \<and>
     (length rs \<noteq> 1 \<longrightarrow> w_record_size w = size_tag rs)"

definition fits :: "buffer list \<Rightarrow> bool" where
  "fits rs \<longleftrightarrow>
     length (size_bytes rs) \<le> kRecordSizeBufferSize \<and> length (concat rs) \<le> kMaxRecordSize \<and>
     (length rs \<noteq> 1 \<longrightarrow> length (concat rs) < kRecordBufferSize)"

lemma size_tag_cases:
  assumes "rs \<noteq> []"
  shows "0 \<le> size_tag rs \<longleftrightarrow> same_size rs" "same_size rs \<Longrightarrow> size_tag rs = int (length (hd rs))"
  using assms by (simp_all add: size_tag_def RECORD_SIZE_DIFFERENT_def)

lemma length_size_bytes: "length rs \<le> length (size_bytes rs)"
proof (induction rs)
  case (Cons r rs)
  then show ?case
    using varint_length(1) [of "length r"] by (simp add: size_bytes_def)
qed (simp add: size_bytes_def)

lemma length_hd_concat: "rs \<noteq> [] \<Longrightarrow> length (hd rs) \<le> length (concat rs)"
  by (cases rs) simp_all

lemma fits_bounds:
  assumes "fits rs" "rs \<noteq> []"
  shows "length (size_bytes rs) < 2 ^ 31" "length rs < 2 ^ 31" "length (hd rs) < 2 ^ 31" "length (payload rs) < 2 ^ 26"
proof -
  have sb: "length (size_bytes rs) \<le> 32768" and c: "length (concat rs) \<le> 33554431"
    using assms(1) by (simp_all add: fits_def kRecordSizeBufferSize_def kLocalBufferBlockSize_def kMaxRecordSize_def)
  show "length (size_bytes rs) < 2 ^ 31" "length rs < 2 ^ 31" "length (hd rs) < 2 ^ 31"
    using sb c length_size_bytes [of rs] length_hd_concat [OF assms(2)] by simp_all
  have "length (payload_sizes rs) \<le> 10 + 32768"
    using sb varint_length(2) [of "length (hd rs)"] varint_length(2) [of "length rs"]
      varint_length(2) [of "length (size_bytes rs)"] varint_length(2) [of 0] by (simp add: payload_sizes_def)
  then show "length (payload rs) < 2 ^ 26"
    using c by (simp add: payload_def)
qed

lemma size_bytes_not_Nil: "rs \<noteq> [] \<Longrightarrow> size_bytes rs \<noteq> []"
  using length_size_bytes [of rs] by auto

lemma loaded_core: "core w' = core w \<Longrightarrow> loaded w' rs \<longleftrightarrow> loaded w rs"
  by (simp add: loaded_def core_def)

lemma loaded_type: "loaded w rs \<Longrightarrow> block_type_of w = block_ty rs"
  using size_tag_cases [of rs] by (auto simp: loaded_def block_type_of_def block_ty_def)

lemma loaded_body_size:
  assumes "loaded w rs" "fits rs"
  shows "block_body_size_of (length (concat rs)) w = Inr (length (payload rs))"
proof -
  have "rs \<noteq> []"
    using assms(1) by (simp add: loaded_def)
  note facts = fits_bounds [OF assms(2) this] size_tag_cases [OF this]
  show ?thesis
    using assms(1) facts unfolding loaded_def block_body_size_of_def payload_def payload_sizes_def
    by (cases "length rs = 1"; cases "same_size rs") (simp_all add: EncodedSizeOf_eq Let_def)
qed

lemma write_sizes_appends:
  assumes "loaded w rs" "fits rs"
  shows "appends w (write_sizes w) (payload_sizes rs) (UpdateCRC32 (payload_sizes rs) (w_checksum_state w))"
proof (cases "length rs = 1")
  case True
  then show ?thesis
    using assms(1) appends_Nil [of w] by (simp add: loaded_def write_sizes_def payload_sizes_def)
next
  case False
  have ne: "rs \<noteq> []"
    using assms(1) by (simp add: loaded_def)
  note bounds = fits_bounds [OF assms(2) ne]
  show ?thesis
  proof (cases "same_size rs")
    case True
    have tag: "w_record_size w = int (length (hd rs))" "w_records w = length rs"
      using assms(1) False size_tag_cases(2) [OF ne True] by (simp_all add: loaded_def)
    have "appends w (and_then_write (WriteVarintAndUpdateChecksum (int (length (hd rs))) w) (\<lambda>w.
          if w_record_size w = 0 then WriteVarintAndUpdateChecksum (int (w_records w)) w else Inr (True, w)))
        (varint (length (hd rs)) @ (if hd rs = [] then varint (length rs) else []))
        (UpdateCRC32 (if hd rs = [] then varint (length rs) else [])
          (UpdateCRC32 (varint (length (hd rs))) (w_checksum_state w)))"
    proof (rule appends_then [OF WriteVarint_appends [OF bounds(3)]])
      fix w'
      assume "core w' = core w" and c: "w_checksum_state w' = UpdateCRC32 (varint (length (hd rs))) (w_checksum_state w)"
      then have "w_record_size w' = int (length (hd rs))" "w_records w' = length rs"
        using tag by (simp_all add: core_def)
      then show "appends w' (if w_record_size w' = 0 then WriteVarintAndUpdateChecksum (int (w_records w')) w' else Inr (True, w'))
          (if hd rs = [] then varint (length rs) else [])
          (UpdateCRC32 (if hd rs = [] then varint (length rs) else [])
            (UpdateCRC32 (varint (length (hd rs))) (w_checksum_state w)))"
        using WriteVarint_appends [OF bounds(2), of w'] appends_Nil [of w'] c by (cases "hd rs = []") simp_all
    qed
    then show ?thesis
      using False True tag by (simp add: write_sizes_def payload_sizes_def UpdateCRC32_append)
  next
    case diff: False
    have tag: "\<not> 0 \<le> w_record_size w" "w_records w \<noteq> 1" "w_record_size_buffer w = size_bytes rs"
      using assms(1) False size_tag_cases(1) [OF ne] diff by (simp_all add: loaded_def)
    have "appends w (and_then_write (WriteVarintAndUpdateChecksum (int (length (size_bytes rs))) w) (\<lambda>w.
          Inr (WriteAndUpdateChecksum (w_record_size_buffer w) w)))
        (varint (length (size_bytes rs)) @ size_bytes rs)
        (UpdateCRC32 (size_bytes rs) (UpdateCRC32 (varint (length (size_bytes rs))) (w_checksum_state w)))"
    proof (rule appends_then [OF WriteVarint_appends [OF bounds(1)]])
      fix w'
      assume "core w' = core w" and "w_checksum_state w' = UpdateCRC32 (varint (length (size_bytes rs))) (w_checksum_state w)"
      then show "appends w' (Inr (WriteAndUpdateChecksum (w_record_size_buffer w') w')) (size_bytes rs)
          (UpdateCRC32 (size_bytes rs) (UpdateCRC32 (varint (length (size_bytes rs))) (w_checksum_state w)))"
        using WriteAndUpdateChecksum_appends [of w' "size_bytes rs"] tag(3) by (simp add: core_def)
    qed
    then show ?thesis
      using False diff tag by (simp add: write_sizes_def payload_sizes_def UpdateCRC32_append)
  qed
qed

text \<open>Flushing either empties the writer and appends one block, or fails and keeps the records.\<close>

definition flushes :: "writer \<Rightarrow> (bool \<times> writer) result \<Rightarrow> buffer \<Rightarrow> bool" where
  "flushes w r d \<longleftrightarrow>
     (case r of
        Inl e \<Rightarrow> False
      | Inr (ok, w') \<Rightarrow> (w_faults w = [] \<longrightarrow> ok \<and> w_faults w' = []) \<and>
          (if ok then core w' = core (reset_writer w) \<and> w_output w' = w_output w @ d else core w' = core w))"

lemma flushesE:
  assumes "flushes w r d"
  obtains ok w' where "r = Inr (ok, w')" "w_faults w = [] \<Longrightarrow> ok \<and> w_faults w' = []"
    "ok \<Longrightarrow> core w' = core (reset_writer w) \<and> w_output w' = w_output w @ d" "\<not> ok \<Longrightarrow> core w' = core w"
  using assms by (auto simp: flushes_def split: sum.splits prod.splits if_splits)

lemma appends_footer:
  assumes "appends w r d c"
  shows "flushes w (and_then_write r write_footer) (d @ le_bytes 4 c)"
proof -
  obtain ok w' where r: "r = Inr (ok, w')" "core w' = core w" "w_faults w = [] \<Longrightarrow> ok \<and> w_faults w' = []"
    "ok \<Longrightarrow> w_output w' = w_output w @ d \<and> w_checksum_state w' = c"
    using assms by (rule appendsE) blast
  obtain ok' w'' where s: "WriteToStream (le_bytes 4 (w_checksum_state w')) w' = (ok', w'')" "core w'' = core w'"
    "w_faults w' = [] \<Longrightarrow> ok' \<and> w_faults w'' = []" "ok' \<Longrightarrow> w_output w'' = w_output w' @ le_bytes 4 (w_checksum_state w')"
    using WriteToStream_appends [of w' "le_bytes 4 (w_checksum_state w')"] by (auto elim!: appendsE)
  have "core (reset_writer w'') = core (reset_writer w)"
    using r(2) s(2) by (simp add: core_def reset_writer_def)
  moreover have "and_then_write r write_footer =
      (if ok then if ok' then Inr (True, reset_writer w'') else Inr (False, w'') else Inr (False, w'))"
    using r(1) s(1) by (simp add: and_then_write_def write_footer_def)
  moreover have "w_faults (reset_writer w'') = w_faults w''" "w_output (reset_writer w'') = w_output w''"
    by (simp_all add: reset_writer_def)
  ultimately show ?thesis
    using r(2-4) s(2-4) unfolding flushes_def by (cases ok; cases ok') auto
qed

lemma FlushWithoutCompression_flushes:
  assumes "loaded w rs" "fits rs"
  shows "flushes w (FlushFromExternalBufferWithoutCompression (concat rs) w) (frame (block_ty rs) (payload rs))"
proof -
  have ne: "rs \<noteq> []"
    using assms(1) by (simp add: loaded_def)
  let ?h = "block_header (block_ty rs) (length (payload rs))"
  let ?c = "UpdateCRC32 ?h crc_init"
  let ?cs = "UpdateCRC32 (payload_sizes rs) ?c"
  have n: "length (payload rs) < 2 ^ 31"
    using fits_bounds(4) [OF assms(2) ne] by simp
  have "appends w (and_then_write (write_header (block_ty rs) (int (length (payload rs))) w) (\<lambda>w.
        and_then_write (write_sizes w) (\<lambda>w. Inr (WriteAndUpdateChecksum (concat rs) w))))
      ((?h @ le_bytes 2 (CRC32Hash32ToHash16 ?c)) @ payload_sizes rs @ concat rs) (UpdateCRC32 (concat rs) ?cs)"
  proof (intro appends_then)
    show "appends w (write_header (block_ty rs) (int (length (payload rs))) w)
        (?h @ le_bytes 2 (CRC32Hash32ToHash16 ?c)) ?c"
      by (rule write_header_appends [OF n])
    show "appends w' (write_sizes w') (payload_sizes rs) ?cs" if "core w' = core w" "w_checksum_state w' = ?c" for w'
      using write_sizes_appends [of w' rs] assms that loaded_core by metis
    show "appends w' (Inr (WriteAndUpdateChecksum (concat rs) w')) (concat rs) (UpdateCRC32 (concat rs) ?cs)"
      if "w_checksum_state w' = ?cs" for w'
      using WriteAndUpdateChecksum_appends [of w'] that by metis
  qed
  from appends_footer [OF this] show ?thesis
    using assms ne size_bytes_not_Nil [OF ne] loaded_body_size [OF assms] loaded_type [OF assms(1)]
    by (simp add: FlushFromExternalBufferWithoutCompression_def frame_def payload_def UpdateCRC32_append Let_def
        and_then_write_assoc) (simp add: loaded_def)
qed

lemma WriteToBuffer_eq:
  "length (w_uncompressed_buffer w) + length d \<le> w_uncompressed_buffer_capacity w \<Longrightarrow>
   RecordWriter_WriteToBuffer d w = Inr (w\<lparr>w_uncompressed_buffer := w_uncompressed_buffer w @ d\<rparr>)"
  by (simp add: RecordWriter_WriteToBuffer_def)

lemma WriteVarintToBuffer_eq:
  assumes "n < 2 ^ 31" "length (w_uncompressed_buffer w) + length (varint n) \<le> w_uncompressed_buffer_capacity w"
  shows "WriteVarintToBuffer (int n) w = Inr (w\<lparr>w_uncompressed_buffer := w_uncompressed_buffer w @ varint n\<rparr>)"
  using assms varint_length [of n] varint_not_Nil [of n]
  by (simp add: WriteVarintToBuffer_def EncodeLength_eq kMaxVarintEncodedSize_eq WriteToBuffer_eq)

lemma buffer_sizes_eq:
  assumes "loaded w rs" "fits rs" "w_uncompressed_buffer w = []" "length (payload_sizes rs) \<le> w_uncompressed_buffer_capacity w"
  shows "buffer_sizes w = Inr (w\<lparr>w_uncompressed_buffer := payload_sizes rs\<rparr>)"
proof -
  have ne: "rs \<noteq> []"
    using assms(1) by (simp add: loaded_def)
  note facts = fits_bounds [OF assms(2) ne] size_tag_cases [OF ne]
  show ?thesis
  proof (cases "length rs = 1 \<or> \<not> same_size rs")
    case True
    then show ?thesis
      using assms facts
      by (cases "length rs = 1") (simp_all add: loaded_def buffer_sizes_def payload_sizes_def WriteVarintToBuffer_eq WriteToBuffer_eq)
  next
    case False
    then show ?thesis
      using assms facts by (cases "hd rs = []")
        (simp_all add: loaded_def buffer_sizes_def payload_sizes_def WriteVarintToBuffer_eq
          WriteVarintToBuffer_eq [of 0, simplified])
  qed
qed

lemma flushes_cong: "core w' = core w \<Longrightarrow> w_faults w' = w_faults w \<Longrightarrow> w_output w' = w_output w \<Longrightarrow> flushes w' r d \<longleftrightarrow> flushes w r d"
  by (cases r) (auto simp: flushes_def core_def reset_writer_def)

lemma write_extent_block:
  fixes e out :: buffer
  assumes "length e < 2 ^ 31" "length (varint (length e) @ e @ out) < 2 ^ 31"
  defines "body \<equiv> varint (length e) @ e @ out"
  shows "flushes w
    (and_then_write (write_header ty (int (length body)) w) (\<lambda>w.
     and_then_write (WriteVarintAndUpdateChecksum (int (length e)) w) (\<lambda>w.
     and_then_write (Inr (WriteAndUpdateChecksum e w)) (\<lambda>w.
     and_then_write (Inr (WriteAndUpdateChecksum out w)) write_footer)))) (frame ty body)"
proof -
  let ?h = "block_header ty (length body)"
  let ?c = "UpdateCRC32 ?h crc_init"
  let ?c1 = "UpdateCRC32 (varint (length e)) ?c"
  let ?c2 = "UpdateCRC32 e ?c1"
  have "appends w (and_then_write (write_header ty (int (length body)) w) (\<lambda>w.
     and_then_write (WriteVarintAndUpdateChecksum (int (length e)) w) (\<lambda>w.
     and_then_write (Inr (WriteAndUpdateChecksum e w)) (\<lambda>w. Inr (WriteAndUpdateChecksum out w)))))
    ((?h @ le_bytes 2 (CRC32Hash32ToHash16 ?c)) @ varint (length e) @ e @ out) (UpdateCRC32 out ?c2)"
  proof (intro appends_then)
    show "appends w (write_header ty (int (length body)) w) (?h @ le_bytes 2 (CRC32Hash32ToHash16 ?c)) ?c"
      using assms(2) by (intro write_header_appends) (simp add: body_def)
    show "appends w' (WriteVarintAndUpdateChecksum (int (length e)) w') (varint (length e)) ?c1"
      if "w_checksum_state w' = ?c" for w'
      using WriteVarint_appends [OF assms(1), of w'] that by metis
    show "appends w' (Inr (WriteAndUpdateChecksum e w')) e ?c2" if "w_checksum_state w' = ?c1" for w'
      using WriteAndUpdateChecksum_appends [of w'] that by metis
    show "appends w' (Inr (WriteAndUpdateChecksum out w')) out (UpdateCRC32 out ?c2)" if "w_checksum_state w' = ?c2" for w'
      using WriteAndUpdateChecksum_appends [of w'] that by metis
  qed
  from appends_footer [OF this] show ?thesis
    by (simp add: and_then_write_assoc frame_def Let_def UpdateCRC32_append body_def)
qed

lemma extent_body_length:
  assumes "services_bounded services (Some c)"
  shows "length (extent_body services ct c p) \<le> 69 + length p"
proof -
  obtain h out where e: "packed ct c p = (h, out)"
    by fastforce
  have "codec_bounded c"
    using assms by (simp add: services_bounded_def)
  then have "length out \<le> length p"
    using e by (cases rule: codec_bounded_cases [of c p "length p"]) (auto simp: packed_def)
  moreover have "length (SerializeToString services h) \<le> 64"
    using assms by (simp add: services_bounded_def)
  ultimately show ?thesis
    using e varint_length(2) [of "length (SerializeToString services h)"] by (simp add: extent_body_def Let_def)
qed

lemma write_compressed_flushes:
  assumes "services_bounded (w_services w) (Some c)" "w_uncompressed_buffer w = p" "length p < 2 ^ 26"
  shows "flushes w (write_compressed c ty (length p) w)
    (frame (ty OR BLOCK_TYPE_EXTENT_PROTO_HEADER) (extent_body (w_services w) (w_codec_type w) c p))"
proof -
  obtain h out where p: "packed (w_codec_type w) c p = (h, out)"
    by fastforce
  let ?e = "SerializeToString (w_services w) h"
  have e: "length ?e < 2 ^ 31"
  proof -
    have "length ?e \<le> 64"
      using assms(1) by (simp add: services_bounded_def)
    then show ?thesis
      by simp
  qed
  have body: "extent_body (w_services w) (w_codec_type w) c p = varint (length ?e) @ ?e @ out"
    using p by (simp add: extent_body_def Let_def)
  then have small: "length (varint (length ?e) @ ?e @ out) < 2 ^ 31"
    using extent_body_length [OF assms(1), of "w_codec_type w" p] assms(3) by simp
  have len: "length out + length (varint (length ?e)) + length ?e = length (varint (length ?e) @ ?e @ out)"
    by simp
  have "write_compressed c ty (length p) w =
    (and_then_write (write_header (ty OR BLOCK_TYPE_EXTENT_PROTO_HEADER) (int (length (varint (length ?e) @ ?e @ out))) w) (\<lambda>w.
     and_then_write (WriteVarintAndUpdateChecksum (int (length ?e)) w) (\<lambda>w.
     and_then_write (Inr (WriteAndUpdateChecksum ?e w)) (\<lambda>w.
     and_then_write (Inr (WriteAndUpdateChecksum out w)) write_footer))))"
  proof -
    have "codec_bounded c"
      using assms(1) by (simp add: services_bounded_def)
    then show ?thesis
      using assms(2) p EncodedSizeOf_eq [OF e]
      by (cases rule: codec_bounded_cases [of c p "length p"])
        (auto simp: write_compressed_def packed_def Let_def algebra_simps)
  qed
  then show ?thesis
    using write_extent_block [OF e small, of w "ty OR BLOCK_TYPE_EXTENT_PROTO_HEADER"] unfolding body by simp
qed

lemma FlushWithCompression_flushes:
  assumes "loaded w rs" "fits rs" "services_bounded (w_services w) (Some c)"
  shows "flushes w (FlushFromExternalBufferWithCompression c (concat rs) w)
    (frame (block_ty rs OR BLOCK_TYPE_EXTENT_PROTO_HEADER) (extent_body (w_services w) (w_codec_type w) c (payload rs)))"
proof -
  have ne: "rs \<noteq> []"
    using assms(1) by (simp add: loaded_def)
  let ?n = "length (payload rs)"
  define w1 where "w1 = ensure_uncompressed_buffer ?n w"
  define w2 where "w2 = w1\<lparr>w_uncompressed_buffer := payload rs\<rparr>"
  define w3 where "w3 = ensure_compressed_buffer ?n w2"
  have same: "core w3 = core w" "w_faults w3 = w_faults w" "w_output w3 = w_output w" "w_services w3 = w_services w"
    "w_codec_type w3 = w_codec_type w" "w_uncompressed_buffer w3 = payload rs" "core w1 = core w"
    "?n \<le> w_uncompressed_buffer_capacity w1" "w_uncompressed_buffer w1 = []"
    by (simp_all add: w3_def w2_def w1_def core_def ensure_uncompressed_buffer_def ensure_compressed_buffer_def)
  have "buffer_sizes w1 = Inr (w1\<lparr>w_uncompressed_buffer := payload_sizes rs\<rparr>)"
    using assms(1,2) same(8,9) by (intro buffer_sizes_eq) (simp_all add: loaded_core [OF same(7)] payload_def)
  moreover have "RecordWriter_WriteToBuffer (concat rs) (w1\<lparr>w_uncompressed_buffer := payload_sizes rs\<rparr>) = Inr w2"
    using same(8) by (simp add: RecordWriter_WriteToBuffer_def payload_def w2_def)
  ultimately have "FlushFromExternalBufferWithCompression c (concat rs) w = write_compressed c (block_ty rs) ?n w3"
    using assms(1) size_bytes_not_Nil [OF ne] ne loaded_body_size [OF assms(1,2)] loaded_type [OF assms(1)]
    by (simp add: FlushFromExternalBufferWithCompression_def w3_def flip: w1_def) (simp add: loaded_def)
  moreover have "flushes w3 (write_compressed c (block_ty rs) ?n w3)
      (frame (block_ty rs OR BLOCK_TYPE_EXTENT_PROTO_HEADER) (extent_body (w_services w3) (w_codec_type w3) c (payload rs)))"
    using assms(3) same fits_bounds(4) [OF assms(2) ne] by (intro write_compressed_flushes) simp_all
  ultimately show ?thesis
    using flushes_cong [OF same(1-3)] same(4,5) by simp
qed

lemma FlushFromExternalBuffer_flushes:
  assumes "loaded w rs" "fits rs" "services_bounded (w_services w) (w_compression_codec w)"
  shows "flushes w (FlushFromExternalBuffer (concat rs) w) (block (w_services w) (w_codec_type w) (w_compression_codec w) rs)"
  using assms FlushWithoutCompression_flushes [OF assms(1,2)] FlushWithCompression_flushes [OF assms(1,2)]
  by (cases "w_compression_codec w") (simp_all add: FlushFromExternalBuffer_def block_def)

section \<open>The invariant of the writer\<close>

text \<open>
  The buffers hold the records \<open>rs\<close> that are not written yet, the counters describe them, and both buffers have room
  left.
\<close>

definition writer_inv :: "writer \<Rightarrow> buffer list \<Rightarrow> bool" where
  "writer_inv w rs \<longleftrightarrow>
     w_records w = length rs \<and> w_record_buffer w = concat rs \<and> w_record_size_buffer w = size_bytes rs \<and>
     w_record_size w = size_tag rs \<and> length (concat rs) < kRecordBufferSize \<and>
     length (size_bytes rs) < kRecordSizeBufferSize \<and> services_bounded (w_services w) (w_compression_codec w)"

abbreviation block_of :: "writer \<Rightarrow> buffer list \<Rightarrow> buffer" where
  "block_of w \<equiv> block (w_services w) (w_codec_type w) (w_compression_codec w)"

text \<open>
  What a call does that starts with the buffered records \<open>rs\<close> and is given the records \<open>ds\<close>: it keeps the invariant,
  and if it succeeds the blocks it has written and the records it keeps are all the records in their order.
\<close>

definition progresses :: "writer \<Rightarrow> buffer list \<Rightarrow> buffer list \<Rightarrow> (bool \<times> writer) result \<Rightarrow> bool" where
  "progresses w rs ds r \<longleftrightarrow>
     (case r of
        Inl e \<Rightarrow> False
      | Inr (ok, w') \<Rightarrow> \<exists>gs rs'. writer_inv w' rs' \<and> block_of w' = block_of w \<and>
          (w_faults w = [] \<longrightarrow> ok \<and> w_faults w' = []) \<and>
          (ok \<longrightarrow> concat gs @ rs' = rs @ ds \<and> (\<forall>g \<in> set gs. g \<noteq> [] \<and> fits g) \<and>
             w_output w' = w_output w @ concat (map (block_of w) gs)))"

lemma progressesI:
  assumes "writer_inv w' rs'" "block_of w' = block_of w" "w_faults w = [] \<Longrightarrow> ok \<and> w_faults w' = []"
    and "ok \<Longrightarrow> concat gs @ rs' = rs @ ds" "ok \<Longrightarrow> \<forall>g \<in> set gs. g \<noteq> [] \<and> fits g"
    and "ok \<Longrightarrow> w_output w' = w_output w @ concat (map (block_of w) gs)"
  shows "progresses w rs ds (Inr (ok, w'))"
  unfolding progresses_def using assms by auto

lemma buffer_sizes_kb: "kRecordBufferSize = 131072" "kRecordSizeBufferSize = 32768" "kMaxRecordSize = 33554431"
  by (simp_all add: kRecordBufferSize_def kRecordSizeBufferSize_def kLocalBufferBlockSize_def kMaxRecordSize_def)

lemma writer_inv_loaded: "writer_inv w rs \<Longrightarrow> rs \<noteq> [] \<Longrightarrow> loaded w rs \<and> fits rs"
  by (simp add: writer_inv_def loaded_def fits_def buffer_sizes_kb)

lemma writer_inv_core: "core w' = core w \<Longrightarrow> writer_inv w' rs \<longleftrightarrow> writer_inv w rs"
  by (simp add: writer_inv_def core_def)

lemma block_of_core: "core w' = core w \<Longrightarrow> block_of w' = block_of w"
  by (simp add: core_def)

lemma writer_inv_reset:
  "services_bounded (w_services w) (w_compression_codec w) \<Longrightarrow> writer_inv (reset_writer w) []"
  by (simp add: writer_inv_def reset_writer_def size_bytes_def size_tag_def buffer_sizes_kb)

lemma size_tag_snoc:
  "size_tag (rs @ [d]) =
     (if size_tag rs = RECORD_SIZE_INIT then int (length d)
      else if size_tag rs \<noteq> int (length d) then RECORD_SIZE_DIFFERENT else size_tag rs)"
  by (cases rs) (auto simp: size_tag_def same_size_def RECORD_SIZE_INIT_def RECORD_SIZE_DIFFERENT_def)

lemma size_bytes_snoc: "size_bytes (rs @ [d]) = size_bytes rs @ varint (length d)"
  by (simp add: size_bytes_def)

lemma flushes_progresses:
  assumes "flushes w r (block_of w rs)" "services_bounded (w_services w) (w_compression_codec w)" "rs \<noteq> []" "fits rs"
    "r = Inr (ok, w')"
  shows "w_faults w = [] \<Longrightarrow> ok \<and> w_faults w' = []" "block_of w' = block_of w" "ok \<Longrightarrow> writer_inv w' []"
    "ok \<Longrightarrow> w_output w' = w_output w @ block_of w rs" "\<not> ok \<Longrightarrow> core w' = core w"
proof -
  have f: "w_faults w = [] \<Longrightarrow> ok \<and> w_faults w' = []" "ok \<Longrightarrow> core w' = core (reset_writer w) \<and> w_output w' = w_output w @ block_of w rs"
    "\<not> ok \<Longrightarrow> core w' = core w"
    using assms(1,5) by (auto elim!: flushesE)
  then show "w_faults w = [] \<Longrightarrow> ok \<and> w_faults w' = []" "ok \<Longrightarrow> w_output w' = w_output w @ block_of w rs"
    "\<not> ok \<Longrightarrow> core w' = core w"
    by simp_all
  show "block_of w' = block_of w"
    using f(2,3) by (cases ok) (simp_all add: core_def reset_writer_def)
  show "ok \<Longrightarrow> writer_inv w' []"
    using f(2) writer_inv_core [of w' "reset_writer w"] writer_inv_reset [OF assms(2)] by simp
qed

lemma take_record_progresses:
  assumes "writer_inv w rs" "length d \<le> kMaxRecordSize"
    and "rs \<noteq> [] \<Longrightarrow> length (concat rs) + length d < kRecordBufferSize \<and>
      length (size_bytes rs) + length (varint (length d)) < kRecordSizeBufferSize"
  shows "progresses w rs [d] (take_record d w)"
proof -
  have inv: "w_records w = length rs" "w_record_buffer w = concat rs" "w_record_size_buffer w = size_bytes rs"
    "w_record_size w = size_tag rs" and sb: "services_bounded (w_services w) (w_compression_codec w)"
    using assms(1) by (simp_all add: writer_inv_def)
  have d: "length d < 2 ^ 31"
    using assms(2) by (simp add: buffer_sizes_kb)
  have room: "length (size_bytes rs) + length (varint (length d)) < kRecordSizeBufferSize"
    using assms(3) varint_length(2) [of "length d"] by (cases "rs = []") (simp_all add: size_bytes_def buffer_sizes_kb)
  let ?w1 = "w\<lparr>w_record_size_buffer := size_bytes rs @ varint (length d), w_records := length rs + 1\<rparr>"
  have enc: "EncodeLength (int (length d)) (kRecordSizeBufferSize - length (size_bytes rs)) = Inr (varint (length d))"
    using room by (intro EncodeLength_eq [OF d]) simp
  show ?thesis
  proof (cases "length (concat rs) + length d \<ge> kRecordBufferSize")
    case True
    then have rs: "rs = []"
      using assms(3) by fastforce
    have l: "loaded ?w1 [d]" "fits [d]"
      using rs assms(2) room by (simp_all add: loaded_def fits_def size_bytes_def)
    have fl: "flushes ?w1 (FlushFromExternalBuffer d ?w1) (block_of ?w1 [d])"
      using FlushFromExternalBuffer_flushes [OF l] sb by simp
    then obtain ok w' where r: "FlushFromExternalBuffer d ?w1 = Inr (ok, w')"
      by (auto elim!: flushesE)
    note p = flushes_progresses [OF fl _ _ l(2) r, simplified, OF sb]
    have res: "take_record d w = Inr (if ok then (True, w') else (False, reset_writer w'))"
      using True rs inv enc r by (simp add: take_record_def Let_def)
    show ?thesis
    proof (cases ok)
      case True
      then show ?thesis
        using p l(2) rs unfolding res by (simp only: if_True) (rule progressesI [of _ "[]" _ _ "[[d]]"], simp_all)
    next
      case False
      then have "core w' = core ?w1"
        using p by simp
      then have "writer_inv (reset_writer w') []" "block_of (reset_writer w') = block_of w"
        using sb by (simp_all add: writer_inv_reset core_def reset_writer_def [of w'] writer_inv_def size_bytes_def
            size_tag_def buffer_sizes_kb)
      then show ?thesis
        using p False unfolding res by (simp only: if_False) (rule progressesI, simp_all)
    qed
  next
    case False
    show ?thesis
      using False inv enc room sb
      unfolding progresses_def take_record_def
      by (auto simp: Let_def writer_inv_def size_bytes_snoc size_tag_snoc intro!: exI [of _ "[]"] exI [of _ "rs @ [d]"])
  qed
qed

lemma flush_needed_eq:
  assumes "writer_inv w rs" "length d \<le> kMaxRecordSize"
  obtains flush where "flush_needed (length d) w = Inr flush" "flush \<Longrightarrow> rs \<noteq> []"
    "\<not> flush \<Longrightarrow> rs \<noteq> [] \<Longrightarrow> length (concat rs) + length d < kRecordBufferSize \<and>
      length (size_bytes rs) + length (varint (length d)) < kRecordSizeBufferSize"
proof -
  have "EncodedSizeOf (int (length d)) = Inr (length (varint (length d)))"
    using assms(2) by (intro EncodedSizeOf_eq) (simp add: buffer_sizes_kb)
  then have "flush_needed (length d) w = Inr (rs \<noteq> [] \<and>
      (kRecordBufferSize \<le> length (concat rs) + length d \<or>
       kRecordSizeBufferSize \<le> length (size_bytes rs) + length (varint (length d)) \<or>
       w_record_size w \<ge> 0 \<and> w_record_size w \<noteq> int (length d) \<and>
       length (size_bytes rs) > 2 * (kMaxBlockHeaderSize + kBlockFooterSize)))"
    using assms(1) by (simp add: flush_needed_def writer_inv_def)
  from that [OF this] show ?thesis
    by (auto simp: not_le)
qed

lemma progresses_Inr:
  assumes "progresses w rs ds r"
  obtains ok w' gs rs' where "r = Inr (ok, w')" "writer_inv w' rs'" "block_of w' = block_of w"
    "w_faults w = [] \<Longrightarrow> ok \<and> w_faults w' = []"
    "ok \<Longrightarrow> concat gs @ rs' = rs @ ds \<and> (\<forall>g \<in> set gs. g \<noteq> [] \<and> fits g) \<and>
             w_output w' = w_output w @ concat (map (block_of w) gs)"
  using assms by (auto simp: progresses_def split: sum.splits prod.splits)

lemma progresses_then:
  assumes "progresses w rs ds r" "\<And>w' rs'. writer_inv w' rs' \<Longrightarrow> r = Inr (True, w') \<Longrightarrow> progresses w' rs' es (f w')"
  shows "progresses w rs (ds @ es) (and_then_write r f)"
proof -
  obtain ok w' gs rs' where r: "r = Inr (ok, w')" "writer_inv w' rs'" "block_of w' = block_of w"
    "w_faults w = [] \<Longrightarrow> ok \<and> w_faults w' = []"
    and out: "ok \<Longrightarrow> concat gs @ rs' = rs @ ds \<and> (\<forall>g \<in> set gs. g \<noteq> [] \<and> fits g) \<and>
             w_output w' = w_output w @ concat (map (block_of w) gs)"
    using assms(1) by (rule progresses_Inr) blast
  show ?thesis
  proof (cases ok)
    case True
    obtain ok2 w2 gs2 rs2 where f: "f w' = Inr (ok2, w2)" "writer_inv w2 rs2" "block_of w2 = block_of w'"
      "w_faults w' = [] \<Longrightarrow> ok2 \<and> w_faults w2 = []"
      and out2: "ok2 \<Longrightarrow> concat gs2 @ rs2 = rs' @ es \<and> (\<forall>g \<in> set gs2. g \<noteq> [] \<and> fits g) \<and>
             w_output w2 = w_output w' @ concat (map (block_of w') gs2)"
      using assms(2) [OF r(2)] r(1) True by (auto elim: progresses_Inr)
    have "and_then_write r f = Inr (ok2, w2)"
      using r(1) f(1) True by (simp add: and_then_write_def)
    moreover have "progresses w rs (ds @ es) (Inr (ok2, w2))"
    proof (rule progressesI [OF f(2), where gs = "gs @ gs2"])
      assume ok2
      then have a: "concat gs2 @ rs2 = rs' @ es" and b: "concat gs @ rs' = rs @ ds"
        using out out2 True by simp_all
      show "concat (gs @ gs2) @ rs2 = rs @ ds @ es"
        using a arg_cong [OF b, of "\<lambda>x. x @ es"] by simp
      show "\<forall>g \<in> set (gs @ gs2). g \<noteq> [] \<and> fits g"
        using out out2 True \<open>ok2\<close> by auto
      show "w_output w2 = w_output w @ concat (map (block_of w) (gs @ gs2))"
        using out out2 True \<open>ok2\<close> r(3) by simp
    qed (use r f in simp_all)
    ultimately show ?thesis
      by simp
  next
    case False
    then have "and_then_write r f = Inr (False, w')"
      using r(1) by (simp add: and_then_write_def)
    moreover have "progresses w rs (ds @ es) (Inr (False, w'))"
      by (rule progressesI [OF r(2,3)]) (use r(4) False in auto)
    ultimately show ?thesis
      by simp
  qed
qed

lemma Flush_buffer_progresses:
  assumes "writer_inv w rs" "rs \<noteq> []"
  shows "progresses w rs [] (FlushFromExternalBuffer (w_record_buffer w) w)"
proof -
  have l: "loaded w rs" "fits rs" "w_record_buffer w = concat rs" "services_bounded (w_services w) (w_compression_codec w)"
    using writer_inv_loaded [OF assms] assms(1) by (simp_all add: writer_inv_def)
  have fl: "flushes w (FlushFromExternalBuffer (concat rs) w) (block_of w rs)"
    by (rule FlushFromExternalBuffer_flushes [OF l(1,2,4)])
  then obtain ok w' where r: "FlushFromExternalBuffer (concat rs) w = Inr (ok, w')"
    by (auto elim!: flushesE)
  note p = flushes_progresses [OF fl l(4) assms(2) l(2) r]
  show ?thesis
  proof (cases ok)
    case True
    then show ?thesis
      using p l(2) assms(2) unfolding l(3) r by (intro progressesI [of _ "[]" _ _ "[rs]"]) simp_all
  next
    case False
    then show ?thesis
      using p assms(1) writer_inv_core [of w' w] unfolding l(3) r by (intro progressesI [of _ rs]) simp_all
  qed
qed

lemma flush_empties:
  assumes "writer_inv w rs" "rs \<noteq> []" "FlushFromExternalBuffer (w_record_buffer w) w = Inr (True, w')"
  shows "w_records w' = 0"
proof -
  have "w_record_buffer w = concat rs" "services_bounded (w_services w) (w_compression_codec w)"
    using assms(1) by (simp_all add: writer_inv_def)
  then show ?thesis
    using FlushFromExternalBuffer_flushes [of w rs] writer_inv_loaded [OF assms(1,2)] assms(3)
    by (auto simp: flushes_def core_def reset_writer_def)
qed

lemma progresses_skip: "writer_inv w rs \<Longrightarrow> progresses w rs [] (Inr (True, w))"
  by (rule progressesI [where gs = "[]"]) simp_all

lemma WriteRecord_progresses:
  assumes "writer_inv w rs" "length d \<le> kMaxRecordSize"
  shows "progresses w rs [d] (WriteRecord d w)"
proof -
  obtain flush where fl: "flush_needed (length d) w = Inr flush" "flush \<Longrightarrow> rs \<noteq> []"
    "\<not> flush \<Longrightarrow> rs \<noteq> [] \<Longrightarrow> length (concat rs) + length d < kRecordBufferSize \<and>
      length (size_bytes rs) + length (varint (length d)) < kRecordSizeBufferSize"
    using assms by (rule flush_needed_eq) blast
  show ?thesis
  proof (cases flush)
    case True
    have "progresses w rs ([] @ [d]) (and_then_write (FlushFromExternalBuffer (w_record_buffer w) w) (take_record d))"
    proof (rule progresses_then [OF Flush_buffer_progresses [OF assms(1) fl(2) [OF True]]])
      fix w' rs'
      assume inv: "writer_inv w' rs'" and "FlushFromExternalBuffer (w_record_buffer w) w = Inr (True, w')"
      then have "rs' = []"
        using flush_empties [OF assms(1) fl(2) [OF True]] by (simp add: writer_inv_def)
      then show "progresses w' rs' [d] (take_record d w')"
        using take_record_progresses [OF inv assms(2)] by simp
    qed
    then show ?thesis
      using True fl(1) assms(2) by (simp add: WriteRecord_def)
  next
    case False
    then have "WriteRecord d w = take_record d w"
      using fl(1) assms(2) by (simp add: WriteRecord_def and_then_write_def)
    then show ?thesis
      using take_record_progresses [OF assms] fl(3) False by simp
  qed
qed

lemma Flush_progresses:
  assumes "writer_inv w rs"
  shows "progresses w rs [] (Flush w)" "Flush w = Inr (True, w') \<Longrightarrow> writer_inv w' []"
proof -
  let ?r = "if w_records w > 0 then FlushFromExternalBuffer (w_record_buffer w) w else Inr (True, w)"
  have r: "progresses w rs [] ?r"
    using assms Flush_buffer_progresses [OF assms] progresses_skip [OF assms] by (auto simp: writer_inv_def)
  have stream: "core w2 = core w1" "w_output w2 = w_output w1" "w_faults w1 = [] \<Longrightarrow> ok \<and> w_faults w2 = []"
    if "FlushStream w1 = (ok, w2)" for w1 w2 ok
    using that by (auto simp: FlushStream_def core_def split: list.splits option.splits)
  have step: "progresses w1 rs1 [] (Inr (FlushStream w1))" if "writer_inv w1 rs1" for w1 rs1
  proof -
    obtain ok w2 where e: "FlushStream w1 = (ok, w2)"
      by fastforce
    show ?thesis
      unfolding e using stream [OF e] that writer_inv_core [OF stream(1) [OF e]] block_of_core [OF stream(1) [OF e]]
      by (intro progressesI [of _ rs1 _ _ "[]"]) simp_all
  qed
  have "progresses w rs ([] @ []) (Flush w)"
    unfolding Flush_def by (rule progresses_then [OF r step])
  then show "progresses w rs [] (Flush w)"
    by simp
  assume f: "Flush w = Inr (True, w')"
  obtain w1 where "?r = Inr (True, w1)" and w1: "FlushStream w1 = (True, w')"
    using f r unfolding Flush_def and_then_write_def by (auto simp: bindR_eq_Inr split: if_splits)
  then have "w_records w1 = 0"
    using flush_empties [OF assms] assms by (auto simp: writer_inv_def split: if_splits)
  obtain gs rs1 where "writer_inv w1 rs1"
    using r \<open>?r = Inr (True, w1)\<close> by (auto simp: progresses_def)
  then have "writer_inv w1 []"
    using \<open>w_records w1 = 0\<close> by (auto simp: writer_inv_def)
  then show "writer_inv w' []"
    using writer_inv_core [OF stream(1) [OF w1]] by simp
qed

section \<open>Sequences of calls\<close>

text \<open>Any calls in any order, whether they succeed or not; and the calls of a client that stops at the first failure.\<close>

inductive writer_step :: "writer \<Rightarrow> writer \<Rightarrow> bool" where
  write_record: "WriteRecord d w = Inr (ok, w') \<Longrightarrow> writer_step w w'"
| write_message: "WriteMessage initialized serialized w = Inr (ok, w') \<Longrightarrow> writer_step w w'"
| flush: "Flush w = Inr (ok, w') \<Longrightarrow> writer_step w w'"

fun WriteRecords :: "buffer list \<Rightarrow> writer \<Rightarrow> (bool \<times> writer) result" where
  "WriteRecords [] w = Inr (True, w)"
| "WriteRecords (d # ds) w = and_then_write (WriteRecord d w) (WriteRecords ds)"

lemma WriteRecord_total:
  assumes "writer_inv w rs" "\<not> debug_checks (w_services w) \<or> length d \<le> kMaxRecordSize"
  obtains ok w' rs' where "WriteRecord d w = Inr (ok, w')" "writer_inv w' rs'"
proof (cases "length d \<le> kMaxRecordSize")
  case True
  then show ?thesis
    using WriteRecord_progresses [OF assms(1) True] that by (auto elim: progresses_Inr)
qed (use that assms in \<open>simp add: WriteRecord_def\<close>)

lemma WriteMessage_total:
  assumes "writer_inv w rs"
  obtains ok w' rs' where "WriteMessage initialized serialized w = Inr (ok, w')" "writer_inv w' rs'"
proof (cases "initialized \<and> (\<exists>out. serialized = Some out \<and> length out \<le> kMaxRecordSize)")
  case True
  then obtain out where "WriteMessage initialized serialized w = WriteRecord out w" "length out \<le> kMaxRecordSize"
    by (auto simp: WriteMessage_def)
  then show ?thesis
    using WriteRecord_total [OF assms, of out] that by metis
next
  case False
  then have "WriteMessage initialized serialized w = Inr (False, w)"
    by (auto simp: WriteMessage_def split: option.splits)
  then show ?thesis
    using that assms by blast
qed

lemma Flush_total:
  assumes "writer_inv w rs"
  obtains ok w' rs' where "Flush w = Inr (ok, w')" "writer_inv w' rs'"
  using Flush_progresses(1) [OF assms] that by (auto elim: progresses_Inr)

lemma writer_step_inv:
  assumes "writer_step w w'" "\<exists>rs. writer_inv w rs"
  shows "\<exists>rs. writer_inv w' rs"
  using assms
proof (cases rule: writer_step.cases)
  case (write_record d ok)
  then have "\<not> debug_checks (w_services w) \<or> length d \<le> kMaxRecordSize"
    by (auto simp: WriteRecord_def not_less split: if_splits)
  then show ?thesis
    using assms(2) write_record WriteRecord_total by (metis Pair_inject sum.inject(2))
next
  case (write_message initialized serialized ok)
  then show ?thesis
    using assms(2) WriteMessage_total by (metis Pair_inject sum.inject(2))
next
  case (flush ok)
  then show ?thesis
    using assms(2) Flush_total by (metis Pair_inject sum.inject(2))
qed

lemma writer_inv_init:
  "services_bounded s (if ct > 0 then CreateCodec s ct else None) \<Longrightarrow> writer_inv (RecordWriter_Initialize s ct fs) []"
  by (auto simp: writer_inv_def RecordWriter_Initialize_def size_bytes_def size_tag_def buffer_sizes_kb)


text \<open>
  Services that keep the promises: libraries that store their input, and a serialiser with two fields of four bytes.
\<close>

definition storing_services :: "bool \<Rightarrow> services" where
  "storing_services debug =
     \<lparr>zlib_deflate = copy_in, zlib_inflate = copy_in, gzip_deflate = copy_in, gzip_inflate = copy_in,
      snappy_MaxCompressedLength = id, snappy_Compress = id, snappy_GetUncompressedLength = (\<lambda>p. Some (length p)),
      snappy_RawUncompress = id, lzo1x_1_compress = Some, lzo1x_decompress = Some, qlz_compress = id,
      qlz_decompress = id, bmz_pack = copy_in, bmz_unpack = copy_in,
      SerializeToString = (\<lambda>h. case h of None \<Rightarrow> []
        | Some (t, n) \<Rightarrow> le_bytes 4 (word_of_nat t :: 32 word) @ le_bytes 4 (word_of_nat n :: 32 word)),
      ParseFromArray = (\<lambda>bs. if bs = [] then Some None
        else Some (Some (unat (le_word (take 4 bs) :: 32 word), unat (le_word (drop 4 bs) :: 32 word)))),
      debug_checks = debug\<rparr>"

lemma storing_services_bounded: "library_bounded (storing_services debug)"
  by (auto simp: storing_services_def library_bounded_def compressors_bounded_def copy_in_def split: option.splits)


lemma WriteRecords_progresses:
  "writer_inv w rs \<Longrightarrow> \<forall>d \<in> set ds. length d \<le> kMaxRecordSize \<Longrightarrow> progresses w rs ds (WriteRecords ds w)"
proof (induction ds arbitrary: w rs)
  case Nil
  then show ?case
    by (simp add: progresses_skip)
next
  case (Cons d ds)
  have "progresses w rs ([d] @ ds) (and_then_write (WriteRecord d w) (WriteRecords ds))"
    using Cons by (intro progresses_then WriteRecord_progresses) simp_all
  then show ?case
    by simp
qed

lemma written_blocks:
  assumes "services_bounded services (if codec_type > 0 then CreateCodec services codec_type else None)"
    and "\<forall>d \<in> set ds. length d \<le> kMaxRecordSize"
  obtains w gs where
    "and_then_write (WriteRecords ds (RecordWriter_Initialize services codec_type [])) Flush = Inr (True, w)"
    "concat gs = ds" "\<forall>g \<in> set gs. g \<noteq> [] \<and> fits g"
    "w_output w = concat (map (block services codec_type (if codec_type > 0 then CreateCodec services codec_type else None)) gs)"
proof -
  let ?w = "RecordWriter_Initialize services codec_type []"
  have inv: "writer_inv ?w []"
    by (rule writer_inv_init [OF assms(1)])
  have "progresses ?w [] (ds @ []) (and_then_write (WriteRecords ds ?w) Flush)"
    by (rule progresses_then [OF WriteRecords_progresses [OF inv assms(2)]]) (rule Flush_progresses(1))
  then obtain ok w gs rs where r: "and_then_write (WriteRecords ds ?w) Flush = Inr (ok, w)" "writer_inv w rs"
    "w_faults ?w = [] \<Longrightarrow> ok \<and> w_faults w = []"
    "ok \<Longrightarrow> concat gs @ rs = [] @ ds @ [] \<and> (\<forall>g \<in> set gs. g \<noteq> [] \<and> fits g) \<and>
             w_output w = w_output ?w @ concat (map (block_of ?w) gs)"
    by (rule progresses_Inr) blast
  then have ok: "ok"
    by (simp add: RecordWriter_Initialize_def)
  obtain w1 where "WriteRecords ds ?w = Inr (True, w1)" "Flush w1 = Inr (True, w)"
    using r(1) ok by (auto simp: and_then_write_def bindR_eq_Inr split: if_splits)
  moreover obtain rs1 where "writer_inv w1 rs1"
    using WriteRecords_progresses [OF inv assms(2)] calculation(1) by (auto simp: progresses_def)
  ultimately have "writer_inv w []"
    using Flush_progresses(2) by blast
  then have "length rs = length ([] :: buffer list)"
    using r(2) unfolding writer_inv_def by metis
  then have "concat gs = ds" "\<forall>g \<in> set gs. g \<noteq> [] \<and> fits g" "w_output w = concat (map (block_of ?w) gs)"
    using r(4) [OF ok] by (simp_all add: RecordWriter_Initialize_def)
  moreover have "block_of ?w = block services codec_type (if codec_type > 0 then CreateCodec services codec_type else None)"
    by (simp add: RecordWriter_Initialize_def)
  ultimately show ?thesis
    using that [of w gs] r(1) ok by simp
qed

end
