(* ===== verification/Record_Reader.thy ===== *)
theory Record_Reader
  imports Record_Writer
begin

unbundle bit_operations_syntax

text \<open>
  \<^verbatim>\<open>RecordReader\<close> of \<^verbatim>\<open>app/qzap/common/recordio/recordio.cc\<close>: it looks for the next block with a valid header
  in a buffered stream, checks the body, and hands out the records of the block one by one. The loops that look for
  a block are shown to end because each round uses up bytes of the stream.
\<close>

section \<open>State\<close>

datatype reader_state = STATE_START | STATE_VALID_HEADER | STATE_VALID_BLOCK

text \<open>
  The stream is a list of the chunks that the following reads can return at most; an empty chunk is a read that finds
  nothing yet. \<open>r_local\<close> holds the valid part of the local buffer, up to \<^verbatim>\<open>m_local_buffer_end\<close>, and \<open>r_ptr\<close> is the
  offset of \<^verbatim>\<open>m_local_buffer_ptr\<close>. The pointers into the block body are offsets into the local buffer, or into the
  uncompressed buffer if \<open>r_body_local\<close> is false.
\<close>

record reader =
  r_services :: services
  r_stream :: "buffer list"
  r_resume :: bool
  r_end :: int
  r_pos :: int
  r_last_block :: bool
  r_state :: reader_state
  r_block_type :: "8 word"
  r_block_header_size :: int
  r_with_extent_proto_header :: bool
  r_block_body_size :: int
  r_block_body_end :: nat
  r_record_size :: int
  r_records :: int
  r_record_size_end :: int
  r_record_size_ptr :: int
  r_local :: buffer
  r_capacity :: nat
  r_ptr :: nat
  r_uncompressed_buffer :: buffer
  r_uncompressed_buffer_capacity :: nat
  r_body_local :: bool
  r_body_ptr :: int
  r_body_end :: int
  r_checksum_state :: "32 word"
  r_buffer_end_position :: int
  r_current_block_position :: int
  r_skipped_bytes :: int
  r_accumulated_skipped_bytes :: int
  r_skipped_records :: nat
  r_accumulated_skipped_records :: nat
  r_compression_codec :: "(nat \<times> codec) option"

text \<open>
  \<^verbatim>\<open>m_block_header_size\<close> is not initialised by the code; the zero here is not read before the first header sets it.
\<close>

definition RecordReader_Initialize :: "services \<Rightarrow> buffer list \<Rightarrow> bool \<Rightarrow> reader" where
  "RecordReader_Initialize services stream resume =
     \<lparr>r_services = services, r_stream = stream, r_resume = resume, r_end = - 1, r_pos = - 1, r_last_block = False,
      r_state = STATE_START, r_block_type = BLOCK_TYPE_SINGLE, r_block_header_size = 0,
      r_with_extent_proto_header = False, r_block_body_size = 0, r_block_body_end = 0, r_record_size = 0,
      r_records = 0, r_record_size_end = 0, r_record_size_ptr = 0, r_local = [], r_capacity = 0, r_ptr = 0,
      r_uncompressed_buffer = [], r_uncompressed_buffer_capacity = 0, r_body_local = True, r_body_ptr = 0,
      r_body_end = 0, r_checksum_state = crc_init, r_buffer_end_position = 0, r_current_block_position = 0,
      r_skipped_bytes = 0, r_accumulated_skipped_bytes = 0,
      r_skipped_records = 0, r_accumulated_skipped_records = 0, r_compression_codec = None\<rparr>"

text \<open>A range of the file: the stream is moved to its start. Seeking to a negative offset fails the check.\<close>

definition OptionInitialize :: "int \<Rightarrow> int \<Rightarrow> reader \<Rightarrow> reader result" where
  "OptionInitialize start end' r =
     (let r = r\<lparr>r_pos := start, r_end := end'\<rparr>
      in if start = - 1 \<and> end' = - 1 then Inr r
         else if end' < start \<or> start < 0 then Inl Assertion_failed
         else Inr (r\<lparr>r_stream := [drop (nat start) (concat (r_stream r))]\<rparr>))"

definition available :: "reader \<Rightarrow> nat" where
  "available r = length (r_local r) - r_ptr r"

definition BufferPointerPosition :: "reader \<Rightarrow> int" where
  "BufferPointerPosition r = r_buffer_end_position r - int (available r)"

section \<open>Reading from the stream\<close>

definition ReadFromStream :: "nat \<Rightarrow> buffer list \<Rightarrow> buffer \<times> buffer list" where
  "ReadFromStream size' stream =
     (if size' = 0 then ([], stream)
      else case stream of
          [] \<Rightarrow> ([], [])
        | c # cs \<Rightarrow> (take size' c, if size' < length c then drop size' c # cs else cs))"

lemma ReadFromStream_length: "ReadFromStream n s = (d, s') \<Longrightarrow> length d \<le> n"
  by (auto simp: ReadFromStream_def split: if_splits list.splits)

text \<open>The loop that fills the local buffer ends when it is full or a read returns nothing.\<close>

function fill_loop :: "nat \<Rightarrow> buffer list \<Rightarrow> buffer \<times> buffer list" where
  "fill_loop left stream =
     (case ReadFromStream left stream of (d, stream') \<Rightarrow>
        if d = [] \<or> length d = left then (d, stream')
        else case fill_loop (left - length d) stream' of (rest, stream'') \<Rightarrow> (d @ rest, stream''))"
  by pat_completeness auto
termination
  by (relation "measure fst") (auto dest!: ReadFromStream_length [OF sym] simp: le_eq_less_or_eq)

declare fill_loop.simps [simp del]

text \<open>Room for \<open>bytes_at_least\<close> bytes behind the pointer: a larger buffer, or the rest moved to its start.\<close>

definition make_room :: "int \<Rightarrow> reader \<Rightarrow> reader" where
  "make_room bytes_at_least r =
     (if int (r_capacity r) < bytes_at_least
      then r\<lparr>r_capacity := ComputeLocalBufferSize (nat bytes_at_least), r_local := drop (r_ptr r) (r_local r), r_ptr := 0\<rparr>
      else if available r = 0 \<or> int (r_capacity r) - int (r_ptr r) < bytes_at_least
      then r\<lparr>r_local := drop (r_ptr r) (r_local r), r_ptr := 0\<rparr>
      else r)"

definition PreloadBufferAtLeast :: "int \<Rightarrow> reader \<Rightarrow> bool \<times> reader" where
  "PreloadBufferAtLeast bytes_at_least r =
     (if int (available r) < bytes_at_least then
        (let r = make_room bytes_at_least r;
             (d, stream) = fill_loop (r_capacity r - length (r_local r)) (r_stream r);
             r = r\<lparr>r_local := r_local r @ d, r_stream := stream,
                   r_buffer_end_position := r_buffer_end_position r + int (length d)\<rparr>
         in (bytes_at_least \<le> int (available r), r))
      else (True, r))"

section \<open>Looking for a block header\<close>

function seek_magic :: "reader \<Rightarrow> bool \<times> reader" where
  "seek_magic r =
     (if length (r_local r) > r_ptr r + length kBlockHeaderMagic then
        if GetUnaligned32 (drop (r_ptr r) (r_local r)) = GetUnaligned32 kBlockHeaderMagic then (True, r)
        else seek_magic (r\<lparr>r_ptr := r_ptr r + 1, r_accumulated_skipped_bytes := r_accumulated_skipped_bytes r + 1\<rparr>)
      else (False, r))"
  by pat_completeness auto
termination
  by (relation "measure (\<lambda>r. length (r_local r) - r_ptr r)") auto

declare seek_magic.simps [simp del]

definition skip_magic :: "reader \<Rightarrow> reader" where
  "skip_magic r =
     r\<lparr>r_accumulated_skipped_bytes := r_accumulated_skipped_bytes r + int (length kBlockHeaderMagic)\<rparr>"

text \<open>
  What follows the magic number: the block type, the body size and the checksum of the header. The result says whether
  the header is valid; its bytes are only consumed if it is.
\<close>

definition parse_checksum :: "nat \<Rightarrow> reader \<Rightarrow> (bool \<times> reader) result" where
  "parse_checksum decode_length r =
     (let temp_buffer_ptr = r_ptr r + 1 + decode_length;
          r = r\<lparr>r_checksum_state :=
                UpdateCRC32 (slice (r_local r) (r_ptr r) (1 + decode_length)) (r_checksum_state r)\<rparr>
      in bindR (GetUnaligned16 (drop temp_buffer_ptr (r_local r))) (\<lambda>header_checksum.
           if header_checksum \<noteq> CRC32Hash32ToHash16 (r_checksum_state r) then Inr (False, skip_magic r)
           else Inr (True,
             r\<lparr>r_block_header_size := int (length kBlockHeaderMagic + (temp_buffer_ptr + 2 - r_ptr r)),
               r_ptr := temp_buffer_ptr + 2, r_state := STATE_VALID_HEADER\<rparr>)))"

definition parse_size :: "reader \<Rightarrow> (bool \<times> reader) result" where
  "parse_size r =
     bindR (DecodeLength (drop (r_ptr r + 1) (r_local r)) (length (r_local r) - (r_ptr r + 1)))
       (\<lambda>(decode_length, block_body_size).
         let r = r\<lparr>r_block_body_size := block_body_size\<rparr>
         in if decode_length \<le> 0 \<or> block_body_size > int kMaxRecordSize then Inr (False, skip_magic r)
            else parse_checksum (nat decode_length) r)"

definition parse_header :: "reader \<Rightarrow> (bool \<times> reader) result" where
  "parse_header r =
     bindR (checked_nth (r_local r) (r_ptr r)) (\<lambda>ty.
       let r = r\<lparr>r_with_extent_proto_header := (ty AND BLOCK_TYPE_EXTENT_PROTO_HEADER \<noteq> 0),
                 r_block_type := ty AND kBlockTypeMask\<rparr>
       in if r_block_type r \<noteq> BLOCK_TYPE_FIXED \<and> r_block_type r \<noteq> BLOCK_TYPE_VARIABLE \<and>
             r_block_type r \<noteq> BLOCK_TYPE_SINGLE
          then Inr (False, skip_magic r)
          else parse_size r)"

definition enter_header :: "reader \<Rightarrow> reader" where
  "enter_header r =
     r\<lparr>r_current_block_position := BufferPointerPosition r, r_ptr := r_ptr r + length kBlockHeaderMagic,
       r_checksum_state := UpdateCRC32 kBlockHeaderMagic crc_init\<rparr>"

subsection \<open>Each round uses up bytes\<close>

definition bytes_left :: "reader \<Rightarrow> nat" where
  "bytes_left r = available r + length (concat (r_stream r))"

lemma ReadFromStream_bytes: "ReadFromStream n s = (d, s') \<Longrightarrow> length d + length (concat s') = length (concat s)"
  by (auto simp: ReadFromStream_def split: if_splits list.splits)

lemma fill_loop_bytes: "fill_loop n s = (d, s') \<Longrightarrow> length d + length (concat s') = length (concat s)"
proof (induction n s arbitrary: d s' rule: fill_loop.induct)
  case (1 n s)
  obtain e t where e: "ReadFromStream n s = (e, t)"
    by fastforce
  show ?case
  proof (cases "e = [] \<or> length e = n")
    case True
    then show ?thesis
      using "1.prems" e ReadFromStream_bytes [OF e] by (auto simp: fill_loop.simps [of n s])
  next
    case False
    obtain rest u where m: "fill_loop (n - length e) t = (rest, u)"
      by fastforce
    have "length rest + length (concat u) = length (concat t)"
      using "1.IH" [OF e [symmetric]] False m by simp
    then show ?thesis
      using "1.prems" e m False ReadFromStream_bytes [OF e] by (auto simp: fill_loop.simps [of n s])
  qed
qed

lemma make_room_bytes:
  "available (make_room n r) = available r" "r_stream (make_room n r) = r_stream r" "r_state (make_room n r) = r_state r"
  "r_ptr (make_room n r) \<le> length (r_local (make_room n r))"
  by (auto simp: make_room_def available_def)

lemma Preload_bytes:
  assumes "PreloadBufferAtLeast n r = (ok, r')"
  shows "bytes_left r' = bytes_left r" "ok \<Longrightarrow> n \<le> int (available r')" "r_state r' = r_state r"
proof -
  have "bytes_left r' = bytes_left r \<and> (ok \<longrightarrow> n \<le> int (available r')) \<and> r_state r' = r_state r"
  proof (cases "int (available r) < n")
    case True
    let ?r = "make_room n r"
    obtain d s where f: "fill_loop (r_capacity ?r - length (r_local ?r)) (r_stream ?r) = (d, s)"
      by fastforce
    have "r' = ?r\<lparr>r_local := r_local ?r @ d, r_stream := s, r_buffer_end_position := r_buffer_end_position ?r + int (length d)\<rparr>"
      "ok \<longleftrightarrow> n \<le> int (available r')"
      using assms True f by (auto simp: PreloadBufferAtLeast_def Let_def)
    then show ?thesis
      using fill_loop_bytes [OF f] make_room_bytes [of n r] by (auto simp: bytes_left_def available_def)
  qed (use assms in \<open>auto simp: PreloadBufferAtLeast_def\<close>)
  then show "bytes_left r' = bytes_left r" "ok \<Longrightarrow> n \<le> int (available r')" "r_state r' = r_state r"
    by auto
qed

lemma seek_magic_bytes:
  assumes "seek_magic r = (found, r')"
  shows "bytes_left r' \<le> bytes_left r" "\<not> found \<Longrightarrow> available r' \<le> 4" "found \<Longrightarrow> 4 < available r'"
    "r_stream r' = r_stream r" "r_state r' = r_state r"
proof -
  have "bytes_left r' \<le> bytes_left r \<and> (if found then 4 < available r' else available r' \<le> 4) \<and>
    r_stream r' = r_stream r \<and> r_state r' = r_state r"
    using assms
  proof (induction r rule: seek_magic.induct)
    case (1 r)
    then show ?case
      by (auto simp: seek_magic.simps [of r] bytes_left_def available_def kBlockHeaderMagic_def split: if_splits)
  qed
  then show "bytes_left r' \<le> bytes_left r" "\<not> found \<Longrightarrow> available r' \<le> 4" "found \<Longrightarrow> 4 < available r'"
    "r_stream r' = r_stream r" "r_state r' = r_state r"
    by auto
qed

definition shrinks :: "reader \<Rightarrow> bool \<times> reader \<Rightarrow> bool" where
  "shrinks r p \<longleftrightarrow>
     bytes_left (snd p) \<le> bytes_left r \<and> r_state (snd p) = (if fst p then STATE_VALID_HEADER else r_state r)"

lemma parse_checksum_bytes:
  assumes "parse_checksum n r = Inr p"
  shows "shrinks r p"
  using assms
  by (cases p) (auto simp: parse_checksum_def shrinks_def bindR_eq_Inr Let_def skip_magic_def bytes_left_def
      available_def split: if_splits)

lemma parse_size_bytes:
  assumes "parse_size r = Inr p"
  shows "shrinks r p"
proof -
  obtain n v where p: "(let r' = r\<lparr>r_block_body_size := v\<rparr>
      in if n \<le> 0 \<or> v > int kMaxRecordSize then Inr (False, skip_magic r') else parse_checksum (nat n) r') = Inr p"
    using assms by (auto simp: parse_size_def bindR_eq_Inr)
  show ?thesis
    using p parse_checksum_bytes [of "nat n" "r\<lparr>r_block_body_size := v\<rparr>" p]
    by (auto simp: shrinks_def Let_def skip_magic_def bytes_left_def available_def split: if_splits)
qed

lemma parse_header_bytes:
  assumes "parse_header r = Inr p"
  shows "shrinks r p"
proof -
  obtain e ty where p: "(let r' = r\<lparr>r_with_extent_proto_header := e, r_block_type := ty\<rparr>
      in if ty \<noteq> BLOCK_TYPE_FIXED \<and> ty \<noteq> BLOCK_TYPE_VARIABLE \<and> ty \<noteq> BLOCK_TYPE_SINGLE
         then Inr (False, skip_magic r') else parse_size r') = Inr p"
    using assms by (auto simp: parse_header_def bindR_eq_Inr Let_def)
  show ?thesis
    using p parse_size_bytes [of "r\<lparr>r_with_extent_proto_header := e, r_block_type := ty\<rparr>" p]
    by (auto simp: shrinks_def Let_def skip_magic_def bytes_left_def available_def split: if_splits)
qed

lemma enter_header_bytes:
  "4 < available r \<Longrightarrow> bytes_left (enter_header r) < bytes_left r" "r_state (enter_header r) = r_state r"
  by (simp_all add: enter_header_def bytes_left_def available_def kBlockHeaderMagic_def)

function TryReadNextBlockHeader_loop :: "reader \<Rightarrow> (bool \<times> reader) result" where
  "TryReadNextBlockHeader_loop r =
     (case PreloadBufferAtLeast (int kMinBlockSize) r of (ok, r1) \<Rightarrow>
        if \<not> ok then Inr (False, r1)
        else case seek_magic r1 of (found, r2) \<Rightarrow>
          if \<not> found then TryReadNextBlockHeader_loop r2
          else case PreloadBufferAtLeast (int kMinBlockSize) r2 of (ok, r3) \<Rightarrow>
            if \<not> ok then Inr (False, r3)
            else case parse_header (enter_header r3) of
                Inl e \<Rightarrow> Inl e
              | Inr (valid, r4) \<Rightarrow> if valid then Inr (True, r4) else TryReadNextBlockHeader_loop r4)"
  by pat_completeness auto
termination
proof (relation "measure bytes_left", simp, goal_cases)
  case (1 r ok r1 found r2)
  have "13 \<le> available r1" "bytes_left r1 = bytes_left r"
    using Preload_bytes [OF 1(1) [symmetric]] 1(2) by (simp_all add: kMinBlockSize_def)
  moreover have "available r2 \<le> 4" "r_stream r2 = r_stream r1"
    using seek_magic_bytes [OF 1(3) [symmetric]] 1(4) by simp_all
  ultimately show ?case
    by (simp add: bytes_left_def)
next
  case (2 r ok r1 found r2 ok' r3 s valid r4)
  have "bytes_left r1 = bytes_left r" "bytes_left r2 \<le> bytes_left r1" "bytes_left r3 = bytes_left r2"
    "13 \<le> available r3"
    using Preload_bytes [OF 2(1) [symmetric]] seek_magic_bytes [OF 2(3) [symmetric]]
      Preload_bytes [OF 2(5) [symmetric]] 2 by (simp_all add: kMinBlockSize_def)
  moreover have "bytes_left r4 \<le> bytes_left (enter_header r3)"
    using parse_header_bytes [of "enter_header r3" "(valid, r4)"] 2 by (simp add: shrinks_def)
  ultimately show ?case
    using enter_header_bytes(1) [of r3] by simp
qed

declare TryReadNextBlockHeader_loop.simps [simp del]

definition TryReadNextBlockHeader :: "reader \<Rightarrow> (bool \<times> reader) result" where
  "TryReadNextBlockHeader r =
     (if r_state r \<noteq> STATE_START then Inl Assertion_failed else TryReadNextBlockHeader_loop r)"

lemma TryReadNextBlockHeader_bytes:
  assumes "TryReadNextBlockHeader_loop r = Inr (True, r')"
  shows "bytes_left r' < bytes_left r"
  using assms
proof (induction r rule: TryReadNextBlockHeader_loop.induct)
  case (1 r)
  obtain ok r1 where a: "PreloadBufferAtLeast (int kMinBlockSize) r = (ok, r1)" by fastforce
  obtain found r2 where b: "seek_magic r1 = (found, r2)" by fastforce
  obtain ok2 r3 where c: "PreloadBufferAtLeast (int kMinBlockSize) r2 = (ok2, r3)" by fastforce
  note facts = Preload_bytes [OF a] seek_magic_bytes [OF b] Preload_bytes [OF c]
  have ok: "ok"
    using "1.prems" a by (cases ok) (simp_all add: TryReadNextBlockHeader_loop.simps [of r])
  show ?case
  proof (cases found)
    case True
    then obtain p where p: "ok2" "parse_header (enter_header r3) = Inr p"
      and res: "(if fst p then Inr (True, snd p) else TryReadNextBlockHeader_loop (snd p)) = Inr (True, r')"
      using "1.prems" a b c ok by (auto simp: TryReadNextBlockHeader_loop.simps [of r] split: sum.splits if_splits prod.splits)
    have "bytes_left (snd p) < bytes_left r"
      using facts p parse_header_bytes [OF p(2)] enter_header_bytes(1) [of r3] by (simp add: shrinks_def kMinBlockSize_def)
    moreover have "bytes_left r' < bytes_left (snd p)" if "\<not> fst p"
      by (rule "1.IH"(2) [OF a [symmetric] _ b [symmetric] _ c [symmetric] _ p(2), of "fst p"])
        (use res that ok True p(1) in \<open>simp_all add: prod_eq_iff\<close>)
    ultimately show ?thesis
      using res by (cases "fst p") auto
  next
    case False
    then have "bytes_left r' < bytes_left r2"
      using "1.IH"(1) [OF a [symmetric] _ b [symmetric]] "1.prems" a b ok by (simp add: TryReadNextBlockHeader_loop.simps [of r])
    then show ?thesis
      using facts by simp
  qed
qed

section \<open>Reading a block\<close>

subsection \<open>The extent header\<close>

definition read_extent_header :: "reader \<Rightarrow> (extent_header \<times> int \<times> reader) result" where
  "read_extent_header r =
     (if \<not> r_with_extent_proto_header r then Inr (None, 0, r)
      else bindR (DecodeLength (drop (r_ptr r) (r_local r)) (length (r_local r) - r_ptr r))
        (\<lambda>(decode_length, extent_header_size).
          if decode_length \<le> 0 then Inl Assertion_failed
          else (let r = r\<lparr>r_ptr := r_ptr r + nat decode_length\<rparr>
                in if extent_header_size < 0 \<or> r_ptr r + nat extent_header_size > length (r_local r) then Inl Out_of_bounds
                   else case ParseFromArray (r_services r) (slice (r_local r) (r_ptr r) (nat extent_header_size)) of
                       None \<Rightarrow> Inl Assertion_failed
                     | Some h \<Rightarrow> Inr (h, decode_length + extent_header_size,
                                    r\<lparr>r_ptr := r_ptr r + nat extent_header_size\<rparr>))))"

definition ensure_codec :: "nat \<Rightarrow> reader \<Rightarrow> reader" where
  "ensure_codec codec_type r =
     (if r_compression_codec r = None \<or> fst (the (r_compression_codec r)) \<noteq> codec_type
      then r\<lparr>r_compression_codec := map_option (Pair codec_type) (CreateCodec (r_services r) codec_type)\<rparr>
      else r)"

definition uncompress_body :: "nat \<Rightarrow> nat \<Rightarrow> int \<Rightarrow> reader \<Rightarrow> reader result" where
  "uncompress_body codec_type uncompressed_size input_size r =
     (let r = (if r_uncompressed_buffer_capacity r < uncompressed_size
               then r\<lparr>r_uncompressed_buffer_capacity := uncompressed_size, r_uncompressed_buffer := []\<rparr> else r);
          r = ensure_codec codec_type r
      in case r_compression_codec r of
          None \<Rightarrow> Inl Uninitialised
        | Some (_, codec) \<Rightarrow>
            if input_size < 0 \<or> r_ptr r + nat input_size > length (r_local r) then Inl Out_of_bounds
            else bindR (Inflate codec (slice (r_local r) (r_ptr r) (nat input_size)) uncompressed_size) (\<lambda>res. case res of
                None \<Rightarrow> Inl Assertion_failed
              | Some out \<Rightarrow> Inr (r\<lparr>r_uncompressed_buffer := out, r_body_local := False, r_body_ptr := 0,
                                 r_body_end := int (length out)\<rparr>)))"

definition ProcessExtentHeader :: "reader \<Rightarrow> reader result" where
  "ProcessExtentHeader r =
     bindR (read_extent_header r) (\<lambda>(h, extent_header_buffer_size, r).
       let rest = r_block_body_size r - extent_header_buffer_size
       in bindR (case h of
             Some (codec_type, uncompressed_size) \<Rightarrow> uncompress_body codec_type uncompressed_size rest r
           | None \<Rightarrow> Inr (r\<lparr>r_body_local := True, r_body_ptr := int (r_ptr r), r_body_end := int (r_ptr r) + rest\<rparr>))
         (\<lambda>r. Inr (r\<lparr>r_ptr := nat (int (r_ptr r) + rest)\<rparr>)))"

subsection \<open>The body\<close>

definition body_buffer :: "reader \<Rightarrow> buffer" where
  "body_buffer r = (if r_body_local r then r_local r else r_uncompressed_buffer r)"

text \<open>Decoding between two pointers into the body; their difference is converted to an unsigned size.\<close>

definition DecodeLengthAt :: "int \<Rightarrow> int \<Rightarrow> reader \<Rightarrow> (int \<times> int) result" where
  "DecodeLengthAt start stop r =
     (if start < 0 then Inl Out_of_bounds
      else DecodeLength (drop (nat start) (body_buffer r)) (nat ((stop - start) mod 2 ^ 64)))"

definition open_fixed :: "reader \<Rightarrow> reader result" where
  "open_fixed r =
     bindR (DecodeLengthAt (r_body_ptr r) (r_body_end r) r) (\<lambda>(decode_length, record_size).
       if decode_length \<le> 0 then Inl Assertion_failed
       else (let r = r\<lparr>r_record_size := record_size, r_body_ptr := r_body_ptr r + decode_length\<rparr>
             in if record_size \<noteq> 0 then Inr r
                else bindR (DecodeLengthAt (r_body_ptr r) (r_body_end r) r) (\<lambda>(decode_length, records).
                  if decode_length \<le> 0 then Inl Assertion_failed
                  else Inr (r\<lparr>r_records := records, r_body_ptr := r_body_ptr r + decode_length\<rparr>))))"

definition open_variable :: "reader \<Rightarrow> reader result" where
  "open_variable r =
     bindR (DecodeLengthAt (r_body_ptr r) (r_body_end r) r) (\<lambda>(decode_length, record_offset).
       if decode_length \<le> 0 then Inl Assertion_failed
       else (let sizes = r_body_ptr r + decode_length
             in Inr (r\<lparr>r_record_size_ptr := sizes, r_body_ptr := sizes + record_offset,
                       r_record_size_end := sizes + record_offset\<rparr>)))"

definition open_records :: "reader \<Rightarrow> reader result" where
  "open_records r =
     bindR (if r_block_type r = BLOCK_TYPE_FIXED then open_fixed r
            else if r_block_type r = BLOCK_TYPE_VARIABLE then open_variable r
            else if r_block_type r = BLOCK_TYPE_SINGLE then Inr r
            else Inl Assertion_failed) (\<lambda>r. Inr (r\<lparr>r_state := STATE_VALID_BLOCK\<rparr>))"

text \<open>The checksum of the body; the result says whether it is the stored one.\<close>

definition check_body :: "reader \<Rightarrow> (bool \<times> reader) result" where
  "check_body r =
     (if r_block_body_size r < 0 \<or> r_ptr r + nat (r_block_body_size r) > length (r_local r) then Inl Out_of_bounds
      else (let body_size = nat (r_block_body_size r);
                r = r\<lparr>r_checksum_state := UpdateCRC32 (slice (r_local r) (r_ptr r) body_size) (r_checksum_state r),
                      r_block_body_end := r_ptr r + body_size\<rparr>
            in bindR (GetUnaligned32 (drop (r_block_body_end r) (r_local r))) (\<lambda>checksum.
                 Inr (checksum = r_checksum_state r, r))))"

text \<open>The end of the range: the block that reaches it is the last one, and one behind it is not read.\<close>

definition within_range :: "reader \<Rightarrow> bool \<times> reader" where
  "within_range r =
     (if r_end r = - 1 then (True, r)
      else if r_pos r + r_accumulated_skipped_bytes r \<ge> r_end r then (False, r)
      else (let r = r\<lparr>r_pos := r_pos r + (r_block_body_size r + r_block_header_size r + 4)\<rparr>
            in (True, if r_pos r + r_accumulated_skipped_bytes r \<ge> r_end r then r\<lparr>r_last_block := True\<rparr> else r)))"

definition abandon_block :: "reader \<Rightarrow> reader" where
  "abandon_block r =
     r\<lparr>r_accumulated_skipped_bytes :=
         r_accumulated_skipped_bytes r + (BufferPointerPosition r - r_current_block_position r),
       r_state := STATE_START\<rparr>"

definition no_header :: "reader \<Rightarrow> reader" where
  "no_header r =
     (if r_resume r then r
      else r\<lparr>r_accumulated_skipped_bytes :=
               r_accumulated_skipped_bytes r + (r_buffer_end_position r - BufferPointerPosition r),
             r_ptr := length (r_local r)\<rparr>)"

definition next_header :: "reader \<Rightarrow> (bool \<times> reader) result" where
  "next_header r = (if r_state r \<noteq> STATE_VALID_HEADER then TryReadNextBlockHeader r else Inr (True, r))"

text \<open>How far the loop over the blocks has to go at most.\<close>

definition rounds_left :: "reader \<Rightarrow> nat" where
  "rounds_left r = 2 * bytes_left r + (if r_state r = STATE_VALID_HEADER then 1 else 0)"

lemma next_header_rounds:
  assumes "next_header r = Inr (True, r')"
  shows "2 * bytes_left r' < rounds_left r"
  using assms TryReadNextBlockHeader_bytes [of r r']
  by (auto simp: next_header_def TryReadNextBlockHeader_def rounds_left_def split: if_splits)

lemma within_range_bytes: "within_range r = (ok, r') \<Longrightarrow> bytes_left r' = bytes_left r"
  by (auto simp: within_range_def bytes_left_def available_def Let_def split: if_splits)

lemma check_body_bytes: "check_body r = Inr (ok, r') \<Longrightarrow> bytes_left r' = bytes_left r"
  by (auto simp: check_body_def bindR_eq_Inr bytes_left_def available_def Let_def split: if_splits)

lemma abandon_block_rounds: "rounds_left (abandon_block r) = 2 * bytes_left r"
  by (simp add: abandon_block_def rounds_left_def bytes_left_def available_def)

function TryReadNextBlock_loop :: "reader \<Rightarrow> (bool \<times> reader) result" where
  "TryReadNextBlock_loop r =
     (case next_header r of
        Inl e \<Rightarrow> Inl e
      | Inr (ok, r1) \<Rightarrow>
          if \<not> ok then Inr (False, no_header r1)
          else case within_range r1 of (ok, r2) \<Rightarrow>
            if \<not> ok then Inr (False, r2)
            else case PreloadBufferAtLeast (r_block_body_size r2 + int kBlockFooterSize) r2 of (ok, r3) \<Rightarrow>
              if \<not> ok then (if r_resume r3 then Inr (False, r3) else TryReadNextBlock_loop (abandon_block r3))
              else case check_body r3 of
                  Inl e \<Rightarrow> Inl e
                | Inr (ok, r4) \<Rightarrow>
                    if \<not> ok then TryReadNextBlock_loop (abandon_block r4)
                    else bindR (ProcessExtentHeader r4) (\<lambda>r. bindR (open_records r) (\<lambda>r. Inr (True, r))))"
  by pat_completeness auto
termination
proof (relation "measure rounds_left", simp, goal_cases)
  case (1 r s ok r1 ok' r2 ok'' r3)
  then show ?case
    using next_header_rounds [of r r1] within_range_bytes [OF 1(4) [symmetric]] Preload_bytes(1) [OF 1(6) [symmetric]]
    by (simp add: abandon_block_rounds)
next
  case (2 r s ok r1 ok' r2 ok'' r3 t okc r4)
  then show ?case
    using next_header_rounds [of r r1] within_range_bytes [OF 2(4) [symmetric]] Preload_bytes(1) [OF 2(6) [symmetric]]
      check_body_bytes [of r3 okc r4]
    by (simp add: abandon_block_rounds)
qed

declare TryReadNextBlock_loop.simps [simp del]

definition TryReadNextBlock :: "reader \<Rightarrow> (bool \<times> reader) result" where
  "TryReadNextBlock r =
     (if r_last_block r then Inr (False, r)
      else if r_state r = STATE_VALID_BLOCK \<or> (r_state r = STATE_VALID_HEADER \<and> \<not> r_resume r) then Inl Assertion_failed
      else TryReadNextBlock_loop r)"

section \<open>The interface\<close>

definition block_has_more :: "reader \<Rightarrow> bool result" where
  "block_has_more r =
     (if r_block_type r = BLOCK_TYPE_FIXED then
        (if r_record_size r \<noteq> 0 then Inr (r_body_ptr r < r_body_end r)
         else if r_records r < 0 then Inl Assertion_failed else Inr (r_records r > 0))
      else if r_block_type r = BLOCK_TYPE_VARIABLE then
        (if r_record_size_ptr r > r_record_size_end r then Inl Assertion_failed
         else Inr (r_record_size_ptr r < r_record_size_end r))
      else if r_block_type r = BLOCK_TYPE_SINGLE then Inr (r_body_ptr r < r_body_end r)
      else Inl Assertion_failed)"

definition CurrentBlockAvailable :: "reader \<Rightarrow> (bool \<times> reader) result" where
  "CurrentBlockAvailable r =
     (if r_state r \<noteq> STATE_VALID_BLOCK then Inr (False, r)
      else if r_body_ptr r > r_body_end r then Inl Assertion_failed
      else bindR (block_has_more r) (\<lambda>available.
        Inr (available, if available then r
          else r\<lparr>r_state := STATE_START, r_ptr := r_ptr r + kBlockFooterSize, r_body_end := r_body_ptr r\<rparr>)))"

text \<open>The pointer and the size of the next record of the block.\<close>

definition next_record :: "reader \<Rightarrow> ((int \<times> int) \<times> reader) result" where
  "next_record r =
     bindR (if r_block_type r = BLOCK_TYPE_FIXED
            then Inr (r_record_size r, if r_record_size r = 0 then r\<lparr>r_records := r_records r - 1\<rparr> else r)
            else if r_block_type r = BLOCK_TYPE_VARIABLE
            then bindR (DecodeLengthAt (r_record_size_ptr r) (r_record_size_end r) r) (\<lambda>(decode_length, size').
                   if decode_length \<le> 0 then Inl Assertion_failed
                   else Inr (size', r\<lparr>r_record_size_ptr := r_record_size_ptr r + decode_length\<rparr>))
            else if r_block_type r = BLOCK_TYPE_SINGLE then Inr (r_body_end r - r_body_ptr r, r)
            else Inl Assertion_failed)
       (\<lambda>(size', r). Inr ((r_body_ptr r, size'), r\<lparr>r_body_ptr := r_body_ptr r + size'\<rparr>))"

definition ReadRecord :: "reader \<Rightarrow> ((int \<times> int) option \<times> reader) result" where
  "ReadRecord r =
     (let saved_accumulated_skipped_bytes = r_accumulated_skipped_bytes r;
          take_next = (\<lambda>r. bindR (next_record r) (\<lambda>(d, r). Inr (Some d, r)))
      in bindR (CurrentBlockAvailable (r\<lparr>r_skipped_bytes := 0\<rparr>)) (\<lambda>(available, r).
           if available then take_next r
           else if r_last_block r then Inr (None, r)
           else bindR (TryReadNextBlock r) (\<lambda>(available, r).
             let r = r\<lparr>r_skipped_bytes := r_accumulated_skipped_bytes r - saved_accumulated_skipped_bytes\<rparr>
             in if available then take_next r else Inr (None, r))))"

text \<open>What a client sees at the pointer.\<close>

definition record_at :: "reader \<Rightarrow> int \<times> int \<Rightarrow> buffer result" where
  "record_at r d =
     (if fst d < 0 \<or> snd d < 0 \<or> fst d + snd d > int (length (body_buffer r)) then Inl Out_of_bounds
      else Inr (slice (body_buffer r) (nat (fst d)) (nat (snd d))))"

text \<open>The message is given by whether a record can be parsed and whether the result is complete.\<close>

definition skip_record :: "reader \<Rightarrow> reader" where
  "skip_record r =
     r\<lparr>r_skipped_records := r_skipped_records r + 1,
       r_accumulated_skipped_records := r_accumulated_skipped_records r + 1\<rparr>"

partial_function (option) ReadMessage_loop ::
    "(buffer \<Rightarrow> 'm option) \<Rightarrow> ('m \<Rightarrow> bool) \<Rightarrow> reader \<Rightarrow> ('m option \<times> reader) result option" where
  "ReadMessage_loop parse initialized r =
     (case ReadRecord r of
        Inl e \<Rightarrow> Some (Inl e)
      | Inr (None, r) \<Rightarrow> Some (Inr (None, r))
      | Inr (Some d, r) \<Rightarrow>
          (case record_at r d of
             Inl e \<Rightarrow> Some (Inl e)
           | Inr bs \<Rightarrow>
               (case parse bs of
                  None \<Rightarrow> ReadMessage_loop parse initialized (skip_record r)
                | Some m \<Rightarrow> if initialized m then Some (Inr (Some m, r))
                            else ReadMessage_loop parse initialized (skip_record r))))"

definition ReadMessage :: "(buffer \<Rightarrow> 'm option) \<Rightarrow> ('m \<Rightarrow> bool) \<Rightarrow> reader \<Rightarrow> ('m option \<times> reader) result option" where
  "ReadMessage parse initialized r = ReadMessage_loop parse initialized (r\<lparr>r_skipped_records := 0\<rparr>)"

end
