(* ===== verification/Record_Roundtrip.thy ===== *)
theory Record_Roundtrip
  imports Record_Reader
begin

unbundle bit_operations_syntax

text \<open>
  What \<^verbatim>\<open>RecordWriter\<close> writes, \<^verbatim>\<open>RecordReader\<close> reads back: the records in their order, however the stream
  cuts the bytes into reads, with and without compression.
\<close>

section \<open>The bytes in front of the reader\<close>

definition view :: "reader \<Rightarrow> buffer" where
  "view r = drop (r_ptr r) (r_local r) @ concat (r_stream r)"

definition sound :: "reader \<Rightarrow> bool" where
  "sound r \<longleftrightarrow> r_ptr r \<le> length (r_local r) \<and> length (r_local r) \<le> r_capacity r \<and> [] \<notin> set (r_stream r)"

text \<open>Filling the buffer changes nothing else.\<close>

definition unbuffered :: "reader \<Rightarrow> reader" where
  "unbuffered r = r\<lparr>r_local := [], r_capacity := 0, r_ptr := 0, r_stream := [], r_buffer_end_position := 0\<rparr>"

lemma ReadFromStream_spec:
  assumes "[] \<notin> set s" "ReadFromStream n s = (d, s')"
  shows "d @ concat s' = concat s" "[] \<notin> set s'" "d = [] \<Longrightarrow> n = 0 \<or> s' = []" "length d \<le> n"
  using assms by (auto simp: ReadFromStream_def split: if_splits list.splits)

lemma fill_loop_spec:
  assumes "[] \<notin> set s" "fill_loop n s = (d, s')"
  shows "d = take n (concat s) \<and> concat s' = drop n (concat s) \<and> [] \<notin> set s'"
  using assms
proof (induction n s arbitrary: d s' rule: fill_loop.induct)
  case (1 n s)
  obtain e t where e: "ReadFromStream n s = (e, t)"
    by fastforce
  note spec = ReadFromStream_spec [OF "1.prems"(1) e]
  have c: "concat s = e @ concat t"
    using spec(1) by simp
  show ?case
  proof (cases "e = [] \<or> length e = n")
    case True
    then have "d = e" "s' = t"
      using "1.prems"(2) e by (auto simp: fill_loop.simps [of n s])
    then show ?thesis
      using True spec(2,3) unfolding c by auto
  next
    case False
    obtain rest u where m: "fill_loop (n - length e) t = (rest, u)"
      by fastforce
    then have "rest = take (n - length e) (concat t) \<and> concat u = drop (n - length e) (concat t) \<and> [] \<notin> set u"
      using "1.IH" [OF e [symmetric]] False spec(2) by simp
    moreover have "d = e @ rest" "s' = u"
      using "1.prems"(2) e m False by (auto simp: fill_loop.simps [of n s])
    ultimately show ?thesis
      using c spec(4) by simp
  qed
qed

lemma ComputeLocalBufferSize_ge: "n \<le> ComputeLocalBufferSize n"
proof -
  have "n \<le> (n + 4095) div 4096 * 4096"
    using div_mult_mod_eq [of "n + 4095" 4096] mod_less_divisor [of 4096 "n + 4095"] by linarith
  then show ?thesis
    by (simp add: ComputeLocalBufferSize_def kLocalBufferBlockSize_def Let_def)
qed

lemma make_room_spec:
  assumes "sound r" "int (available r) < n"
  shows "view (make_room n r) = view r" "sound (make_room n r)" "unbuffered (make_room n r) = unbuffered r"
    "n \<le> int (r_capacity (make_room n r)) - int (r_ptr (make_room n r))"
  using assms ComputeLocalBufferSize_ge [of "nat n"]
  by (auto simp: make_room_def view_def sound_def unbuffered_def available_def)

lemma Preload_spec:
  assumes "sound r"
  obtains r' where "PreloadBufferAtLeast n r = (n \<le> int (length (view r)), r')" "view r' = view r" "sound r'"
    "unbuffered r' = unbuffered r" "n \<le> int (length (view r)) \<Longrightarrow> n \<le> int (available r')"
    "int (length (view r)) < n \<Longrightarrow> available r' = length (view r)"
proof (cases "int (available r) < n")
  case True
  let ?r = "make_room n r"
  obtain d s where f: "fill_loop (r_capacity ?r - length (r_local ?r)) (r_stream ?r) = (d, s)"
    by fastforce
  let ?r' = "?r\<lparr>r_local := r_local ?r @ d, r_stream := s, r_buffer_end_position := r_buffer_end_position ?r + int (length d)\<rparr>"
  have room: "view ?r = view r" "sound ?r" "unbuffered ?r = unbuffered r" "n \<le> int (r_capacity ?r) - int (r_ptr ?r)"
    by (fact make_room_spec [OF assms True])+
  have spec: "d = take (r_capacity ?r - length (r_local ?r)) (concat (r_stream ?r))"
    "concat s = drop (r_capacity ?r - length (r_local ?r)) (concat (r_stream ?r))" "[] \<notin> set s"
    using fill_loop_spec [OF _ f] room(2) by (simp_all add: sound_def)
  have "view ?r' = view ?r" "sound ?r'" "unbuffered ?r' = unbuffered ?r"
    using spec room(2) by (auto simp: view_def sound_def unbuffered_def min_def)
  moreover have "n \<le> int (available ?r') \<longleftrightarrow> n \<le> int (length (view ?r))"
    using spec(1) room(2,4) unfolding view_def [of ?r] by (auto simp: available_def sound_def min_def)
  moreover have "available ?r' = length (view ?r)" if "int (length (view ?r)) < n"
    using that spec(1) room(2,4) unfolding view_def [of ?r] by (auto simp: available_def sound_def)
  moreover have "PreloadBufferAtLeast n r = (n \<le> int (available ?r'), ?r')"
    using True f by (simp add: PreloadBufferAtLeast_def Let_def)
  ultimately show ?thesis
    using that [of ?r'] room(1,3) by simp
next
  case False
  then have "n \<le> int (length (view r))"
    by (simp add: view_def available_def)
  then show ?thesis
    using that [of r] False assms by (simp add: PreloadBufferAtLeast_def)
qed

lemma unbuffered_fields:
  assumes "unbuffered r' = unbuffered r"
  shows "r_services r' = r_services r" "r_resume r' = r_resume r" "r_end r' = r_end r" "r_pos r' = r_pos r"
    "r_last_block r' = r_last_block r" "r_state r' = r_state r" "r_block_type r' = r_block_type r"
    "r_with_extent_proto_header r' = r_with_extent_proto_header r" "r_block_body_size r' = r_block_body_size r"
    "r_checksum_state r' = r_checksum_state r" "r_accumulated_skipped_bytes r' = r_accumulated_skipped_bytes r"
    "r_compression_codec r' = r_compression_codec r"
  using arg_cong [OF assms, of r_services] arg_cong [OF assms, of r_resume] arg_cong [OF assms, of r_end] arg_cong [OF assms, of r_pos]
    arg_cong [OF assms, of r_last_block] arg_cong [OF assms, of r_state] arg_cong [OF assms, of r_block_type]
    arg_cong [OF assms, of r_with_extent_proto_header] arg_cong [OF assms, of r_block_body_size]
    arg_cong [OF assms, of r_checksum_state] arg_cong [OF assms, of r_accumulated_skipped_bytes]
    arg_cong [OF assms, of r_compression_codec]
  by (simp_all add: unbuffered_def)

text \<open>The buffered part of the view starts with whatever the view starts with, as far as it has been loaded.\<close>

lemma buffered_prefix:
  assumes "view r = xs @ ys" "length xs \<le> available r"
  obtains zs where "drop (r_ptr r) (r_local r) = xs @ zs" "ys = zs @ concat (r_stream r)"
proof -
  let ?l = "drop (r_ptr r) (r_local r)"
  have "xs = take (length xs) (?l @ concat (r_stream r))"
    using assms(1) by (simp add: view_def)
  then have "xs = take (length xs) ?l"
    using assms(2) by (simp add: available_def)
  then have "?l = xs @ drop (length xs) ?l"
    by (metis append_take_drop_id)
  then show ?thesis
    using that [of "drop (length xs) ?l"] assms(1) by (metis append.assoc append_same_eq same_append_eq view_def)
qed

section \<open>A block header is found\<close>

lemma block_types:
  "BLOCK_TYPE_FIXED \<noteq> BLOCK_TYPE_VARIABLE" "BLOCK_TYPE_FIXED \<noteq> BLOCK_TYPE_SINGLE" "BLOCK_TYPE_VARIABLE \<noteq> BLOCK_TYPE_SINGLE"
  by (simp_all add: BLOCK_TYPE_FIXED_def BLOCK_TYPE_VARIABLE_def BLOCK_TYPE_SINGLE_def)

lemma block_ty_cases: "block_ty g \<in> {BLOCK_TYPE_FIXED, BLOCK_TYPE_VARIABLE, BLOCK_TYPE_SINGLE}"
  by (simp add: block_ty_def)

definition type_byte :: "bool \<Rightarrow> 8 word \<Rightarrow> 8 word" where
  "type_byte extent ty = (if extent then ty OR BLOCK_TYPE_EXTENT_PROTO_HEADER else ty)"

lemma type_byte_parts:
  assumes "ty \<in> {BLOCK_TYPE_FIXED, BLOCK_TYPE_VARIABLE, BLOCK_TYPE_SINGLE}"
  shows "type_byte extent ty AND kBlockTypeMask = ty"
    "type_byte extent ty AND BLOCK_TYPE_EXTENT_PROTO_HEADER \<noteq> 0 \<longleftrightarrow> extent"
  using assms
  by (auto simp: type_byte_def kBlockTypeMask_def BLOCK_TYPE_FIXED_def BLOCK_TYPE_VARIABLE_def BLOCK_TYPE_SINGLE_def
      BLOCK_TYPE_EXTENT_PROTO_HEADER_def)

lemma parse_header_frame:
  fixes n extent ty r
  defines "b \<equiv> type_byte extent ty" and "k \<equiv> length (varint n)"
  defines "c \<equiv> UpdateCRC32 (b # varint n) (r_checksum_state r)"
  assumes "ty \<in> {BLOCK_TYPE_FIXED, BLOCK_TYPE_VARIABLE, BLOCK_TYPE_SINGLE}" "n \<le> kMaxRecordSize"
    and l: "drop (r_ptr r) (r_local r) = b # varint n @ le_bytes 2 (CRC32Hash32ToHash16 c) @ zs"
  shows "parse_header r = Inr (True, r\<lparr>r_with_extent_proto_header := extent, r_block_type := ty,
    r_block_body_size := int n, r_checksum_state := c, r_block_header_size := int (4 + (k + 3)),
    r_ptr := r_ptr r + (k + 3), r_state := STATE_VALID_HEADER\<rparr>)"
proof -
  have d1: "drop (Suc (r_ptr r)) (r_local r) = varint n @ le_bytes 2 (CRC32Hash32ToHash16 c) @ zs"
    using arg_cong [OF l, of "drop 1"] by simp
  have d2: "drop (Suc (r_ptr r + k)) (r_local r) = le_bytes 2 (CRC32Hash32ToHash16 c) @ zs"
    using arg_cong [OF d1, of "drop k"] by (simp add: k_def add.commute)
  have nth: "checked_nth (r_local r) (r_ptr r) = Inr b"
    using arg_cong [OF l, of length] arg_cong [OF l, of hd] by (auto simp: checked_nth_def hd_drop_conv_nth)
  have len: "length (varint n) \<le> length (r_local r) - Suc (r_ptr r)"
    using arg_cong [OF d1, of length] by simp
  have dec: "DecodeLength (drop (Suc (r_ptr r)) (r_local r)) (length (r_local r) - Suc (r_ptr r)) = Inr (int k, int n)"
    unfolding d1 k_def using assms(5) len by (intro DecodeLength_eq) (simp_all add: buffer_sizes_kb)
  have sl: "slice (r_local r) (r_ptr r) (Suc k) = b # varint n"
    unfolding slice_def l k_def by simp
  have k: "0 < k"
    using varint_not_Nil [of n] by (simp add: k_def)
  have t: "b AND kBlockTypeMask = ty" "b AND BLOCK_TYPE_EXTENT_PROTO_HEADER \<noteq> 0 \<longleftrightarrow> extent"
    unfolding b_def by (rule type_byte_parts [OF assms(4)])+
  have chk: "parse_checksum k r' = Inr (True, r'\<lparr>r_checksum_state := c, r_block_header_size := int (4 + (k + 3)),
      r_ptr := r_ptr r + (k + 3), r_state := STATE_VALID_HEADER\<rparr>)"
    if "r_ptr r' = r_ptr r" "r_local r' = r_local r" "r_checksum_state r' = r_checksum_state r" for r'
    using that d2 sl unfolding parse_checksum_def Let_def
    by (simp add: GetUnaligned16_le_bytes c_def kBlockHeaderMagic_def)
  show ?thesis
    unfolding parse_header_def parse_size_def nth
    using assms(4,5) t k dec by (auto simp: Let_def chk)
qed

type_synonym reader_settings = "services \<times> bool \<times> int \<times> int \<times> bool \<times> int"

text \<open>What the reader is told and what it counts, which reading valid blocks does not change.\<close>

definition settings :: "reader \<Rightarrow> reader_settings" where
  "settings r = (r_services r, r_resume r, r_end r, r_pos r, r_last_block r, r_accumulated_skipped_bytes r)"

lemma unbuffered_settings: "unbuffered r' = unbuffered r \<Longrightarrow> settings r' = settings r"
  using unbuffered_fields [of r' r] by (simp add: settings_def)

lemma length_magic: "length kBlockHeaderMagic = 4"
  by (simp add: kBlockHeaderMagic_def)

lemma varint_length_record: "n \<le> kMaxRecordSize \<Longrightarrow> length (varint n) \<le> 4"
  using varint_length_bound [of n 4] by (simp add: buffer_sizes_kb)

lemma read_header:
  fixes body ty extent
  defines "b \<equiv> type_byte extent ty"
  defines "c \<equiv> UpdateCRC32 (block_header b (length body)) crc_init"
  assumes "sound r" and v: "view r = frame b body @ rest" "kMinBlockSize \<le> length (view r)"
    and ty: "ty \<in> {BLOCK_TYPE_FIXED, BLOCK_TYPE_VARIABLE, BLOCK_TYPE_SINGLE}" and n: "length body \<le> kMaxRecordSize"
  obtains r' where "TryReadNextBlockHeader_loop r = Inr (True, r')" "sound r'" "settings r' = settings r"
    "view r' = body @ le_bytes 4 (UpdateCRC32 body c) @ rest" "r_checksum_state r' = c" "r_block_type r' = ty"
    "r_with_extent_proto_header r' = extent" "r_block_body_size r' = int (length body)"
    "r_state r' = STATE_VALID_HEADER" "r_compression_codec r' = r_compression_codec r"
proof -
  let ?k = "length (varint (length body))"
  let ?h = "b # varint (length body) @ le_bytes 2 (CRC32Hash32ToHash16 c)"
  obtain r1 where p1: "PreloadBufferAtLeast (int kMinBlockSize) r = (True, r1)" "view r1 = view r" "sound r1"
    "unbuffered r1 = unbuffered r" "int kMinBlockSize \<le> int (available r1)"
    using Preload_spec [OF assms(3), of "int kMinBlockSize"] v(2) by (metis of_nat_le_iff)
  have view: "view r1 = (kBlockHeaderMagic @ ?h) @ body @ le_bytes 4 (UpdateCRC32 body c) @ rest"
    using v(1) p1(2) by (simp add: frame_def Let_def block_header_def c_def)
  have av: "length (kBlockHeaderMagic @ ?h) \<le> available r1" "13 \<le> available r1"
    using p1(5) varint_length_record [OF n] by (simp_all add: kMinBlockSize_def kBlockHeaderMagic_def length_le_bytes)
  obtain zs where zs: "drop (r_ptr r1) (r_local r1) = (kBlockHeaderMagic @ ?h) @ zs"
    "body @ le_bytes 4 (UpdateCRC32 body c) @ rest = zs @ concat (r_stream r1)"
    using buffered_prefix [OF view av(1)] .
  have seek: "seek_magic r1 = (True, r1)"
    using zs(1) av(2) by (simp add: seek_magic.simps [of r1] available_def GetUnaligned32_def kBlockHeaderMagic_def)
  have p2: "PreloadBufferAtLeast (int kMinBlockSize) r1 = (True, r1)"
    using p1(5) by (simp add: PreloadBufferAtLeast_def)
  let ?e = "enter_header r1"
  have "drop (r_ptr ?e) (r_local ?e) = drop 4 (drop (r_ptr r1) (r_local r1))"
    by (simp add: enter_header_def length_magic add.commute)
  also have "\<dots> = ?h @ zs"
    unfolding zs(1) by (simp add: length_magic)
  finally have de: "drop (r_ptr ?e) (r_local ?e) = b # varint (length body) @ le_bytes 2 (CRC32Hash32ToHash16 c) @ zs"
    by simp
  have c: "UpdateCRC32 (b # varint (length body)) (r_checksum_state ?e) = c"
    by (simp add: enter_header_def c_def block_header_def UpdateCRC32_append)
  let ?r' = "?e\<lparr>r_with_extent_proto_header := extent, r_block_type := ty,
    r_block_body_size := int (length body), r_checksum_state := c, r_block_header_size := int (4 + (?k + 3)),
    r_ptr := r_ptr ?e + (?k + 3), r_state := STATE_VALID_HEADER\<rparr>"
  have "parse_header ?e = Inr (True, ?r')"
    using parse_header_frame [OF ty n, of ?e extent zs] de c unfolding b_def [symmetric] by simp
  then have "TryReadNextBlockHeader_loop r = Inr (True, ?r')"
    using p1(1) seek p2 by (simp add: TryReadNextBlockHeader_loop.simps [of r])
  moreover have dr: "drop (r_ptr ?r') (r_local ?r') = zs"
    using arg_cong [OF de, of "drop (?k + 3)"] by (simp add: drop_Cons' add.commute enter_header_def)
  moreover have "sound ?r'"
    using p1(3) arg_cong [OF de, of length] by (simp add: sound_def enter_header_def length_le_bytes)
  moreover have "view ?r' = body @ le_bytes 4 (UpdateCRC32 body c) @ rest"
    using dr zs(2) by (simp add: view_def enter_header_def)
  moreover have "settings ?r' = settings r" "r_compression_codec ?r' = r_compression_codec r"
    using unbuffered_fields [OF p1(4)] by (simp_all add: settings_def enter_header_def)
  ultimately show ?thesis
    using that [of ?r'] by simp
qed

section \<open>The body of a block is opened\<close>

subsection \<open>Bytes between two pointers\<close>

definition at_bytes :: "buffer \<Rightarrow> int \<Rightarrow> int \<Rightarrow> buffer \<Rightarrow> bool" where
  "at_bytes buf p q xs \<longleftrightarrow> (\<exists>pre post. buf = pre @ xs @ post \<and> p = int (length pre) \<and> q = p + int (length xs))"

lemma at_bytesI: "drop n buf = xs @ ys \<Longrightarrow> n \<le> length buf \<Longrightarrow> at_bytes buf (int n) (int n + int (length xs)) xs"
  unfolding at_bytes_def
  by (rule exI [of _ "take n buf"], rule exI [of _ ys]) (metis append_take_drop_id length_take min.absorb2)

lemma drop_prefix:
  assumes "drop n buf = xs @ ys" "n \<le> length buf"
  shows "n + length xs \<le> length buf" "slice buf n (length xs) = xs" "drop (n + length xs) buf = ys"
proof -
  show "n + length xs \<le> length buf"
    using arg_cong [OF assms(1), of length] assms(2) by simp
  show "slice buf n (length xs) = xs"
    using assms(1) by (simp add: slice_def)
  show "drop (n + length xs) buf = ys"
    using arg_cong [OF assms(1), of "drop (length xs)"] by (simp add: add.commute)
qed

lemma at_bytes_self: "at_bytes buf 0 (int (length buf)) buf"
  using at_bytesI [of 0 buf buf "[]"] by simp

lemma at_bytes_skip:
  assumes "at_bytes buf p q (xs @ ys)"
  shows "at_bytes buf (p + int (length xs)) q ys"
proof -
  obtain pre post where "buf = (pre @ xs) @ ys @ post" "p = int (length pre)" "q = p + int (length (xs @ ys))"
    using assms by (auto simp: at_bytes_def)
  then show ?thesis
    unfolding at_bytes_def by (intro exI [of _ "pre @ xs"] exI [of _ post]) simp
qed

lemma at_bytes_prefix: "at_bytes buf p q (xs @ ys) \<Longrightarrow> at_bytes buf p (p + int (length xs)) xs"
  by (auto simp: at_bytes_def)

lemma at_bytes_bounds:
  assumes "at_bytes buf p q xs"
  shows "0 \<le> p" "q = p + int (length xs)" "q \<le> int (length buf)" "slice buf (nat p) (length xs) = xs"
  using assms by (auto simp: at_bytes_def slice_def)

lemma DecodeLengthAt_varint:
  assumes "at_bytes (body_buffer r) p q (varint n @ ys)" "n < 2 ^ 31" "length (varint n @ ys) < 2 ^ 64"
  shows "DecodeLengthAt p q r = Inr (int (length (varint n)), int n)"
proof -
  obtain pre post where b: "body_buffer r = pre @ (varint n @ ys) @ post" "p = int (length pre)"
    "q = p + int (length (varint n @ ys))"
    using assms(1) by (auto simp: at_bytes_def)
  have m: "nat ((q - p) mod 2 ^ 64) = length (varint n @ ys)"
    using b(3) assms(3) by simp
  have "DecodeLength (varint n @ (ys @ post)) (length (varint n @ ys)) = Inr (int (length (varint n)), int n)"
    by (rule DecodeLength_eq [OF assms(2)]) simp
  then show ?thesis
    unfolding DecodeLengthAt_def m using b(1,2) by simp
qed

subsection \<open>The extent header\<close>

text \<open>
  What the round trip needs of the generated parser and the codecs: they undo the serialiser, for headers that fit its
  fields, and the compression.
\<close>

definition parser_lossless :: "services \<Rightarrow> bool" where
  "parser_lossless services \<longleftrightarrow>
     (\<forall>h. (case h of None \<Rightarrow> True | Some (t, n) \<Rightarrow> t < 2 ^ 31 \<and> n < 2 ^ 32) \<longrightarrow>
        ParseFromArray services (SerializeToString services h) = Some h)"

definition services_lossless :: "services \<Rightarrow> bool" where
  "services_lossless services \<longleftrightarrow>
     parser_lossless services \<and> (\<forall>t c. CreateCodec services t = Some c \<longrightarrow> codec_lossless c)"

definition library_lossless :: "services \<Rightarrow> bool" where
  "library_lossless services \<longleftrightarrow> compressors_lossless services \<and> parser_lossless services"

lemma library_services_lossless: "library_lossless services \<Longrightarrow> services_lossless services"
  using CreateCodec_lossless by (auto simp: library_lossless_def services_lossless_def)

definition codec_ok :: "reader \<Rightarrow> bool" where
  "codec_ok r \<longleftrightarrow> (\<forall>t c. r_compression_codec r = Some (t, c) \<longrightarrow> CreateCodec (r_services r) t = Some c)"

text \<open>The part of the reader that does not depend on where the body of the block is.\<close>

definition frame_of :: "reader \<Rightarrow> reader_settings \<times> 8 word \<times> buffer \<times> nat \<times> buffer list \<times> reader_state" where
  "frame_of r = (settings r, r_block_type r, r_local r, r_capacity r, r_stream r, r_state r)"

lemma codec_ok_ensure:
  assumes "codec_ok r" "CreateCodec (r_services r) t = Some c"
  shows "r_compression_codec (ensure_codec t r) = Some (t, c)"
  using assms by (cases "r_compression_codec r") (auto simp: ensure_codec_def codec_ok_def)

lemma ensure_codec_frame:
  "frame_of (ensure_codec t r) = frame_of r" "r_ptr (ensure_codec t r) = r_ptr r"
  by (simp_all add: ensure_codec_def frame_of_def settings_def)

lemma uncompress_body_spec:
  assumes "codec_ok r" "CreateCodec (r_services r) t = Some c" "Inflate c out n = Inr (Some p)"
    and "drop (r_ptr r) (r_local r) = out @ zs" "r_ptr r \<le> length (r_local r)"
  obtains r' where "uncompress_body t n (int (length out)) r = Inr r'" "frame_of r' = frame_of r" "r_ptr r' = r_ptr r"
    "at_bytes (body_buffer r') (r_body_ptr r') (r_body_end r') p" "codec_ok r'"
proof -
  let ?r1 = "if r_uncompressed_buffer_capacity r < n
    then r\<lparr>r_uncompressed_buffer_capacity := n, r_uncompressed_buffer := []\<rparr> else r"
  let ?r2 = "ensure_codec t ?r1"
  let ?r' = "?r2\<lparr>r_uncompressed_buffer := p, r_body_local := False, r_body_ptr := 0, r_body_end := int (length p)\<rparr>"
  have "codec_ok ?r1" "CreateCodec (r_services ?r1) t = Some c" "frame_of ?r1 = frame_of r" "r_ptr ?r1 = r_ptr r"
    using assms(1,2) by (simp_all add: codec_ok_def frame_of_def settings_def)
  then have r2: "r_compression_codec ?r2 = Some (t, c)" "frame_of ?r2 = frame_of r" "r_ptr ?r2 = r_ptr r"
    using codec_ok_ensure [of ?r1] ensure_codec_frame [of t ?r1] by simp_all
  then have l: "r_local ?r2 = r_local r" "r_services ?r2 = r_services r"
    by (simp_all add: frame_of_def settings_def)
  have sl: "slice (r_local r) (r_ptr r) (length out) = out" "r_ptr r + length out \<le> length (r_local r)"
    using drop_prefix [OF assms(4,5)] by simp_all
  have "uncompress_body t n (int (length out)) r = Inr ?r'"
    using r2 l sl assms(3) by (simp add: uncompress_body_def Let_def)
  moreover have "frame_of ?r' = frame_of r" "r_ptr ?r' = r_ptr r"
    using r2 by (simp_all add: frame_of_def settings_def)
  moreover have "at_bytes (body_buffer ?r') (r_body_ptr ?r') (r_body_end ?r') p"
    using at_bytes_self [of p] by (simp add: body_buffer_def)
  moreover have "codec_ok ?r'"
    using r2(1) l(2) assms(2) by (simp add: codec_ok_def)
  ultimately show ?thesis
    using that [of ?r'] by blast
qed

lemma read_extent_header_spec:
  assumes "r_with_extent_proto_header r" "drop (r_ptr r) (r_local r) = varint (length e) @ e @ zs"
    and "r_ptr r \<le> length (r_local r)" "ParseFromArray (r_services r) e = Some h" "length e < 2 ^ 31"
  defines "n \<equiv> length (varint (length e)) + length e"
  shows "read_extent_header r = Inr (h, int n, r\<lparr>r_ptr := r_ptr r + n\<rparr>)"
proof -
  let ?k = "length (varint (length e))"
  have l: "r_ptr r + ?k \<le> length (r_local r)" "drop (r_ptr r + ?k) (r_local r) = e @ zs"
    using drop_prefix [OF assms(2,3)] by simp_all
  have e: "r_ptr r + ?k + length e \<le> length (r_local r)" "slice (r_local r) (r_ptr r + ?k) (length e) = e"
    using drop_prefix [OF l(2,1)] by simp_all
  have "DecodeLength (drop (r_ptr r) (r_local r)) (length (r_local r) - r_ptr r) = Inr (int ?k, int (length e))"
    unfolding assms(2) using assms(5) l(1) by (intro DecodeLength_eq) simp_all
  moreover have "0 < int ?k"
    using varint_not_Nil by simp
  ultimately show ?thesis
    using assms(1,4) e by (simp add: read_extent_header_def n_def Let_def add.assoc)
qed

definition body_of :: "services \<Rightarrow> nat \<Rightarrow> codec option \<Rightarrow> buffer \<Rightarrow> buffer" where
  "body_of services t codec p = (case codec of None \<Rightarrow> p | Some c \<Rightarrow> extent_body services t c p)"

lemma block_eq: "block services t codec g = frame (type_byte (codec \<noteq> None) (block_ty g)) (body_of services t codec (payload g))"
  by (cases codec) (simp_all add: block_def body_of_def type_byte_def)

lemma ProcessExtentHeader_plain:
  assumes "\<not> r_with_extent_proto_header r" "r_block_body_size r = int (length p)"
    and "drop (r_ptr r) (r_local r) = p @ zs" "r_ptr r \<le> length (r_local r)" "codec_ok r"
  obtains r' where "ProcessExtentHeader r = Inr r'" "frame_of r' = frame_of r" "codec_ok r'"
    "r_ptr r' = r_ptr r + length p" "at_bytes (body_buffer r') (r_body_ptr r') (r_body_end r') p"
proof -
  let ?r' = "r\<lparr>r_body_local := True, r_body_ptr := int (r_ptr r), r_body_end := int (r_ptr r) + int (length p),
    r_ptr := r_ptr r + length p\<rparr>"
  have "ProcessExtentHeader r = Inr ?r'"
    using assms(1,2) by (simp add: ProcessExtentHeader_def read_extent_header_def nat_int_add)
  moreover have "at_bytes (body_buffer ?r') (r_body_ptr ?r') (r_body_end ?r') p"
    using at_bytesI [OF assms(3,4)] by (simp add: body_buffer_def)
  ultimately show ?thesis
    using that [of ?r'] assms(5) by (simp add: frame_of_def settings_def codec_ok_def)
qed

lemma ProcessExtentHeader_extent:
  assumes "r_with_extent_proto_header r" "services_lossless (r_services r)" "services_bounded (r_services r) (Some c)"
    and "CreateCodec (r_services r) t = Some c" "t < 2 ^ 31" "length p < 2 ^ 26" "codec_ok r"
    and "r_block_body_size r = int (length (extent_body (r_services r) t c p))"
    and "drop (r_ptr r) (r_local r) = extent_body (r_services r) t c p @ zs" "r_ptr r \<le> length (r_local r)"
  obtains r' where "ProcessExtentHeader r = Inr r'" "frame_of r' = frame_of r" "codec_ok r'"
    "r_ptr r' = r_ptr r + length (extent_body (r_services r) t c p)"
    "at_bytes (body_buffer r') (r_body_ptr r') (r_body_end r') p"
proof -
  obtain h out where po: "packed t c p = (h, out)"
    by fastforce
  let ?e = "SerializeToString (r_services r) h"
  let ?n = "length (varint (length ?e)) + length ?e"
  let ?r1 = "r\<lparr>r_ptr := r_ptr r + ?n\<rparr>"
  have body: "extent_body (r_services r) t c p = varint (length ?e) @ ?e @ out"
    using po by (simp add: extent_body_def Let_def)
  have h: "h = Some (t, length p) \<and> Deflate c p (length p) = Inr (Some out) \<or> h = None \<and> out = p"
    using po by (auto simp: packed_def split: option.splits sum.splits)
  have e: "ParseFromArray (r_services r) ?e = Some h" "length ?e < 2 ^ 31"
    using assms(2,3,5,6) h by (auto simp: services_lossless_def parser_lossless_def services_bounded_def intro: le_less_trans)
  have d: "drop (r_ptr r) (r_local r) = varint (length ?e) @ ?e @ out @ zs"
    using assms(9) body by simp
  have reh: "read_extent_header r = Inr (h, int ?n, ?r1)"
    by (rule read_extent_header_spec [OF assms(1) d assms(10) e])
  have d1: "drop (r_ptr ?r1) (r_local ?r1) = out @ zs" "r_ptr ?r1 \<le> length (r_local ?r1)"
    using drop_prefix [of "r_ptr r" "r_local r" "varint (length ?e) @ ?e" "out @ zs"] d assms(10) by (simp_all add: add.assoc)
  have rest: "r_block_body_size ?r1 - int ?n = int (length out)"
    using assms(8) body by simp
  have fr: "frame_of ?r1 = frame_of r" "codec_ok ?r1"
    using assms(7) by (simp_all add: frame_of_def settings_def codec_ok_def)
  obtain r2 where r2: "(case h of Some (codec_type, uncompressed_size) \<Rightarrow> uncompress_body codec_type uncompressed_size (int (length out)) ?r1
      | None \<Rightarrow> Inr (?r1\<lparr>r_body_local := True, r_body_ptr := int (r_ptr ?r1), r_body_end := int (r_ptr ?r1) + int (length out)\<rparr>)) = Inr r2"
    and f2: "frame_of r2 = frame_of r" "r_ptr r2 = r_ptr ?r1" "codec_ok r2"
      "at_bytes (body_buffer r2) (r_body_ptr r2) (r_body_end r2) p"
  proof (cases h)
    case None
    then show ?thesis
      using that [of "?r1\<lparr>r_body_local := True, r_body_ptr := int (r_ptr ?r1), r_body_end := int (r_ptr ?r1) + int (length out)\<rparr>"]
        h fr at_bytesI [OF d1] by (simp add: frame_of_def settings_def codec_ok_def body_buffer_def)
  next
    case (Some x)
    moreover have "codec_lossless c" "length p < 2 ^ 32"
      using assms(2,4,6) by (auto simp: services_lossless_def)
    ultimately have "Inflate c out (length p) = Inr (Some p)"
      using h unfolding codec_lossless_def by blast
    with Some h show ?thesis
      using uncompress_body_spec [OF fr(2) _ _ d1, of t c "length p" p] assms(4) fr(1) that by auto
  qed
  let ?r' = "r2\<lparr>r_ptr := nat (int (r_ptr r2) + int (length out))\<rparr>"
  have "ProcessExtentHeader r = Inr ?r'"
    by (simp only: ProcessExtentHeader_def reh bindR_simps prod.case Let_def rest r2)
  moreover have "frame_of ?r' = frame_of r" "codec_ok ?r'" "body_buffer ?r' = body_buffer r2"
    using f2(1,3) by (simp_all add: frame_of_def settings_def codec_ok_def body_buffer_def)
  moreover have "r_ptr ?r' = r_ptr r + length (extent_body (r_services r) t c p)"
    using f2(2) body by (simp add: nat_int_add)
  ultimately show ?thesis
    using that [of ?r'] f2(4) by simp
qed

subsection \<open>The records of the block\<close>

text \<open>The records that the reader still has to hand out of its block, and the bytes that follow the block.\<close>

definition holds :: "reader \<Rightarrow> buffer list \<Rightarrow> bool" where
  "holds r rs \<longleftrightarrow>
     at_bytes (body_buffer r) (r_body_ptr r) (r_body_end r) (concat rs) \<and> length (size_bytes rs) < 2 ^ 31 \<and>
     (\<forall>d \<in> set rs. length d < 2 ^ 31) \<and>
     (r_block_type r = BLOCK_TYPE_FIXED \<and> (\<forall>d \<in> set rs. r_record_size r = int (length d)) \<and>
        (r_record_size r = 0 \<longrightarrow> r_records r = int (length rs)) \<or>
      r_block_type r = BLOCK_TYPE_VARIABLE \<and>
        at_bytes (body_buffer r) (r_record_size_ptr r) (r_record_size_end r) (size_bytes rs) \<or>
      r_block_type r = BLOCK_TYPE_SINGLE \<and> length rs \<le> 1)"

text \<open>The state apart from the pointers into the body.\<close>

definition outer :: "reader \<Rightarrow> reader_settings \<times> buffer \<times> nat \<times> nat \<times> buffer list \<times> (nat \<times> codec) option" where
  "outer r = (settings r, r_local r, r_ptr r, r_capacity r, r_stream r, r_compression_codec r)"

lemma fits_lengths:
  assumes "fits g" "d \<in> set g"
  shows "length d < 2 ^ 31"
proof -
  have "length d \<le> length (concat g)"
    using assms(2) by (induction g) auto
  then show ?thesis
    using assms(1) by (simp add: fits_def buffer_sizes_kb)
qed

lemma body_buffer_updates [simp]:
  "body_buffer (r\<lparr>r_state := s\<rparr>) = body_buffer r" "body_buffer (r\<lparr>r_body_ptr := p\<rparr>) = body_buffer r"
  "body_buffer (r\<lparr>r_record_size := k\<rparr>) = body_buffer r" "body_buffer (r\<lparr>r_records := k\<rparr>) = body_buffer r"
  "body_buffer (r\<lparr>r_record_size_ptr := p\<rparr>) = body_buffer r" "body_buffer (r\<lparr>r_record_size_end := p\<rparr>) = body_buffer r"
  by (simp_all add: body_buffer_def)

lemma open_fixed_holds:
  assumes "at_bytes (body_buffer r) (r_body_ptr r) (r_body_end r) (payload g)" "g \<noteq> []" "fits g"
    and "length g \<noteq> 1" "same_size g" "r_block_type r = BLOCK_TYPE_FIXED"
  obtains r' where "open_fixed r = Inr r'" "outer r' = outer r" "holds (r'\<lparr>r_state := s\<rparr>) g"
proof -
  note b = fits_bounds [OF assms(3,2)]
  let ?n = "length (hd g)"
  let ?k = "length (varint ?n)"
  let ?m = "if hd g = [] then varint (length g) else []"
  let ?r1 = "r\<lparr>r_record_size := int ?n, r_body_ptr := r_body_ptr r + int ?k\<rparr>"
  let ?r' = "if hd g = [] then ?r1\<lparr>r_records := int (length g), r_body_ptr := r_body_ptr ?r1 + int (length ?m)\<rparr> else ?r1"
  have p: "payload g = varint ?n @ ?m @ concat g"
    using assms(4,5) by (simp add: payload_def payload_sizes_def)
  have small: "length (payload g) < 2 ^ 64"
    using b(4) by simp
  have d1: "DecodeLengthAt (r_body_ptr r) (r_body_end r) r = Inr (int ?k, int ?n)"
    by (rule DecodeLengthAt_varint [OF assms(1) [unfolded p] b(3) small [unfolded p]])
  have at1: "at_bytes (body_buffer r) (r_body_ptr ?r1) (r_body_end r) (?m @ concat g)"
    using at_bytes_skip [OF assms(1) [unfolded p]] by simp
  have d2: "DecodeLengthAt (r_body_ptr ?r1) (r_body_end ?r1) ?r1 = Inr (int (length ?m), int (length g))" if "hd g = []"
    using DecodeLengthAt_varint [of ?r1 "r_body_ptr ?r1" "r_body_end ?r1" "length g" "concat g"] at1 that b(2,4) p by simp
  have at2: "at_bytes (body_buffer r) (r_body_ptr ?r1 + int (length ?m)) (r_body_end r) (concat g)"
    by (rule at_bytes_skip [OF at1])
  have pos: "0 < int ?k" "hd g = [] \<Longrightarrow> 0 < int (length ?m)"
    using varint_not_Nil by simp_all
  have "open_fixed r = Inr ?r'"
    using d1 d2 pos by (simp add: open_fixed_def Let_def)
  moreover have "outer ?r' = outer r"
    by (simp add: outer_def settings_def)
  moreover have "\<forall>d \<in> set g. ?n = length d"
    using assms(5) by (simp add: same_size_def)
  then have "holds (?r'\<lparr>r_state := s\<rparr>) g"
    using at2 b(1) fits_lengths [OF assms(3)] assms(6) by (cases "hd g = []") (simp_all add: holds_def)
  ultimately show ?thesis
    using that by blast
qed

lemma open_variable_holds:
  assumes "at_bytes (body_buffer r) (r_body_ptr r) (r_body_end r) (payload g)" "g \<noteq> []" "fits g"
    and "length g \<noteq> 1" "\<not> same_size g" "r_block_type r = BLOCK_TYPE_VARIABLE"
  obtains r' where "open_variable r = Inr r'" "outer r' = outer r" "holds (r'\<lparr>r_state := s\<rparr>) g"
proof -
  note b = fits_bounds [OF assms(3,2)]
  let ?n = "length (size_bytes g)"
  let ?k = "length (varint ?n)"
  let ?q = "r_body_ptr r + int ?k"
  let ?r' = "r\<lparr>r_record_size_ptr := ?q, r_body_ptr := ?q + int ?n, r_record_size_end := ?q + int ?n\<rparr>"
  have p: "payload g = varint ?n @ size_bytes g @ concat g"
    using assms(4,5) by (simp add: payload_def payload_sizes_def)
  have small: "length (payload g) < 2 ^ 64"
    using b(4) by simp
  have d1: "DecodeLengthAt (r_body_ptr r) (r_body_end r) r = Inr (int ?k, int ?n)"
    by (rule DecodeLengthAt_varint [OF assms(1) [unfolded p] b(1) small [unfolded p]])
  have at1: "at_bytes (body_buffer r) ?q (r_body_end r) (size_bytes g @ concat g)"
    using at_bytes_skip [OF assms(1) [unfolded p]] by simp
  have "open_variable r = Inr ?r'"
    using d1 varint_not_Nil by (simp add: open_variable_def Let_def)
  moreover have "outer ?r' = outer r"
    by (simp add: outer_def settings_def)
  moreover have "holds (?r'\<lparr>r_state := s\<rparr>) g"
    using at_bytes_skip [OF at1] at_bytes_prefix [OF at1] b(1) fits_lengths [OF assms(3)] assms(6)
    by (simp add: holds_def)
  ultimately show ?thesis
    using that by blast
qed

lemma open_records_holds:
  assumes "at_bytes (body_buffer r) (r_body_ptr r) (r_body_end r) (payload g)" "g \<noteq> []" "fits g"
    and "r_block_type r = block_ty g"
  obtains r' where "open_records r = Inr r'" "outer r' = outer r" "holds r' g" "r_state r' = STATE_VALID_BLOCK"
proof -
  let ?s = "\<lambda>r'. r'\<lparr>r_state := STATE_VALID_BLOCK\<rparr>"
  consider (single) "length g = 1" | (fixed) "length g \<noteq> 1" "same_size g" | (variable) "length g \<noteq> 1" "\<not> same_size g"
    by blast
  then show ?thesis
  proof cases
    case single
    then have "open_records r = Inr (?s r)" "holds (?s r) g"
      using assms(1,4) fits_bounds(1) [OF assms(3,2)] fits_lengths [OF assms(3)] block_types
      by (simp_all add: open_records_def block_ty_def holds_def payload_def payload_sizes_def)
    then show ?thesis
      using that [of "?s r"] by (simp add: outer_def settings_def)
  next
    case fixed
    then have ty: "r_block_type r = BLOCK_TYPE_FIXED"
      using assms(4) by (simp add: block_ty_def)
    obtain r' where r': "open_fixed r = Inr r'" "outer r' = outer r" "holds (?s r') g"
      using open_fixed_holds [OF assms(1-3) fixed ty] .
    then show ?thesis
      using that [of "?s r'"] ty by (simp add: open_records_def outer_def settings_def)
  next
    case variable
    then have ty: "r_block_type r = BLOCK_TYPE_VARIABLE"
      using assms(4) by (simp add: block_ty_def)
    obtain r' where r': "open_variable r = Inr r'" "outer r' = outer r" "holds (?s r') g"
      using open_variable_holds [OF assms(1-3) variable ty] .
    then show ?thesis
      using that [of "?s r'"] ty block_types by (simp add: open_records_def outer_def settings_def)
  qed
qed

lemma record_at_bytes:
  assumes "at_bytes (body_buffer r) p q (d @ ds)"
  shows "record_at r (p, int (length d)) = Inr d"
  using at_bytes_bounds [OF at_bytes_prefix [OF assms]] by (simp add: record_at_def)

lemma next_record_holds:
  assumes "holds r (d # rs)"
  obtains r' p where "next_record r = Inr (p, r')" "record_at r' p = Inr d" "holds r' rs" "outer r' = outer r"
    "r_state r' = r_state r" "r_block_type r' = r_block_type r"
proof -
  have at: "at_bytes (body_buffer r) (r_body_ptr r) (r_body_end r) (d @ concat rs)"
    and b: "length (size_bytes (d # rs)) < 2 ^ 31" "\<forall>e \<in> set (d # rs). length e < 2 ^ 31"
    using assms by (simp_all add: holds_def)
  let ?q = "r_body_ptr r + int (length d)"
  have at': "at_bytes (body_buffer r) ?q (r_body_end r) (concat rs)"
    by (rule at_bytes_skip [OF at])
  have sb: "size_bytes (d # rs) = varint (length d) @ size_bytes rs"
    by (simp add: size_bytes_def)
  let ?p = "(r_body_ptr r, int (length d))"
  consider (fixed) "r_block_type r = BLOCK_TYPE_FIXED" "\<forall>e \<in> set (d # rs). r_record_size r = int (length e)"
      "r_record_size r = 0 \<longrightarrow> r_records r = int (length (d # rs))"
    | (variable) "r_block_type r = BLOCK_TYPE_VARIABLE"
      "at_bytes (body_buffer r) (r_record_size_ptr r) (r_record_size_end r) (size_bytes (d # rs))"
    | (single) "r_block_type r = BLOCK_TYPE_SINGLE" "rs = []"
    using assms by (auto simp: holds_def)
  then show ?thesis
  proof cases
    case fixed
    let ?r1 = "if r_record_size r = 0 then r\<lparr>r_records := r_records r - 1\<rparr> else r"
    let ?r' = "?r1\<lparr>r_body_ptr := ?q\<rparr>"
    have "next_record r = Inr (?p, ?r')"
      using fixed by (simp add: next_record_def)
    moreover have "record_at ?r' ?p = Inr d"
      by (rule record_at_bytes) (use at in simp)
    moreover have "holds ?r' rs"
      using fixed at' b sb by (cases "d = []") (auto simp: holds_def)
    ultimately show ?thesis
      by (rule that) (simp_all add: outer_def settings_def)
  next
    case variable
    let ?r' = "r\<lparr>r_record_size_ptr := r_record_size_ptr r + int (length (varint (length d))), r_body_ptr := ?q\<rparr>"
    have "DecodeLengthAt (r_record_size_ptr r) (r_record_size_end r) r = Inr (int (length (varint (length d))), int (length d))"
      by (rule DecodeLengthAt_varint [OF variable(2) [unfolded sb]]) (use b sb in simp_all)
    then have "next_record r = Inr (?p, ?r')"
      using variable(1) varint_not_Nil block_types by (simp add: next_record_def)
    moreover have "record_at ?r' ?p = Inr d"
      by (rule record_at_bytes) (use at in simp)
    moreover have "holds ?r' rs"
      using variable at' b sb at_bytes_skip [OF variable(2) [unfolded sb]] by (simp add: holds_def)
    ultimately show ?thesis
      by (rule that) (simp_all add: outer_def settings_def)
  next
    case single
    let ?r' = "r\<lparr>r_body_ptr := ?q\<rparr>"
    have "next_record r = Inr (?p, ?r')"
      using single at_bytes_bounds(2) [OF at] block_types by (simp add: next_record_def)
    moreover have "record_at ?r' ?p = Inr d"
      by (rule record_at_bytes) (use at in simp)
    moreover have "holds ?r' rs"
      using single at' b sb by (simp add: holds_def)
    ultimately show ?thesis
      by (rule that) (simp_all add: outer_def settings_def)
  qed
qed

section \<open>Blocks one after the other\<close>

text \<open>
  A reader between two blocks, with the bytes \<open>rest\<close> in front of it; and one inside a block with the records \<open>rs\<close> left,
  with the checksum of the block still in front of \<open>rest\<close>.
\<close>

definition idle :: "reader \<Rightarrow> buffer \<Rightarrow> bool" where
  "idle r rest \<longleftrightarrow> sound r \<and> r_state r = STATE_START \<and> view r = rest \<and> r_end r = - 1 \<and> \<not> r_last_block r \<and> codec_ok r"

definition serving :: "reader \<Rightarrow> buffer list \<Rightarrow> buffer \<Rightarrow> bool" where
  "serving r rs rest \<longleftrightarrow>
     sound r \<and> r_state r = STATE_VALID_BLOCK \<and> holds r rs \<and> kBlockFooterSize \<le> available r \<and>
     drop kBlockFooterSize (view r) = rest \<and> r_end r = - 1 \<and> \<not> r_last_block r \<and> codec_ok r"

lemma check_body_spec:
  assumes "r_block_body_size r = int (length body)" "r_checksum_state r = c" "r_ptr r \<le> length (r_local r)"
    and "drop (r_ptr r) (r_local r) = body @ le_bytes 4 (UpdateCRC32 body c) @ zs"
  shows "check_body r = Inr (True, r\<lparr>r_checksum_state := UpdateCRC32 body c, r_block_body_end := r_ptr r + length body\<rparr>)"
  using assms(1,2) drop_prefix [OF assms(4,3)] by (simp add: check_body_def Let_def GetUnaligned32_le_bytes)

lemma process_body:
  assumes "r_with_extent_proto_header r = (codec \<noteq> None)" "services_lossless (r_services r)"
    and "services_bounded (r_services r) codec" "\<And>c. codec = Some c \<Longrightarrow> CreateCodec (r_services r) t = Some c \<and> t < 2 ^ 31"
    and "length p < 2 ^ 26" "codec_ok r" "r_block_body_size r = int (length (body_of (r_services r) t codec p))"
    and "drop (r_ptr r) (r_local r) = body_of (r_services r) t codec p @ zs" "r_ptr r \<le> length (r_local r)"
  obtains r' where "ProcessExtentHeader r = Inr r'" "frame_of r' = frame_of r" "codec_ok r'"
    "r_ptr r' = r_ptr r + length (body_of (r_services r) t codec p)"
    "at_bytes (body_buffer r') (r_body_ptr r') (r_body_end r') p"
proof (cases codec)
  case None
  show ?thesis
    by (rule ProcessExtentHeader_plain [of r p zs]) (use None assms that in \<open>simp_all add: body_of_def\<close>)
next
  case (Some c)
  show ?thesis
    by (rule ProcessExtentHeader_extent [of r c t p zs]) (use Some assms that in \<open>simp_all add: body_of_def\<close>)
qed

text \<open>The writer and the reader share the services; \<open>t\<close> and \<open>codec\<close> are the compression of the writer.\<close>

definition lossless :: "services \<Rightarrow> nat \<Rightarrow> codec option \<Rightarrow> bool" where
  "lossless services t codec \<longleftrightarrow>
     services_lossless services \<and> services_bounded services codec \<and>
     (\<forall>c. codec = Some c \<longrightarrow> CreateCodec services t = Some c \<and> t < 2 ^ 31)"

definition readable :: "services \<Rightarrow> nat \<Rightarrow> codec option \<Rightarrow> buffer list \<Rightarrow> bool" where
  "readable services t codec g \<longleftrightarrow>
     g \<noteq> [] \<and> fits g \<and> length (body_of services t codec (payload g)) \<le> kMaxRecordSize"

lemma load_body:
  assumes "sound r" "view r = body @ le_bytes 4 (UpdateCRC32 body c) @ rest" "r_block_body_size r = int (length body)"
    and "r_checksum_state r = c"
  obtains r2 r3 zs where "PreloadBufferAtLeast (r_block_body_size r + int kBlockFooterSize) r = (True, r2)"
    "check_body r2 = Inr (True, r3)" "sound r3" "settings r3 = settings r" "r_compression_codec r3 = r_compression_codec r"
    "drop (r_ptr r3) (r_local r3) = body @ le_bytes 4 (UpdateCRC32 body c) @ zs" "rest = zs @ concat (r_stream r3)"
    "r_block_type r3 = r_block_type r" "r_with_extent_proto_header r3 = r_with_extent_proto_header r"
    "r_block_body_size r3 = int (length body)"
proof -
  let ?n = "r_block_body_size r + int kBlockFooterSize"
  have "?n \<le> int (length (view r))"
    using assms(2,3) by (simp add: kBlockFooterSize_def)
  then obtain r2 where r2: "PreloadBufferAtLeast ?n r = (True, r2)" "view r2 = view r" "sound r2"
    "unbuffered r2 = unbuffered r" "?n \<le> int (available r2)"
    using Preload_spec [OF assms(1), of ?n] by metis
  note u = unbuffered_fields [OF r2(4)]
  have "view r2 = (body @ le_bytes 4 (UpdateCRC32 body c)) @ rest"
    "length (body @ le_bytes 4 (UpdateCRC32 body c)) \<le> available r2"
    using r2(2,5) assms(2,3) by (simp_all add: kBlockFooterSize_def)
  then obtain zs where zs: "drop (r_ptr r2) (r_local r2) = (body @ le_bytes 4 (UpdateCRC32 body c)) @ zs"
    "rest = zs @ concat (r_stream r2)"
    by (rule buffered_prefix)
  have ptr: "r_ptr r2 \<le> length (r_local r2)"
    using r2(3) by (simp add: sound_def)
  let ?r3 = "r2\<lparr>r_checksum_state := UpdateCRC32 body c, r_block_body_end := r_ptr r2 + length body\<rparr>"
  have "check_body r2 = Inr (True, ?r3)"
    by (rule check_body_spec) (use assms u ptr zs(1) in simp_all)
  then show ?thesis
    using that [OF r2(1), of ?r3 zs] r2(3) u zs assms(3) by (simp add: sound_def settings_def)
qed

lemma serving_opened:
  assumes "sound r" "drop (r_ptr r) (r_local r) = body @ le_bytes 4 k @ zs" "rest = zs @ concat (r_stream r)"
    and "r_local r' = r_local r" "r_ptr r' = r_ptr r + length body" "r_capacity r' = r_capacity r" "r_stream r' = r_stream r"
    and "holds r' g" "r_state r' = STATE_VALID_BLOCK" "r_end r' = - 1" "\<not> r_last_block r'" "codec_ok r'"
  shows "serving r' g rest"
proof -
  have "r_ptr r \<le> length (r_local r)"
    using assms(1) by (simp add: sound_def)
  then have d: "drop (r_ptr r') (r_local r') = le_bytes 4 k @ zs" "r_ptr r' \<le> length (r_local r')"
    using drop_prefix [OF assms(2)] assms(4,5) by simp_all
  then have "sound r'" "kBlockFooterSize \<le> available r'" "drop kBlockFooterSize (view r') = rest"
    using drop_prefix(1) [OF d] assms(1,3,4,6,7) by (simp_all add: sound_def kBlockFooterSize_def available_def view_def)
  then show ?thesis
    using assms(8-) by (simp add: serving_def)
qed

lemma read_block:
  assumes "idle r (block services t codec g @ rest)" "kMinBlockSize \<le> length (block services t codec g @ rest)"
    and "lossless services t codec" "readable services t codec g" "r_services r = services"
  obtains r' where "TryReadNextBlock r = Inr (True, r')" "serving r' g rest" "settings r' = settings r"
proof -
  let ?body = "body_of services t codec (payload g)"
  let ?b = "type_byte (codec \<noteq> None) (block_ty g)"
  let ?c = "UpdateCRC32 (block_header ?b (length ?body)) crc_init"
  have i: "sound r" "r_state r = STATE_START" "view r = frame ?b ?body @ rest" "r_end r = - 1" "\<not> r_last_block r"
    "codec_ok r" "kMinBlockSize \<le> length (view r)"
    using assms(1,2) by (simp_all add: idle_def block_eq)
  have g: "g \<noteq> []" "fits g" "length ?body \<le> kMaxRecordSize"
    using assms(4) by (simp_all add: readable_def)
  obtain r1 where r1: "TryReadNextBlockHeader_loop r = Inr (True, r1)" "sound r1" "settings r1 = settings r"
    "view r1 = ?body @ le_bytes 4 (UpdateCRC32 ?body ?c) @ rest" "r_checksum_state r1 = ?c" "r_block_type r1 = block_ty g"
    "r_with_extent_proto_header r1 = (codec \<noteq> None)" "r_block_body_size r1 = int (length ?body)"
    "r_state r1 = STATE_VALID_HEADER" "r_compression_codec r1 = r_compression_codec r"
    using read_header [OF i(1,3,7) block_ty_cases g(3)] .
  have n: "next_header r = Inr (True, r1)" "within_range r1 = (True, r1)"
    using r1(1,3) i(2,4) by (simp_all add: next_header_def TryReadNextBlockHeader_def within_range_def settings_def)
  obtain r2 r3 zs where r2: "PreloadBufferAtLeast (r_block_body_size r1 + int kBlockFooterSize) r1 = (True, r2)"
    "check_body r2 = Inr (True, r3)" "sound r3" "settings r3 = settings r1" "r_compression_codec r3 = r_compression_codec r1"
    "drop (r_ptr r3) (r_local r3) = ?body @ le_bytes 4 (UpdateCRC32 ?body ?c) @ zs" "rest = zs @ concat (r_stream r3)"
    "r_block_type r3 = r_block_type r1" "r_with_extent_proto_header r3 = r_with_extent_proto_header r1"
    "r_block_body_size r3 = int (length ?body)"
    using load_body [OF r1(2,4,8,5)] .
  have sv: "r_services r3 = services" "settings r3 = settings r" "codec_ok r3" "r_ptr r3 \<le> length (r_local r3)"
    using r1(3,10) r2(3,4,5) i(6) assms(5) by (simp_all add: settings_def codec_ok_def sound_def)
  obtain r4 where r4: "ProcessExtentHeader r3 = Inr r4" "frame_of r4 = frame_of r3" "codec_ok r4"
    "r_ptr r4 = r_ptr r3 + length ?body" "at_bytes (body_buffer r4) (r_body_ptr r4) (r_body_end r4) (payload g)"
    by (rule process_body [of r3 codec t "payload g" "le_bytes 4 (UpdateCRC32 ?body ?c) @ zs"])
      (use assms(3) sv fits_bounds(4) [OF g(2,1)] r1(7) r2(6,9,10) in \<open>simp_all add: lossless_def\<close>)
  have f4: "settings r4 = settings r" "r_block_type r4 = block_ty g" "r_local r4 = r_local r3"
    "r_capacity r4 = r_capacity r3" "r_stream r4 = r_stream r3"
    using r4(2) sv(2) r1(6) r2(8) by (simp_all add: frame_of_def)
  obtain r5 where r5: "open_records r4 = Inr r5" "outer r5 = outer r4" "holds r5 g" "r_state r5 = STATE_VALID_BLOCK"
    using open_records_holds [OF r4(5) g(1,2) f4(2)] .
  have "TryReadNextBlock r = Inr (True, r5)"
    using i(2,5) n r2(1,2) r4(1) r5(1) by (simp add: TryReadNextBlock_def TryReadNextBlock_loop.simps [of r])
  moreover have st: "settings r5 = settings r"
    using r5(2) f4(1) by (simp add: outer_def)
  moreover have "serving r5 g rest"
    by (rule serving_opened [OF r2(3,6,7) _ _ _ _ r5(3,4)])
      (use r5(2) f4 r4(3,4) st i(4,5) in \<open>simp_all add: outer_def codec_ok_def settings_def\<close>)
  ultimately show ?thesis
    using that by blast
qed

section \<open>Reading everything\<close>

lemma view_skipped [simp]: "view (r\<lparr>r_skipped_bytes := k\<rparr>) = view r"
  by (simp add: view_def)

lemma settings_skipped [simp]: "settings (r\<lparr>r_skipped_bytes := k\<rparr>) = settings r"
  by (simp add: settings_def)

lemma idle_skipped [simp]: "idle (r\<lparr>r_skipped_bytes := k\<rparr>) rest = idle r rest"
  by (simp add: idle_def sound_def codec_ok_def)

lemma serving_skipped [simp]: "serving (r\<lparr>r_skipped_bytes := k\<rparr>) rs rest = serving r rs rest"
  by (simp add: serving_def sound_def codec_ok_def holds_def body_buffer_def available_def)

lemma block_has_more_holds:
  assumes "holds r rs" "r_block_type r = BLOCK_TYPE_SINGLE \<Longrightarrow> rs = []"
  shows "block_has_more r = Inr (rs \<noteq> [])" "r_body_ptr r \<le> r_body_end r"
proof -
  have at: "r_body_end r = r_body_ptr r + int (length (concat rs))"
    using assms(1) at_bytes_bounds(2) [of "body_buffer r" "r_body_ptr r" "r_body_end r" "concat rs"] by (simp add: holds_def)
  then show "r_body_ptr r \<le> r_body_end r"
    by simp
  consider (fixed) "r_block_type r = BLOCK_TYPE_FIXED" "\<forall>e \<in> set rs. r_record_size r = int (length e)"
      "r_record_size r = 0 \<longrightarrow> r_records r = int (length rs)"
    | (variable) "r_block_type r = BLOCK_TYPE_VARIABLE"
      "at_bytes (body_buffer r) (r_record_size_ptr r) (r_record_size_end r) (size_bytes rs)"
    | (single) "r_block_type r = BLOCK_TYPE_SINGLE" "rs = []"
    using assms by (auto simp: holds_def)
  then show "block_has_more r = Inr (rs \<noteq> [])"
  proof cases
    case fixed
    then have "r_record_size r \<noteq> 0 \<Longrightarrow> concat rs \<noteq> [] \<longleftrightarrow> rs \<noteq> []"
      by (cases rs) auto
    then show ?thesis
      using fixed at by (simp add: block_has_more_def)
  next
    case variable
    have "size_bytes rs \<noteq> [] \<longleftrightarrow> rs \<noteq> []"
      using size_bytes_not_Nil by (auto simp: size_bytes_def)
    then show ?thesis
      using variable at_bytes_bounds(2) [OF variable(2)] block_types by (simp add: block_has_more_def)
  next
    case single
    then show ?thesis
      using at block_types by (simp add: block_has_more_def)
  qed
qed

lemma CurrentBlockAvailable_serving:
  assumes "serving r rs rest" "r_block_type r = BLOCK_TYPE_SINGLE \<Longrightarrow> rs = []"
  shows "CurrentBlockAvailable r = Inr (rs \<noteq> [], if rs \<noteq> [] then r
    else r\<lparr>r_state := STATE_START, r_ptr := r_ptr r + kBlockFooterSize, r_body_end := r_body_ptr r\<rparr>)"
proof -
  have "holds r rs" "r_state r = STATE_VALID_BLOCK"
    using assms(1) by (simp_all add: serving_def)
  then show ?thesis
    using block_has_more_holds [of r rs] assms(2) by (simp add: CurrentBlockAvailable_def)
qed

lemma serving_finish:
  assumes "serving r rs rest"
  shows "idle (r\<lparr>r_state := STATE_START, r_ptr := r_ptr r + kBlockFooterSize, r_body_end := p\<rparr>) rest"
  using assms by (auto simp: serving_def idle_def sound_def view_def codec_ok_def available_def add.commute)

lemma ReadRecord_idle:
  assumes "idle r rest"
  shows "ReadRecord r = bindR (TryReadNextBlock (r\<lparr>r_skipped_bytes := 0\<rparr>)) (\<lambda>(available, r').
    let r' = r'\<lparr>r_skipped_bytes := r_accumulated_skipped_bytes r' - r_accumulated_skipped_bytes r\<rparr>
    in if available then bindR (next_record r') (\<lambda>(d, r). Inr (Some d, r)) else Inr (None, r'))"
  using assms by (simp add: ReadRecord_def CurrentBlockAvailable_def idle_def)

lemma ReadRecord_finish:
  assumes "serving r [] rest"
  obtains r' where "idle r' rest" "settings r' = settings r" "ReadRecord r = ReadRecord r'"
proof -
  let ?r0 = "r\<lparr>r_skipped_bytes := 0\<rparr>"
  define r' where "r' = ?r0\<lparr>r_state := STATE_START, r_ptr := r_ptr ?r0 + kBlockFooterSize, r_body_end := r_body_ptr ?r0\<rparr>"
  have i: "idle r' rest"
    unfolding r'_def by (rule serving_finish [of _ "[]"]) (use assms in simp)
  then have last': "\<not> r_last_block r'"
    by (simp add: idle_def)
  have skip: "r'\<lparr>r_skipped_bytes := 0\<rparr> = r'" and st: "settings r' = settings r"
    by (simp_all add: r'_def settings_def)
  have cba: "CurrentBlockAvailable ?r0 = Inr (False, r')"
    using CurrentBlockAvailable_serving [of ?r0 "[]" rest] assms by (simp add: r'_def)
  have "ReadRecord r = ReadRecord r'"
    unfolding ReadRecord_idle [OF i] skip ReadRecord_def [of r] cba using last' st by (simp add: settings_def)
  then show ?thesis
    using that [OF i st] by simp
qed

lemma serving_next:
  assumes "serving r (d # rs) rest"
  obtains r' p where "next_record r = Inr (p, r')" "record_at r' p = Inr d" "serving r' rs rest" "settings r' = settings r"
    "r_block_type r' = BLOCK_TYPE_SINGLE \<Longrightarrow> rs = []"
proof -
  have "holds r (d # rs)"
    using assms by (simp add: serving_def)
  then obtain r' p where r': "next_record r = Inr (p, r')" "record_at r' p = Inr d" "holds r' rs" "outer r' = outer r"
    "r_state r' = r_state r" "r_block_type r' = r_block_type r"
    by (rule next_record_holds)
  have "serving r' rs rest" "settings r' = settings r"
    using assms r'(3-5) by (auto simp: serving_def outer_def sound_def view_def available_def settings_def codec_ok_def)
  moreover have "rs = []" if "r_block_type r' = BLOCK_TYPE_SINGLE"
    using assms that r'(6) block_types by (auto simp: serving_def holds_def)
  ultimately show ?thesis
    using that r' by blast
qed

text \<open>A client that reads up to \<open>n\<close> records; the flag says that it has been told there are no more.\<close>

fun ReadRecords :: "nat \<Rightarrow> reader \<Rightarrow> (buffer list \<times> bool \<times> reader) result" where
  "ReadRecords 0 r = Inr ([], False, r)"
| "ReadRecords (Suc n) r =
     bindR (ReadRecord r) (\<lambda>(d, r).
       case d of
         None \<Rightarrow> Inr ([], True, r)
       | Some d \<Rightarrow> bindR (record_at r d) (\<lambda>bs.
           bindR (ReadRecords n r) (\<lambda>(bss, finished, r). Inr (bs # bss, finished, r))))"

text \<open>The client gets \<open>ds\<close> and is told that there is nothing more, and no byte has been skipped.\<close>

definition reads :: "reader \<Rightarrow> buffer list \<Rightarrow> bool" where
  "reads r ds \<longleftrightarrow>
     (\<forall>n. length ds < n \<longrightarrow> (\<exists>r'. ReadRecords n r = Inr (ds, True, r') \<and>
        r_accumulated_skipped_bytes r' = r_accumulated_skipped_bytes r))"

lemma reads_Nil:
  assumes "ReadRecord r = Inr (None, r')" "r_accumulated_skipped_bytes r' = r_accumulated_skipped_bytes r"
  shows "reads r []"
  unfolding reads_def using assms by (auto simp: gr0_conv_Suc)

lemma reads_Cons:
  assumes "ReadRecord r = Inr (Some p, r')" "record_at r' p = Inr d" "reads r' ds"
    and "r_accumulated_skipped_bytes r' = r_accumulated_skipped_bytes r"
  shows "reads r (d # ds)"
  unfolding reads_def
proof (intro allI impI)
  fix n
  assume "length (d # ds) < n"
  then obtain m where m: "n = Suc m" "length ds < m"
    by (cases n) auto
  then show "\<exists>r'. ReadRecords n r = Inr (d # ds, True, r') \<and> r_accumulated_skipped_bytes r' = r_accumulated_skipped_bytes r"
    using assms by (auto simp: reads_def)
qed

lemma reads_cong:
  assumes "ReadRecord r = ReadRecord r'" "reads r' ds" "r_accumulated_skipped_bytes r' = r_accumulated_skipped_bytes r"
  shows "reads r ds"
proof -
  have "ReadRecords n r = ReadRecords n r'" if "length ds < n" for n
    using that assms(1) by (cases n) simp_all
  then show ?thesis
    using assms(2,3) by (simp add: reads_def)
qed

lemma settings_skips: "settings r' = settings r \<Longrightarrow> r_accumulated_skipped_bytes r' = r_accumulated_skipped_bytes r"
  by (simp add: settings_def)

lemma reads_serving:
  assumes "serving r rs rest" "r_block_type r = BLOCK_TYPE_SINGLE \<Longrightarrow> rs = []"
    and "\<And>r'. idle r' rest \<Longrightarrow> settings r' = settings r \<Longrightarrow> reads r' ds"
  shows "reads r (rs @ ds)"
  using assms
proof (induction rs arbitrary: r)
  case Nil
  then obtain r' where "idle r' rest" "settings r' = settings r" "ReadRecord r = ReadRecord r'"
    by (blast elim: ReadRecord_finish)
  then show ?case
    using Nil(3) reads_cong [of r r' ds] settings_skips [of r' r] by simp
next
  case (Cons d rs)
  let ?r0 = "r\<lparr>r_skipped_bytes := 0\<rparr>"
  have s: "serving ?r0 (d # rs) rest"
    using Cons.prems(1) by simp
  obtain r' p where r': "next_record ?r0 = Inr (p, r')" "record_at r' p = Inr d" "serving r' rs rest"
    "settings r' = settings ?r0" "r_block_type r' = BLOCK_TYPE_SINGLE \<Longrightarrow> rs = []"
    using s by (rule serving_next) blast
  have "ReadRecord r = Inr (Some p, r')"
    using CurrentBlockAvailable_serving [OF s] Cons.prems(2) r'(1) by (simp add: ReadRecord_def)
  moreover have "reads r' (rs @ ds)"
    using Cons.IH [OF r'(3)] r'(4,5) Cons.prems(3) by simp
  ultimately show ?case
    using reads_Cons [of r p r' d "rs @ ds"] r'(2) settings_skips [of r' r] r'(4) by simp
qed

section \<open>The end of the stream\<close>

lemma ReadRecord_end:
  assumes "idle r rest" "length rest < kMinBlockSize"
  obtains r' where "ReadRecord r = Inr (None, r')"
    "r_accumulated_skipped_bytes r' = r_accumulated_skipped_bytes r + (if r_resume r then 0 else int (length rest))"
proof -
  let ?r0 = "r\<lparr>r_skipped_bytes := 0\<rparr>"
  have i: "sound ?r0" "r_state ?r0 = STATE_START" "\<not> r_last_block ?r0" "length (view ?r0) < kMinBlockSize" "view ?r0 = rest"
    using assms by (simp_all add: idle_def sound_def)
  obtain r1 where r1: "PreloadBufferAtLeast (int kMinBlockSize) ?r0 = (False, r1)" "view r1 = view ?r0" "sound r1"
    "unbuffered r1 = unbuffered ?r0" "available r1 = length (view ?r0)"
    using Preload_spec [OF i(1), of "int kMinBlockSize"] i(4) by (metis linorder_not_le of_nat_le_iff of_nat_less_iff)
  then have "TryReadNextBlockHeader_loop ?r0 = Inr (False, r1)"
    by (simp add: TryReadNextBlockHeader_loop.simps [of ?r0])
  then have t: "TryReadNextBlock ?r0 = Inr (False, no_header r1)"
    using i by (simp add: TryReadNextBlock_def TryReadNextBlock_loop.simps [of ?r0] next_header_def TryReadNextBlockHeader_def)
  note u = unbuffered_fields [OF r1(4)]
  have "available r1 = length rest"
    using r1(5) i(5) by simp
  then have "r_accumulated_skipped_bytes (no_header r1) =
      r_accumulated_skipped_bytes r + (if r_resume r then 0 else int (length rest))"
    using u by (simp add: no_header_def BufferPointerPosition_def)
  then show ?thesis
    using that ReadRecord_idle [OF assms(1)] t by (simp add: Let_def)
qed

section \<open>Round trip\<close>

lemma length_block: "12 + length (body_of services t codec (payload g)) \<le> length (block services t codec g)"
  using varint_length(1) [of "length (body_of services t codec (payload g))"]
  by (simp add: block_eq frame_def Let_def block_header_def length_magic)

lemma body_not_Nil:
  assumes "g \<noteq> []" "codec \<noteq> None \<or> g \<noteq> [[]]"
  shows "body_of services t codec (payload g) \<noteq> []"
proof (cases codec)
  case None
  show ?thesis
  proof (cases "length g = 1")
    case True
    then show ?thesis
      using None assms by (cases g) (auto simp: body_of_def payload_def payload_sizes_def)
  next
    case False
    then show ?thesis
      using None varint_not_Nil by (simp add: body_of_def payload_def payload_sizes_def)
  qed
next
  case (Some c)
  then show ?thesis
    using varint_not_Nil by (simp add: body_of_def extent_body_def Let_def split: prod.splits)
qed

lemma reads_idle:
  assumes "lossless services t codec" "\<forall>g \<in> set gs. readable services t codec g"
    and "gs = [] \<or> codec \<noteq> None \<or> last gs \<noteq> [[]]"
    and "idle r (concat (map (block services t codec) gs))" "r_services r = services"
  shows "reads r (concat gs)"
  using assms(2-)
proof (induction gs arbitrary: r)
  case Nil
  then have "idle r []" "length ([] :: buffer) < kMinBlockSize"
    by (simp_all add: kMinBlockSize_def)
  then obtain r' where "ReadRecord r = Inr (None, r')"
    "r_accumulated_skipped_bytes r' = r_accumulated_skipped_bytes r + (if r_resume r then 0 else int (length ([] :: buffer)))"
    by (rule ReadRecord_end)
  then show ?case
    using reads_Nil [of r r'] by simp
next
  case (Cons g gs)
  let ?rest = "concat (map (block services t codec) gs)"
  let ?r0 = "r\<lparr>r_skipped_bytes := 0\<rparr>"
  have g: "readable services t codec g" "g \<noteq> []"
    using Cons.prems(1) by (simp_all add: readable_def)
  have len: "kMinBlockSize \<le> length (block services t codec g @ ?rest)"
  proof (cases gs)
    case Nil
    then have "body_of services t codec (payload g) \<noteq> []"
      using Cons.prems(2) g(2) by (intro body_not_Nil) simp_all
    then show ?thesis
      using length_block [of services t codec g] Nil by (cases "body_of services t codec (payload g)") (simp_all add: kMinBlockSize_def)
  next
    case (Cons h hs)
    then show ?thesis
      using length_block [of services t codec g] length_block [of services t codec h] by (simp add: kMinBlockSize_def)
  qed
  have i: "idle ?r0 (block services t codec g @ ?rest)" "r_services ?r0 = services"
    using Cons.prems(3,4) by simp_all
  obtain r1 where r1: "TryReadNextBlock ?r0 = Inr (True, r1)" "serving r1 g ?rest" "settings r1 = settings ?r0"
    using read_block [OF i(1) len assms(1) g(1) i(2)] .
  obtain d ds where d: "g = d # ds"
    using g(2) by (cases g) auto
  let ?r2 = "r1\<lparr>r_skipped_bytes := r_accumulated_skipped_bytes r1 - r_accumulated_skipped_bytes r\<rparr>"
  have s: "serving ?r2 (d # ds) ?rest"
    using r1(2) d by simp
  obtain r3 p where r3: "next_record ?r2 = Inr (p, r3)" "record_at r3 p = Inr d" "serving r3 ds ?rest"
    "settings r3 = settings ?r2" "r_block_type r3 = BLOCK_TYPE_SINGLE \<Longrightarrow> ds = []"
    using s by (rule serving_next) blast
  have st: "settings r3 = settings r"
    using r3(4) r1(3) by simp
  have "ReadRecord r = Inr (Some p, r3)"
    using ReadRecord_idle [OF Cons.prems(3)] r1(1) r3(1) by (simp add: Let_def)
  moreover have "reads r3 (ds @ concat gs)"
  proof (rule reads_serving [OF r3(3,5)])
    fix r'
    assume i': "idle r' ?rest" "settings r' = settings r3"
    have "r_services r' = services" "gs = [] \<or> codec \<noteq> None \<or> last gs \<noteq> [[]]"
      using i'(2) st Cons.prems(2,4) by (auto simp: settings_def)
    then show "reads r' (concat gs)"
      using Cons.IH [of r'] Cons.prems(1) i'(1) by simp
  qed
  ultimately show ?case
    using reads_Cons [of r p r3 d "ds @ concat gs"] r3(2) settings_skips [OF st] d by simp
qed

lemma reader_starts_idle:
  "[] \<notin> set chunks \<Longrightarrow> idle (RecordReader_Initialize services chunks resume) (concat chunks)"
  by (simp add: idle_def sound_def view_def codec_ok_def RecordReader_Initialize_def)

lemma body_fits:
  assumes "fits g" "g \<noteq> []" "services_bounded services codec" "\<forall>d \<in> set g. length d \<le> kMaxRecordSize"
    and "codec \<noteq> None \<Longrightarrow> \<forall>d \<in> set g. length d + 69 \<le> kMaxRecordSize"
  shows "readable services t codec g"
proof -
  have "length (payload g) + (if codec = None then 0 else 69) \<le> kMaxRecordSize"
  proof (cases "length g = 1")
    case True
    then obtain d where "g = [d]"
      by (cases g) auto
    then show ?thesis
      using assms(4,5) by (simp add: payload_def payload_sizes_def)
  next
    case False
    have "length (payload_sizes g) \<le> 10 + 32768"
      using assms(1) varint_length(2) [of "length (hd g)"] varint_length(2) [of "length g"]
        varint_length(2) [of "length (size_bytes g)"] varint_length(2) [of 0]
      by (simp add: payload_sizes_def fits_def buffer_sizes_kb)
    moreover have "length (concat g) < 131072"
      using assms(1) False by (simp add: fits_def buffer_sizes_kb)
    ultimately show ?thesis
      by (simp add: payload_def buffer_sizes_kb)
  qed
  moreover have "length (body_of services t codec (payload g)) \<le> length (payload g) + (if codec = None then 0 else 69)"
  proof (cases codec)
    case (Some c)
    then show ?thesis
      using extent_body_length [of services c t "payload g"] assms(3) by (simp add: body_of_def)
  qed (simp add: body_of_def)
  ultimately show ?thesis
    using assms(1,2) by (simp add: readable_def)
qed


lemma storing_services_lossless: "library_lossless (storing_services debug)"
proof -
  have n: "unat (word_of_nat n :: 32 word) = n" if "n < 2 ^ 32" for n
    using that by (simp add: unsigned_of_nat take_bit_nat_eq_self)
  have "le_bytes 4 w \<noteq> []" for w :: "32 word"
    using length_le_bytes [of 4 w] by fastforce
  then show ?thesis
    unfolding library_lossless_def parser_lossless_def compressors_lossless_def storing_services_def copy_in_def
    by (auto simp: le_word_le_bytes n take_bit_word_eq_self split: option.splits if_splits)
qed


text \<open>
  C36: without compression, an empty record written alone is lost. The writer reports success, but its block has twelve
  bytes, one less than what the reader takes for the smallest block, so the reader reports the end of the stream at once.
\<close>

theorem RecordIO_empty_record_lost:
  "\<exists>w r. and_then_write (WriteRecords [[]] (RecordWriter_Initialize services 0 [])) Flush = Inr (True, w) \<and>
     length (w_output w) = 12 \<and>
     ReadRecord (RecordReader_Initialize services [w_output w] resume) = Inr (None, r)"
proof -
  have "services_bounded services (if (0 :: nat) > 0 then CreateCodec services 0 else None)"
    by (simp add: services_bounded_def)
  then obtain w gs where w: "and_then_write (WriteRecords [[]] (RecordWriter_Initialize services 0 [])) Flush = Inr (True, w)"
    and gs: "concat gs = [[]]" "\<forall>g \<in> set gs. g \<noteq> [] \<and> fits g"
      "w_output w = concat (map (block services 0 (if (0 :: nat) > 0 then CreateCodec services 0 else None)) gs)"
    by (rule written_blocks [where ds = "[[]]"]) simp_all
  have "gs = [[[]]]"
    using gs(1,2) by (cases gs) (auto simp: Cons_eq_append_conv append_eq_Cons_conv)
  moreover have "length (varint 0) = 1"
    using varint_length_bound [of 0 1] varint_length(1) [of 0] by simp
  ultimately have len: "length (w_output w) = 12"
    using gs(3) by (simp add: block_def frame_def Let_def block_header_def payload_def payload_sizes_def length_magic)
  then have "idle (RecordReader_Initialize services [w_output w] resume) (w_output w)"
    using reader_starts_idle [of "[w_output w]" services resume] by (cases "w_output w") simp_all
  then obtain r where "ReadRecord (RecordReader_Initialize services [w_output w] resume) = Inr (None, r)"
    by (rule ReadRecord_end) (use len in \<open>simp add: kMinBlockSize_def\<close>)
  then show ?thesis
    using w len by blast
qed

section \<open>Reading a range\<close>

text \<open>
  C37: a reader of a range without the resume option, whose end has been reached by skipped bytes, reports the end when
  it finds the next valid block, but stays behind the header of that block: reading once more fails the check that no
  header is pending.
\<close>

theorem RecordReader_range_end_aborts:
  assumes "sound r" "r_state r = STATE_START" "view r = frame (type_byte extent ty) body @ rest"
    and "kMinBlockSize \<le> length (view r)" "ty \<in> {BLOCK_TYPE_FIXED, BLOCK_TYPE_VARIABLE, BLOCK_TYPE_SINGLE}"
    and "length body \<le> kMaxRecordSize" "\<not> r_last_block r" "\<not> r_resume r"
    and "r_end r \<noteq> - 1" "r_pos r + r_accumulated_skipped_bytes r \<ge> r_end r"
  shows "\<exists>r'. ReadRecord r = Inr (None, r') \<and> ReadRecord r' = Inl Assertion_failed"
proof -
  let ?r0 = "r\<lparr>r_skipped_bytes := 0\<rparr>"
  have i: "sound ?r0" "view ?r0 = frame (type_byte extent ty) body @ rest" "kMinBlockSize \<le> length (view ?r0)"
    using assms(1,3,4) by (simp_all add: sound_def)
  obtain r1 where r1: "TryReadNextBlockHeader_loop ?r0 = Inr (True, r1)" "settings r1 = settings ?r0"
    "r_state r1 = STATE_VALID_HEADER"
    using read_header [OF i assms(5,6)] .
  have f: "within_range r1 = (False, r1)" "r_last_block r1 = False" "r_resume r1 = False"
    using r1(2) assms(7-10) by (simp_all add: settings_def within_range_def)
  have "TryReadNextBlock ?r0 = Inr (False, r1)"
    using r1(1) f(1) assms(2,7,8)
    by (simp add: TryReadNextBlock_def TryReadNextBlock_loop.simps [of ?r0] next_header_def TryReadNextBlockHeader_def)
  then have "ReadRecord r = Inr (None, r1\<lparr>r_skipped_bytes := r_accumulated_skipped_bytes r1 - r_accumulated_skipped_bytes r\<rparr>)"
    using assms(2,7) by (simp add: ReadRecord_def CurrentBlockAvailable_def Let_def)
  moreover have "ReadRecord (r1\<lparr>r_skipped_bytes := k\<rparr>) = Inl Assertion_failed" for k
    using r1(3) f(2,3) by (simp add: ReadRecord_def CurrentBlockAvailable_def TryReadNextBlock_def Let_def)
  ultimately show ?thesis
    by blast
qed

text \<open>A block of one record, read with the range 0 to 0.\<close>

definition range_reader :: reader where
  "range_reader = (RecordReader_Initialize (storing_services False) [frame BLOCK_TYPE_SINGLE [7]] False)\<lparr>r_pos := 0, r_end := 0\<rparr>"

theorem RecordReader_range_end_aborts_witness:
  "\<exists>r'. ReadRecord range_reader = Inr (None, r') \<and> ReadRecord r' = Inl Assertion_failed"
proof (rule RecordReader_range_end_aborts [of _ False BLOCK_TYPE_SINGLE "[7]" "[]"])
  have "12 + length [7 :: 8 word] \<le> length (frame BLOCK_TYPE_SINGLE [7])"
    using varint_length(1) [of 1] by (simp add: frame_def Let_def block_header_def length_magic)
  then show "kMinBlockSize \<le> length (view range_reader)" "sound range_reader"
    by (auto simp: range_reader_def view_def sound_def RecordReader_Initialize_def kMinBlockSize_def)
qed (simp_all add: range_reader_def view_def RecordReader_Initialize_def type_byte_def buffer_sizes_kb)

end
