(* ===== verification/Spec2Isabelle.thy ===== *)
theory Spec2Isabelle
  imports Uri_Roundtrip Uri_Merge String_Algorithm String_Number C_Escape Tea Record_Roundtrip
begin

text \<open>
  Verification of the base library of the Neptune repository: strings and bytes, the encodings and URIs built on them,
  the TEA cipher, and the record file format. The files named below are under \<^verbatim>\<open>src/\<close>.

  \<^bold>\<open>Parts and how they interact.\<close>
  Byte classes and byte sets (\<^verbatim>\<open>common/encoding/ascii.h\<close>, \<^verbatim>\<open>common/base/string/byte_set.h\<close>) are used by the percent
  encoding (\<^verbatim>\<open>common/encoding/percent.cpp\<close>) and by the URI parser; \<^verbatim>\<open>URI\<close> (\<^verbatim>\<open>common/net/uri/uri.cpp\<close>) parses, prints,
  encodes and resolves references with both. The string functions
  (\<^verbatim>\<open>common/base/string/\<close> with \<^verbatim>\<open>compare.h\<close>, \<^verbatim>\<open>string_piece.cpp\<close>, \<^verbatim>\<open>algorithm.cpp\<close>, \<^verbatim>\<open>string_number.cpp\<close>) call each
  other: splitting and searching go through the pieces and the comparisons, number lists through splitting. The record
  files (\<^verbatim>\<open>app/qzap/common/recordio/\<close>) write lengths as variant integers, compress blocks with the codecs of
  \<^verbatim>\<open>app/qzap/common/compress/\<close>, frame them with CRC-32 checksums and read them back from a buffered stream. The cipher (\<^verbatim>\<open>app/qzap/common/encrypt/tea/tea.cc\<close>) stands alone.

  \<^bold>\<open>How the code is modelled.\<close>
  A function of the source is a function of the same name; a method carries its class in front where the bare name
  is taken. Text is a char list, a buffer of the record files an 8-bit word list, and machine integers are words of
  their width, or integers with the wrap-around written out. What the program can do wrong is a value: \<^typ>\<open>cpp_error\<close>
  is a read or write outside a block, a failed check, a read of an uninitialised object, undefined arithmetic or an
  exception, and a fallible function returns \<^typ>\<open>'a result\<close>. Objects are records that the operations take and return.
  Loops are recursive functions with a termination proof; a loop that may not end is a partial function into an
  option type, so that not returning is \<^const>\<open>None\<close>, and results about it say when it returns and when it does not. The
  lengths that the code converts to \<^verbatim>\<open>int\<close> go through \<^const>\<open>int32_of\<close>, and sums that may overflow through
  \<^const>\<open>checked_int32\<close>; the theorems about them state the length up to which they hold. Fuel is used in one place:
  \<^const>\<open>repeat_fuel\<close> in \<^verbatim>\<open>Uri_Parser\<close> repeats a match function, with one more than the bytes that are left as fuel,
  which is enough because every successful match consumes one (\<^verbatim>\<open>repeat_fuel_enough\<close>). The client of the record round trip asks
  for a number of records, and any number above that of the records written will do.

  \<^bold>\<open>The theories.\<close>
  \<^item> \<^verbatim>\<open>Neptune_Prelude\<close>: the error type, checked access, slices, searches in lists, the collections of rewrite rules.
  \<^item> \<^verbatim>\<open>Ascii\<close>, \<^verbatim>\<open>Byte_Set\<close>: the class table agrees with the C predicates; every operation on the bitmap keeps its length
    and does to the set of bytes what its name says.
  \<^item> \<^verbatim>\<open>Percent\<close>: the encoders and the two decoders; decoding undoes the component encoder, and the in-place decoder
    agrees with the appending one except at a cut-off escape.
  \<^item> \<^verbatim>\<open>Uri\<close>, \<^verbatim>\<open>Uri_Parser\<close>, \<^verbatim>\<open>Uri_Parser_Correct\<close>, \<^verbatim>\<open>Uri_Roundtrip\<close>: the class, the recursive-descent parser with its
    rollback object, and that printing an accepted URI returns its text.
  \<^item> \<^verbatim>\<open>Uri_Merge\<close>: dot removal and reference resolution refine the transformation of RFC 3986.
  \<^item> \<^verbatim>\<open>Compare\<close>, \<^verbatim>\<open>String_Piece\<close>: word-wise comparison is lexicographic, the searches return the first or last position,
    and the C-style functions stay inside their blocks or are shown not to.
  \<^item> \<^verbatim>\<open>C_Escape\<close>, \<^verbatim>\<open>String_Split\<close>, \<^verbatim>\<open>String_Algorithm\<close>, \<^verbatim>\<open>String_Number\<close>: round trips of escaping, splitting and
    printing, equivalence of the optimised loops with reference functions, the limits of the parsed types, and the
    inputs on which a loop does not end or a buffer is left.
  \<^item> \<^verbatim>\<open>Tea\<close>: the framed, chained cipher; decryption undoes encryption, up to the longest text whose cipher text has a
    32-bit length, and is safe on any input.
  \<^item> \<^verbatim>\<open>Varint\<close>: both preprocessor branches of the base-128 integers, their agreement and their round trip.
  \<^item> \<^verbatim>\<open>Record_Format\<close>: the block constants, the CRC-32 table, the bitwise definition it implements and the errors it
    detects.
  \<^item> \<^verbatim>\<open>Compression\<close>: the seven codec classes and \<^verbatim>\<open>CreateCodec\<close>; every codec but QuickLZ keeps to its output buffer,
    and every codec undoes its own compression.
  \<^item> \<^verbatim>\<open>Record_Writer\<close>: \<^verbatim>\<open>RecordWriter\<close> with a stream that may refuse any write. The invariant says that the two buffers
    hold whole records that the counters describe; every call keeps it, in builds with and without debug checks, and a
    working stream receives a sequence of well-formed blocks.
  \<^item> \<^verbatim>\<open>Record_Reader\<close>: \<^verbatim>\<open>RecordReader\<close> with a stream given as the chunks that its reads return. The search for a block ends
    because each round consumes bytes of the stream.
  \<^item> \<^verbatim>\<open>Record_Roundtrip\<close>: the reader returns what the writer wrote, for every chunking, without compression and with every codec but
    QuickLZ; a lone empty record and a range that is read beyond its end, where the code fails, are proved as such.

  \<^bold>\<open>Parameters.\<close>
  The generated parser and serialiser of the extent header are not part of the sources, and the codecs end in compression
  libraries; both are arguments of the record files, in the record \<^typ>\<open>services\<close>, together with whether the build has debug
  checks. The writer relies on the documented output limits (\<^const>\<open>library_bounded\<close>), the round trip on decompression and
  parsing being the inverse of compression and serialisation (\<^const>\<open>library_lossless\<close>); libraries that copy their input
  satisfy both (\<^const>\<open>storing_services\<close>). QuickLZ is excluded where the limit matters, because its codec does not pass it
  the size of the buffer. The start of the random salt of the cipher is an argument too.

  \<^bold>\<open>Not modelled.\<close>
  The formatting functions over \<^verbatim>\<open>va_list\<close> and floating-point numbers; the compression libraries, which are third-party
  code over unaligned pointers and preprocessor configuration, and the pool of codec objects; the JSON module; HTTP; sockets,
  files, threads and processes, which are wrappers of system calls; the clients of ZooKeeper, MySQL and key-value
  stores; text analysis, learning and retrieval, which are floating-point computations over data files and protocol
  buffers.
\<close>

end
